(* ===== verification/Prelude.thy ===== *)
theory Prelude
  imports Main "HOL-Library.Word" "HOL-Library.Monad_Syntax" "HOL-Library.Signed_Division"
begin

text \<open>
  Shared vocabulary of the development: the C types that occur in the sources, arrays with
  the out-of-range access made visible, the collections of simplification rules that the
  component theories extend, and the generic facts on lists and cyclic distances they share.

  An execution that goes wrong (an access outside an array, a failed \<open>assert\<close>) has the value
  \<^term>\<open>None\<close>. Every function that can go wrong returns an \<open>option\<close>, and the properties
  state explicitly that the result is \<^term>\<open>Some\<close> of something.
\<close>

section \<open>C types\<close>

type_synonym u8 = "8 word"
type_synonym u16 = "16 word"
type_synonym u32 = "32 word"
type_synonym u64 = "64 word"

text \<open>
  A C \<open>int\<close> (and the 64 bit \<open>time_t\<close>) whose arithmetic stays in range is an \<^typ>\<open>int\<close>; where
  overflow or conversion between widths matters the code is modelled on words.
\<close>

definition INT_MAX :: int where
  "INT_MAX = 2147483647"

definition INT_MIN :: int where
  "INT_MIN = - 2147483648"

definition is_c_int :: "int \<Rightarrow> bool" where
  "is_c_int x \<longleftrightarrow> INT_MIN \<le> x \<and> x \<le> INT_MAX"

section \<open>Arrays\<close>

named_theorems arr "reading and writing C arrays"

definition rd :: "'a list \<Rightarrow> int \<Rightarrow> 'a option" where
  "rd xs i = (if 0 \<le> i \<and> i < int (length xs) then Some (xs ! nat i) else None)"

definition wr :: "'a list \<Rightarrow> int \<Rightarrow> 'a \<Rightarrow> 'a list option" where
  "wr xs i v = (if 0 \<le> i \<and> i < int (length xs) then Some (xs[nat i := v]) else None)"

definition assertion :: "bool \<Rightarrow> unit option" where
  "assertion b = (if b then Some () else None)"

lemma rd_in [arr, simp]: "0 \<le> i \<Longrightarrow> i < int (length xs) \<Longrightarrow> rd xs i = Some (xs ! nat i)"
  by (simp add: rd_def)

lemma wr_in [arr, simp]: "0 \<le> i \<Longrightarrow> i < int (length xs) \<Longrightarrow> wr xs i v = Some (xs[nat i := v])"
  by (simp add: wr_def)

lemma rd_out: "\<not> (0 \<le> i \<and> i < int (length xs)) \<Longrightarrow> rd xs i = None"
  by (simp add: rd_def)

lemma wr_out: "\<not> (0 \<le> i \<and> i < int (length xs)) \<Longrightarrow> wr xs i v = None"
  by (auto simp: wr_def)

lemma rd_int [arr, simp]: "n < length xs \<Longrightarrow> rd xs (int n) = Some (xs ! n)"
  by (simp add: rd_def)

lemma wr_int [arr, simp]: "n < length xs \<Longrightarrow> wr xs (int n) v = Some (xs[n := v])"
  by (simp add: wr_def)

lemma assertion_True [simp]: "assertion True = Some ()"
  by (simp add: assertion_def)

lemma assertion_False [simp]: "assertion False = None"
  by (simp add: assertion_def)

text \<open>
  The first argument of a bind is simplified before its continuation is looked at, so that
  concrete executions evaluate from the first statement to the last.
\<close>

lemma bind_weak_cong [cong]: "x = y \<Longrightarrow> Option.bind x f = Option.bind y f"
  by simp

declare Option.bind_cong [fundef_cong]

section \<open>Code that may not return\<close>

text \<open>
  The result of code with a loop that may run for ever is of type \<open>'a run option\<close>: \<open>None\<close> is a call that does not return,
  \<open>Some Fault\<close> one that goes wrong, \<open>Some (Done x)\<close> one that returns \<open>x\<close>.
\<close>

datatype 'a run = Fault | Done 'a

section \<open>Heap blocks\<close>

text \<open>
  The allocator, as far as the allocation functions of the containers depend on it: the
  outcome of the calls of \<open>malloc\<close> still to come is unknown, so it is part of the state, and
  the blocks that are allocated and not yet freed are recorded. Freeing a block that is not
  live goes wrong.
\<close>

record heap =
  outcomes :: "bool list"
  live :: "nat list"
  fresh :: nat

definition heap_ok :: "heap \<Rightarrow> bool" where
  "heap_ok h \<longleftrightarrow> (\<forall>b\<in>set (live h). b < fresh h)"

definition malloc :: "heap \<Rightarrow> nat option \<times> heap" where
  "malloc h =
     (case outcomes h of
        [] \<Rightarrow> (None, h)
      | ok # later \<Rightarrow>
          if ok then (Some (fresh h),
            h\<lparr>outcomes := later, live := fresh h # live h, fresh := Suc (fresh h)\<rparr>)
          else (None, h\<lparr>outcomes := later\<rparr>))"

definition free :: "nat \<Rightarrow> heap \<Rightarrow> heap option" where
  "free b h = (if b \<in> set (live h) then Some (h\<lparr>live := remove1 b (live h)\<rparr>) else None)"

primrec free_all :: "nat list \<Rightarrow> heap \<Rightarrow> heap option" where
  "free_all [] h = Some h"
| "free_all (b # bs) h = do { h' \<leftarrow> free b h; free_all bs h' }"

lemma malloc_Some:
  assumes "malloc h = (Some b, h')" and "heap_ok h"
  shows "live h' = b # live h" "b \<notin> set (live h)" "heap_ok h'"
  using assms by (auto simp: malloc_def heap_ok_def less_SucI split: list.splits if_splits)

lemma malloc_None:
  assumes "malloc h = (None, h')"
  shows "live h' = live h" "heap_ok h' = heap_ok h"
  using assms by (auto simp: malloc_def heap_ok_def split: list.splits if_splits)

lemma malloc_all_succeed: "outcomes h = True # bs \<Longrightarrow>
  malloc h = (Some (fresh h), h\<lparr>outcomes := bs, live := fresh h # live h, fresh := Suc (fresh h)\<rparr>)"
  by (simp add: malloc_def)

text \<open>Freeing, most recent first, exactly the blocks allocated since the live list was \<open>l\<close>.\<close>

lemma free_all_recent:
  assumes "live h = bs @ l"
  shows "\<exists>h'. free_all bs h = Some h' \<and> live h' = l \<and> fresh h' = fresh h \<and> outcomes h' = outcomes h"
  using assms
proof (induction bs arbitrary: h)
  case Nil
  then show ?case by simp
next
  case (Cons b bs)
  then show ?case
    using Cons.IH [of "h\<lparr>live := bs @ l\<rparr>"] by (auto simp: free_def)
qed

text \<open>
  One step of an allocation function, for any property \<open>Q\<close> of the rest of the execution, and
  the clean-up after a failed step.
\<close>

lemma malloc_step:
  assumes "heap_ok h"
    and "\<And>h'. live h' = live h \<Longrightarrow> heap_ok h' \<Longrightarrow> Q (f h')"
    and "\<And>b h'. live h' = b # live h \<Longrightarrow> heap_ok h' \<Longrightarrow> Q (g b h')"
  shows "Q (case malloc h of (None, h') \<Rightarrow> f h' | (Some b, h') \<Rightarrow> g b h')"
  using assms malloc_Some [of h] malloc_None [of h] by (auto split: prod.split option.split)

lemma free_step:
  assumes "live h = bs @ l" and "heap_ok h" and "\<And>h'. live h' = l \<Longrightarrow> heap_ok h' \<Longrightarrow> Q (k h')"
  shows "Q (do { h \<leftarrow> free_all bs h; k h })"
  using free_all_recent [OF assms(1)] assms by (auto simp: heap_ok_def)

section \<open>Counting in lists\<close>

text \<open>The number of elements that satisfy a predicate, when the predicate changes at one place.\<close>

lemma length_filter_add_one:
  assumes "distinct xs" and "a \<in> set xs" and "\<not> P a" and "Q a"
    and "\<And>x. x \<in> set xs \<Longrightarrow> x \<noteq> a \<Longrightarrow> P x = Q x"
  shows "length (filter Q xs) = Suc (length (filter P xs))"
proof -
  obtain ys zs where xs: "xs = ys @ a # zs"
    using \<open>a \<in> set xs\<close> by (auto simp: in_set_conv_decomp)
  have "filter P ys = filter Q ys" "filter P zs = filter Q zs"
    using assms xs by (auto intro!: filter_cong)
  then show ?thesis
    using xs assms by simp
qed

lemma length_filter_same:
  assumes "\<And>x. x \<in> set xs \<Longrightarrow> P x = Q x"
  shows "length (filter P xs) = length (filter Q xs)"
  by (metis assms filter_cong)

lemma length_filter_pos: "x \<in> set xs \<Longrightarrow> P x \<Longrightarrow> 0 < length (filter P xs)"
  by (induction xs) auto

section \<open>Maps\<close>

lemma map_eqI:
  assumes "\<And>k v. m k = Some v \<longleftrightarrow> m' k = Some v"
  shows "m = m'"
  using assms by (metis ext not_Some_eq)

section \<open>Cyclic distance\<close>

text \<open>
  The distance from \<open>s\<close> forward to \<open>j\<close> on a cycle of \<open>c\<close> cells: how many steps of
  linear probing lead from cell \<open>s\<close> to cell \<open>j\<close>.
\<close>

definition cdist :: "nat \<Rightarrow> nat \<Rightarrow> nat \<Rightarrow> nat" where
  "cdist c s j = (j + c - s) mod c"

lemma cdist_lt [simp]: "0 < c \<Longrightarrow> cdist c s j < c"
  by (simp add: cdist_def)

lemma probe_cdist: "s < c \<Longrightarrow> j < c \<Longrightarrow> (s + cdist c s j) mod c = j"
  by (simp add: cdist_def mod_add_right_eq)

lemma cdist_probe: 
  assumes "s < c" "i < c"
  shows "cdist c s ((s + i) mod c) = i"
proof (cases "s + i < c")
  case True
  then show ?thesis using assms by (simp add: cdist_def)
next
  case False
  then have "(s + i) mod c = s + i - c"
    using assms by (simp add: mod_if)
  then show ?thesis using assms False by (simp add: cdist_def)
qed

lemma cdist_inj: "s < c \<Longrightarrow> i < c \<Longrightarrow> j < c \<Longrightarrow> cdist c s i = cdist c s j \<longleftrightarrow> i = j"
  by (metis probe_cdist)

section \<open>Hash accumulators\<close>

text \<open>
  The hash functions of the sources accumulate fields into a \<open>long long\<close>. The steps on words agree
  with those on integers as long as the value stays below \<open>2 ^ 63\<close>.
\<close>

lemma acc_add:
  assumes "uint h = a" "a + uint (x :: 'a :: len word) < 2 ^ 63"
  shows "uint (h + ucast x :: 64 word) = a + uint x"
proof -
  have "0 \<le> a" using assms(1) uint_ge_0 [of h] by simp
  moreover have x0: "0 \<le> uint x" by (rule uint_ge_0)
  ultimately have x: "uint x < 2 ^ 64" and s: "0 \<le> a + uint x" using assms(2) by simp_all
  have "uint (ucast x :: 64 word) = uint x"
    using x by (simp add: unsigned_ucast_eq take_bit_int_eq_self)
  then show ?thesis
    using assms s by (simp add: uint_word_ariths)
qed

lemma acc_mult:
  assumes "uint h = a" "a * 31 < 2 ^ 63"
  shows "uint (h * 31 :: 64 word) = a * 31"
  using assms uint_ge_0 [of h] by (simp add: uint_word_ariths)

lemma acc_result:
  assumes "uint (h :: 64 word) = a" "a < 2 ^ 63"
  shows "sint h smod INT_MAX = a mod INT_MAX"
proof -
  have a: "0 \<le> a" using assms(1) uint_ge_0 [of h] by simp
  moreover have "sint h = a"
    using assms a by (simp add: sint_uint signed_take_bit_int_eq_self)
  ultimately show ?thesis
    by (cases "a = 0") (simp_all add: signed_modulo_int_def signed_divide_int_def INT_MAX_def minus_div_mult_eq_mod)
qed

section \<open>Subtracting an expiration time\<close>

text \<open>
  The network functions subtract a 32 bit expiration time from the current time in unsigned 64 bit
  arithmetic and convert the result to a signed time: this is the difference of the integers.
\<close>

lemma time_minus_u32:
  assumes "0 \<le> now" "now < 2 ^ 63"
  shows "sint (word_of_int now - ucast (e :: u32) :: 64 word) = now - uint e"
proof -
  have e: "0 \<le> uint e" "uint e < 2 ^ 32" using uint_ge_0 [of e] uint_lt2p [of e] by simp_all
  have "uint (ucast e :: 64 word) = uint e"
    using e by (simp add: unsigned_ucast_eq take_bit_int_eq_self)
  then have "(ucast e :: 64 word) = word_of_int (uint e)" by (metis word_of_int_uint)
  then have "(word_of_int now - ucast e :: 64 word) = word_of_int (now - uint e)" by simp
  moreover have "sint (word_of_int (now - uint e) :: 64 word) = now - uint e"
    unfolding sint_sbintrunc' using assms e by (intro signed_take_bit_int_eq_self; simp; linarith)
  ultimately show ?thesis by simp
qed

text \<open>A 32 bit capacity that passes through a 64 bit and a signed 32 bit parameter.\<close>

lemma capacity_conversion:
  assumes "uint (w :: u32) = int n" "n < 2 ^ 31"
  shows "sint (ucast (ucast w :: u64) :: u32) = int n"
proof -
  have w: "uint w < 2 ^ 32" using uint_lt2p [of w] by simp
  then have "uint (ucast w :: u64) = uint w" by (simp add: unsigned_ucast_eq take_bit_int_eq_self)
  then have "uint (ucast (ucast w :: u64) :: u32) = uint w"
    unfolding unsigned_ucast_eq [of "ucast w :: u64"] using w
    by (simp only: len_num1 len_bit0 len_bit1 take_bit_int_eq_self uint_ge_0) (simp add: take_bit_int_eq_self)
  then have "(ucast (ucast w :: u64) :: u32) = w" by (rule word_uint_eqI)
  moreover have "sint w = uint w"
    using assms by (simp add: sint_uint signed_take_bit_int_eq_self)
  ultimately show ?thesis using assms by simp
qed

end
