(* ===== verification/MapImpl.thy ===== *)
theory MapImpl
  imports Prelude "HOL-Library.Signed_Division"
begin

text \<open>
  The open-addressing hash table of \<open>dpdk-nfs/nf/lib/containers/map-impl.c\<close>: five parallel
  arrays (busy bits, key pointers, key hashes, chain counters, values). A key is looked for
  from its home cell onwards; the chain counter of a cell says how many stored keys have been
  pushed past that cell, so that a search may stop at a cell whose counter is zero.

  Key pointers are values of an arbitrary type; the code reads what they point to only through
  the equality function it is handed, which is therefore an argument here as well.
\<close>

unbundle bit_operations_syntax

section \<open>The code\<close>

subsection \<open>Cell numbers\<close>

definition loop :: "int \<Rightarrow> int \<Rightarrow> int" where
  "loop k capacity =
     (let g = k AND (capacity - 1)
      in (g + capacity) AND (capacity - 1))"

text \<open>The function of the contract of \<open>loop\<close>, which is also the commented-out slow version.\<close>

definition loop_fp :: "int \<Rightarrow> int \<Rightarrow> int" where
  "loop_fp k capacity = (k smod capacity + capacity) smod capacity"

subsection \<open>Searching\<close>

function find_key_loop ::
  "int list \<Rightarrow> 'p list \<Rightarrow> int list \<Rightarrow> int list \<Rightarrow> 'p \<Rightarrow> ('p \<Rightarrow> 'p \<Rightarrow> bool) \<Rightarrow> int \<Rightarrow> int
   \<Rightarrow> int \<Rightarrow> int \<Rightarrow> int option" where
  "find_key_loop busybits keyps k_hashes chns keyp eq key_hash capacity start i =
     (if i < capacity then do {
        let index = loop (start + i) capacity;
        bb \<leftarrow> rd busybits index;
        kh \<leftarrow> rd k_hashes index;
        chn \<leftarrow> rd chns index;
        kp \<leftarrow> rd keyps index;
        if bb \<noteq> 0 \<and> kh = key_hash then
          if eq kp keyp then Some index
          else find_key_loop busybits keyps k_hashes chns keyp eq key_hash capacity start (i + 1)
        else
          if chn = 0 then Some (- 1)
          else find_key_loop busybits keyps k_hashes chns keyp eq key_hash capacity start (i + 1)
      } else Some (- 1))"
  by pat_completeness auto
termination
  by (relation "measure (\<lambda>(_, _, _, _, _, _, _, capacity, _, i). nat (capacity - i))") auto

definition find_key ::
  "int list \<Rightarrow> 'p list \<Rightarrow> int list \<Rightarrow> int list \<Rightarrow> 'p \<Rightarrow> ('p \<Rightarrow> 'p \<Rightarrow> bool) \<Rightarrow> int \<Rightarrow> int
   \<Rightarrow> int option" where
  "find_key busybits keyps k_hashes chns keyp eq key_hash capacity =
     (let start = loop key_hash capacity
      in find_key_loop busybits keyps k_hashes chns keyp eq key_hash capacity start 0)"

function find_key_remove_chain_loop ::
  "int list \<Rightarrow> 'p list \<Rightarrow> int list \<Rightarrow> int list \<Rightarrow> 'p \<Rightarrow> ('p \<Rightarrow> 'p \<Rightarrow> bool) \<Rightarrow> int \<Rightarrow> int
   \<Rightarrow> 'p \<Rightarrow> int \<Rightarrow> int \<Rightarrow> (int \<times> int list \<times> int list \<times> 'p) option" where
  "find_key_remove_chain_loop busybits keyps k_hashes chns keyp eq key_hash capacity keyp_out
     start i =
     (if i < capacity then do {
        let index = loop (start + i) capacity;
        bb \<leftarrow> rd busybits index;
        kh \<leftarrow> rd k_hashes index;
        chn \<leftarrow> rd chns index;
        kp \<leftarrow> rd keyps index;
        if bb \<noteq> 0 \<and> kh = key_hash \<and> eq kp keyp then do {
          busybits' \<leftarrow> wr busybits index 0;
          out \<leftarrow> rd keyps index;
          Some (index, busybits', chns, out)
        } else do {
          chns' \<leftarrow> wr chns index (chn - 1);
          find_key_remove_chain_loop busybits keyps k_hashes chns' keyp eq key_hash capacity
            keyp_out start (i + 1)
        }
      } else Some (- 1, busybits, chns, keyp_out))"
  by pat_completeness auto
termination
  by (relation "measure (\<lambda>(_, _, _, _, _, _, _, capacity, _, _, i). nat (capacity - i))") auto

definition find_key_remove_chain ::
  "int list \<Rightarrow> 'p list \<Rightarrow> int list \<Rightarrow> int list \<Rightarrow> 'p \<Rightarrow> ('p \<Rightarrow> 'p \<Rightarrow> bool) \<Rightarrow> int \<Rightarrow> int
   \<Rightarrow> 'p \<Rightarrow> (int \<times> int list \<times> int list \<times> 'p) option" where
  "find_key_remove_chain busybits keyps k_hashes chns keyp eq key_hash capacity keyp_out =
     (let start = loop key_hash capacity
      in find_key_remove_chain_loop busybits keyps k_hashes chns keyp eq key_hash capacity
           keyp_out start 0)"

function find_empty_loop ::
  "int list \<Rightarrow> int list \<Rightarrow> int \<Rightarrow> int \<Rightarrow> int \<Rightarrow> (int \<times> int list) option" where
  "find_empty_loop busybits chns start capacity i =
     (if i < capacity then do {
        let index = loop (start + i) capacity;
        bb \<leftarrow> rd busybits index;
        if 0 = bb then Some (index, chns)
        else do {
          chn \<leftarrow> rd chns index;
          chns' \<leftarrow> wr chns index (chn + 1);
          find_empty_loop busybits chns' start capacity (i + 1)
        }
      } else Some (- 1, chns))"
  by pat_completeness auto
termination
  by (relation "measure (\<lambda>(_, _, _, capacity, i). nat (capacity - i))") auto

definition find_empty :: "int list \<Rightarrow> int list \<Rightarrow> int \<Rightarrow> int \<Rightarrow> (int \<times> int list) option" where
  "find_empty busybits chns start capacity = find_empty_loop busybits chns start capacity 0"

subsection \<open>The operations\<close>

function map_impl_init_loop :: "int list \<Rightarrow> int list \<Rightarrow> int \<Rightarrow> int \<Rightarrow> (int list \<times> int list) option" where
  "map_impl_init_loop busybits chns capacity i =
     (if i < capacity then do {
        busybits' \<leftarrow> wr busybits i 0;
        chns' \<leftarrow> wr chns i 0;
        map_impl_init_loop busybits' chns' capacity (i + 1)
      } else Some (busybits, chns))"
  by pat_completeness auto
termination
  by (relation "measure (\<lambda>(_, _, capacity, i). nat (capacity - i))") auto

definition map_impl_init :: "int list \<Rightarrow> int list \<Rightarrow> int \<Rightarrow> (int list \<times> int list) option" where
  "map_impl_init busybits chns capacity = map_impl_init_loop busybits chns capacity 0"

text \<open>The result is the returned flag and the value left in \<open>*value\<close>.\<close>

definition map_impl_get ::
  "int list \<Rightarrow> 'p list \<Rightarrow> int list \<Rightarrow> int list \<Rightarrow> int list \<Rightarrow> 'p \<Rightarrow> ('p \<Rightarrow> 'p \<Rightarrow> bool) \<Rightarrow> int \<Rightarrow> int
   \<Rightarrow> int \<Rightarrow> (int \<times> int) option" where
  "map_impl_get busybits keyps k_hashes chns values keyp eq hash value capacity = do {
     index \<leftarrow> find_key busybits keyps k_hashes chns keyp eq hash capacity;
     if - 1 = index then Some (0, value)
     else do {
       v \<leftarrow> rd values index;
       Some (1, v)
     }
   }"

definition map_impl_put ::
  "int list \<Rightarrow> 'p list \<Rightarrow> int list \<Rightarrow> int list \<Rightarrow> int list \<Rightarrow> 'p \<Rightarrow> int \<Rightarrow> int \<Rightarrow> int
   \<Rightarrow> (int list \<times> 'p list \<times> int list \<times> int list \<times> int list) option" where
  "map_impl_put busybits keyps k_hashes chns values keyp hash value capacity = do {
     let start = loop hash capacity;
     (index, chns') \<leftarrow> find_empty busybits chns start capacity;
     busybits' \<leftarrow> wr busybits index 1;
     keyps' \<leftarrow> wr keyps index keyp;
     k_hashes' \<leftarrow> wr k_hashes index hash;
     values' \<leftarrow> wr values index value;
     Some (busybits', keyps', k_hashes', chns', values')
   }"

definition map_impl_erase ::
  "int list \<Rightarrow> 'p list \<Rightarrow> int list \<Rightarrow> int list \<Rightarrow> 'p \<Rightarrow> ('p \<Rightarrow> 'p \<Rightarrow> bool) \<Rightarrow> int \<Rightarrow> int
   \<Rightarrow> 'p \<Rightarrow> (int list \<times> int list \<times> 'p) option" where
  "map_impl_erase busybits keyps k_hashes chns keyp eq hash capacity keyp_out = do {
     (_, busybits', chns', out) \<leftarrow>
       find_key_remove_chain busybits keyps k_hashes chns keyp eq hash capacity keyp_out;
     Some (busybits', chns', out)
   }"

function map_impl_size_loop :: "int list \<Rightarrow> int \<Rightarrow> int \<Rightarrow> int \<Rightarrow> int option" where
  "map_impl_size_loop busybits capacity s i =
     (if i < capacity then do {
        bb \<leftarrow> rd busybits i;
        map_impl_size_loop busybits capacity (if bb \<noteq> 0 then s + 1 else s) (i + 1)
      } else Some s)"
  by pat_completeness auto
termination
  by (relation "measure (\<lambda>(_, capacity, _, i). nat (capacity - i))") auto

definition map_impl_size :: "int list \<Rightarrow> int \<Rightarrow> int option" where
  "map_impl_size busybits capacity = map_impl_size_loop busybits capacity 0 0"

declare find_key_loop.simps [simp del] find_key_remove_chain_loop.simps [simp del]
  find_empty_loop.simps [simp del] map_impl_init_loop.simps [simp del]
  map_impl_size_loop.simps [simp del]

section \<open>Cell numbers: the masked arithmetic is reduction modulo the capacity\<close>

text \<open>
  Capacities the table is meant for: powers of two below \<open>INT_MAX / 2\<close>, the bound that the
  contract of \<open>loop\<close> asks for.
\<close>

definition capacity_ok :: "nat \<Rightarrow> bool" where
  "capacity_ok c \<longleftrightarrow> (\<exists>n<30. c = 2 ^ n)"

lemma capacity_ok_pos [simp]: "capacity_ok c \<Longrightarrow> 0 < c"
  by (auto simp: capacity_ok_def)

lemma and_pow2_minus_1: "k AND (2 ^ n - 1) = k mod (2 ^ n :: int)"
  by (simp add: take_bit_eq_mask [symmetric] mask_eq_exp_minus_1 [symmetric] take_bit_eq_mod)

lemma loop_pow2: "loop k (2 ^ n) = k mod 2 ^ n"
  by (simp add: loop_def Let_def and_pow2_minus_1)

lemma loop_ok: "capacity_ok c \<Longrightarrow> loop k (int c) = k mod int c"
  by (auto simp: capacity_ok_def loop_pow2)

lemma loop_fp_mod: "0 < c \<Longrightarrow> loop_fp k c = k mod c"
proof -
  assume "0 < c"
  then have "0 \<le> k smod c + c"
    using smod_int_range [of c k] by (auto simp: )
  then have "loop_fp k c = (k smod c + c) mod c"
    using \<open>0 < c\<close> by (simp add: loop_fp_def smod_mod_positive)
  then show ?thesis
    by (simp add: signed_modulo_int_eq_modulo_int)
qed

lemma loop_nat: "capacity_ok c \<Longrightarrow> loop (int x) (int c) = int (x mod c)"
  by (simp add: loop_ok zmod_int)


section \<open>The table invariant and the map it represents\<close>

text \<open>The home cell of a hash, and the keys whose probe path runs over a cell.\<close>

definition home :: "nat \<Rightarrow> int \<Rightarrow> nat" where
  "home c h = nat (h mod int c)"

definition crosses :: "nat \<Rightarrow> int list \<Rightarrow> int list \<Rightarrow> nat \<Rightarrow> nat \<Rightarrow> bool" where
  "crosses c bbs khs i j \<longleftrightarrow>
     bbs ! j \<noteq> 0 \<and> cdist c (home c (khs ! j)) i < cdist c (home c (khs ! j)) j"

definition chain_len :: "nat \<Rightarrow> int list \<Rightarrow> int list \<Rightarrow> nat \<Rightarrow> nat" where
  "chain_len c bbs khs i = length (filter (crosses c bbs khs i) [0..<c])"

definition map_impl_inv ::
  "('p \<Rightarrow> 'k) \<Rightarrow> ('k \<Rightarrow> int) \<Rightarrow> nat \<Rightarrow> int list \<Rightarrow> 'p list \<Rightarrow> int list \<Rightarrow> int list \<Rightarrow> int list \<Rightarrow> bool"
  where
  "map_impl_inv key hash c bbs kps khs chns vals \<longleftrightarrow>
     capacity_ok c \<and>
     length bbs = c \<and> length kps = c \<and> length khs = c \<and> length chns = c \<and> length vals = c \<and>
     (\<forall>i<c. bbs ! i \<noteq> 0 \<longrightarrow> khs ! i = hash (key (kps ! i))) \<and>
     (\<forall>i<c. \<forall>j<c. bbs ! i \<noteq> 0 \<and> bbs ! j \<noteq> 0 \<and> key (kps ! i) = key (kps ! j) \<longrightarrow> i = j) \<and>
     (\<forall>i<c. chns ! i = int (chain_len c bbs khs i))"

definition map_impl_abs ::
  "('p \<Rightarrow> 'k) \<Rightarrow> nat \<Rightarrow> int list \<Rightarrow> 'p list \<Rightarrow> int list \<Rightarrow> 'k \<rightharpoonup> int" where
  "map_impl_abs key c bbs kps vals =
     map_of (map (\<lambda>i. (key (kps ! i), vals ! i)) (filter (\<lambda>i. bbs ! i \<noteq> 0) [0..<c]))"

text \<open>The stored pairs of a key pointer and a value.\<close>

definition map_impl_entries :: "nat \<Rightarrow> int list \<Rightarrow> 'p list \<Rightarrow> int list \<Rightarrow> ('p \<times> int) set" where
  "map_impl_entries c bbs kps vals = set (map (\<lambda>i. (kps ! i, vals ! i)) (filter (\<lambda>i. bbs ! i \<noteq> 0) [0..<c]))"

lemma in_map_impl_entries:
  "(q, v) \<in> map_impl_entries c bbs kps vals \<longleftrightarrow> (\<exists>i<c. bbs ! i \<noteq> 0 \<and> kps ! i = q \<and> vals ! i = v)"
  by (auto simp: map_impl_entries_def)

lemma home_lt [simp]: "0 < c \<Longrightarrow> home c h < c"
  by (simp add: home_def nat_less_iff)

lemma loop_home: "capacity_ok c \<Longrightarrow> loop h (int c) = int (home c h)"
  by (simp add: loop_ok home_def)

lemma map_impl_invD:
  assumes "map_impl_inv key hash c bbs kps khs chns vals"
  shows "capacity_ok c" "length bbs = c" "length kps = c" "length khs = c" "length chns = c"
    "length vals = c"
    "\<And>i. i < c \<Longrightarrow> bbs ! i \<noteq> 0 \<Longrightarrow> khs ! i = hash (key (kps ! i))"
    "\<And>i j. i < c \<Longrightarrow> j < c \<Longrightarrow> bbs ! i \<noteq> 0 \<Longrightarrow> bbs ! j \<noteq> 0 \<Longrightarrow>
       key (kps ! i) = key (kps ! j) \<Longrightarrow> i = j"
    "\<And>i. i < c \<Longrightarrow> chns ! i = int (chain_len c bbs khs i)"
  using assms by (simp_all add: map_impl_inv_def)

lemma map_impl_abs_Some:
  assumes "map_impl_inv key hash c bbs kps khs chns vals"
  shows "map_impl_abs key c bbs kps vals k = Some v \<longleftrightarrow>
    (\<exists>i<c. bbs ! i \<noteq> 0 \<and> key (kps ! i) = k \<and> vals ! i = v)"
proof -
  let ?is = "filter (\<lambda>i. bbs ! i \<noteq> 0) [0..<c]"
  have "inj_on (\<lambda>i. key (kps ! i)) (set ?is)"
    using map_impl_invD(8) [OF assms] by (auto simp: inj_on_def)
  then have "distinct (map fst (map (\<lambda>i. (key (kps ! i), vals ! i)) ?is))"
    by (simp add: distinct_map comp_def)
  then show ?thesis
    by (auto simp: map_impl_abs_def)
qed

lemma map_impl_abs_None:
  "map_impl_abs key c bbs kps vals k = None \<longleftrightarrow> (\<forall>i<c. bbs ! i \<noteq> 0 \<longrightarrow> key (kps ! i) \<noteq> k)"
  by (force simp: map_impl_abs_def map_of_eq_None_iff)

lemma map_impl_abs_entries:
  assumes "map_impl_inv key hash c bbs kps khs chns vals"
  shows "map_impl_abs key c bbs kps vals k = Some v \<longleftrightarrow>
    (\<exists>q. (q, v) \<in> map_impl_entries c bbs kps vals \<and> key q = k)"
  unfolding map_impl_abs_Some [OF assms] in_map_impl_entries by auto

lemma map_impl_entries_inj:
  assumes "map_impl_inv key hash c bbs kps khs chns vals"
    and "(q, v) \<in> map_impl_entries c bbs kps vals" "(q', v') \<in> map_impl_entries c bbs kps vals"
    and "key q = key q'"
  shows "q = q' \<and> v = v'"
  using assms(2-4) map_impl_invD(8) [OF assms(1)] unfolding in_map_impl_entries by metis

lemma finite_map_impl_entries [simp]: "finite (map_impl_entries c bbs kps vals)"
  by (simp add: map_impl_entries_def)

lemma card_map_impl_entries:
  assumes "map_impl_inv key hash c bbs kps khs chns vals"
  shows "card (map_impl_entries c bbs kps vals) = length (filter (\<lambda>i. bbs ! i \<noteq> 0) [0..<c])"
proof -
  let ?is = "filter (\<lambda>i. bbs ! i \<noteq> 0) [0..<c]"
  have "inj_on (\<lambda>i. (kps ! i, vals ! i)) (set ?is)"
    using map_impl_invD(8) [OF assms] by (auto simp: inj_on_def)
  then have "distinct (map (\<lambda>i. (kps ! i, vals ! i)) ?is)"
    by (simp add: distinct_map)
  then show ?thesis
    unfolding map_impl_entries_def by (simp only: distinct_card length_map)
qed

lemma free_cell_iff:
  assumes "map_impl_inv key hash c bbs kps khs chns vals"
  shows "card (map_impl_entries c bbs kps vals) < c \<longleftrightarrow> (\<exists>j<c. bbs ! j = 0)"
  unfolding card_map_impl_entries [OF assms]
  using length_filter_less [of _ "[0..<c]" "\<lambda>i. bbs ! i \<noteq> 0"] filter_True [of "[0..<c]" "\<lambda>i. bbs ! i \<noteq> 0"]
  by (metis atLeastLessThan_iff atLeast_upt diff_zero length_upt less_irrefl_nat set_upt zero_le)

text \<open>The table only depends on what the stored key pointers point to.\<close>

lemma map_impl_inv_frame:
  assumes "map_impl_inv key hash c bbs kps khs chns vals"
    and "\<And>q v. (q, v) \<in> map_impl_entries c bbs kps vals \<Longrightarrow> key' q = key q"
  shows "map_impl_inv key' hash c bbs kps khs chns vals"
proof -
  have "key' (kps ! i) = key (kps ! i)" if "i < c" "bbs ! i \<noteq> 0" for i
    using assms(2) [of "kps ! i" "vals ! i"] that by (auto simp: in_map_impl_entries)
  then show ?thesis
    using assms(1) unfolding map_impl_inv_def by metis
qed

section \<open>Searching\<close>

text \<open>
  A stored key is found: on the way from its home cell every cell is occupied by another key
  of the same hash or is crossed by the chain of the key, so the search never stops early.
\<close>

lemma chain_len_crossed:
  assumes "j < c" "bbs ! j \<noteq> 0" "cdist c (home c (khs ! j)) i < cdist c (home c (khs ! j)) j"
  shows "0 < chain_len c bbs khs i"
  unfolding chain_len_def
  by (rule length_filter_pos [of j]) (use assms in \<open>auto simp: crosses_def\<close>)

lemma find_key_loop_found:
  assumes inv: "map_impl_inv key hash c bbs kps khs chns vals"
    and eq: "\<And>p q. eq p q \<longleftrightarrow> key p = key q"
    and j: "j < c" "bbs ! j \<noteq> 0" "key (kps ! j) = key keyp"
    and s: "s = home c (hash (key keyp))"
    and i: "i \<le> cdist c s j"
  shows "find_key_loop bbs kps khs chns keyp eq (hash (key keyp)) (int c) (int s) (int i)
    = Some (int j)"
  using i
proof (induction rule: inc_induct)
  case base
  note [simp] = map_impl_invD(1-6) [OF inv]
  have "0 < c" using j by simp
  have "s < c" using \<open>0 < c\<close> s by simp
  have "loop (int s + int (cdist c s j)) (int c) = int j"
    using loop_nat [of c "s + cdist c s j"] probe_cdist [OF \<open>s < c\<close> j(1)] by simp
  then show ?case
    using j eq map_impl_invD(7) [OF inv j(1,2)] \<open>0 < c\<close>
    by (subst find_key_loop.simps) simp
next
  case (step n)
  note [simp] = map_impl_invD(1-6) [OF inv]
  have "0 < c" using j by simp
  have "s < c" using \<open>0 < c\<close> s by simp
  have "n < c" using step(2) cdist_lt [OF \<open>0 < c\<close>, of s j] by linarith
  let ?x = "(s + n) mod c"
  have x: "?x < c" using \<open>0 < c\<close> by simp
  have d: "cdist c s ?x = n" using cdist_probe \<open>s < c\<close> \<open>n < c\<close> by simp
  then have "?x \<noteq> j" using step(2) by auto
  then have ne: "bbs ! ?x \<noteq> 0 \<Longrightarrow> key (kps ! ?x) \<noteq> key keyp"
    using map_impl_invD(8) [OF inv x j(1) _ j(2)] j(3) by auto
  have "khs ! j = hash (key keyp)"
    using map_impl_invD(7) [OF inv j(1,2)] j(3) by simp
  then have "0 < chain_len c bbs khs ?x"
    using chain_len_crossed [OF j(1,2)] d s step(2) by metis
  then have chn: "chns ! ?x \<noteq> 0"
    using map_impl_invD(9) [OF inv x] by simp
  have "loop (int s + int n) (int c) = int ?x"
    using loop_nat [of c "s + n"] by simp
  then show ?case
    using step(3) ne eq [of "kps ! ?x" keyp] chn x \<open>n < c\<close>
    by (subst find_key_loop.simps) (auto simp: add.commute)
qed

lemma find_key_loop_absent:
  assumes inv: "map_impl_inv key hash c bbs kps khs chns vals"
    and eq: "\<And>p q. eq p q \<longleftrightarrow> key p = key q"
    and absent: "\<forall>i<c. bbs ! i \<noteq> 0 \<longrightarrow> key (kps ! i) \<noteq> key keyp"
    and i: "i \<le> c"
  shows "find_key_loop bbs kps khs chns keyp eq h (int c) (int s) (int i) = Some (- 1)"
  using i
proof (induction rule: inc_induct)
  case base
  show ?case by (subst find_key_loop.simps) simp
next
  case (step n)
  note [simp] = map_impl_invD(1-6) [OF inv]
  have x: "(s + n) mod c < c" using step by simp
  have "loop (int s + int n) (int c) = int ((s + n) mod c)"
    using loop_nat [of c "s + n"] by simp
  then show ?case
    using step(2,3) absent eq [of "kps ! ((s + n) mod c)" keyp] x
    by (subst find_key_loop.simps) (auto simp: add.commute)
qed

section \<open>Walking a chain\<close>

text \<open>
  Insertion and removal change by a constant the counters of the cells at distances
  \<open>i, \<dots>, e - 1\<close> from the home cell \<open>s\<close>.
\<close>

definition bump :: "nat \<Rightarrow> nat \<Rightarrow> nat \<Rightarrow> nat \<Rightarrow> int \<Rightarrow> int list \<Rightarrow> int list" where
  "bump c s i e d chns =
     map (\<lambda>x. chns ! x + (if i \<le> cdist c s x \<and> cdist c s x < e then d else 0)) [0..<c]"

lemma length_bump [simp]: "length (bump c s i e d chns) = c"
  by (simp add: bump_def)

lemma nth_bump [simp]:
  "x < c \<Longrightarrow> bump c s i e d chns ! x =
     chns ! x + (if i \<le> cdist c s x \<and> cdist c s x < e then d else 0)"
  by (simp add: bump_def)

lemma bump_none: "length chns = c \<Longrightarrow> bump c s e e d chns = chns"
  by (auto intro: nth_equalityI)

lemma bump_step:
  assumes "s < c" "n < e" "e \<le> c" "length chns = c"
  shows "bump c s (Suc n) e d (chns[(s + n) mod c := chns ! ((s + n) mod c) + d])
    = bump c s n e d chns"
proof (rule nth_equalityI)
  fix x assume "x < length (bump c s (Suc n) e d (chns[(s + n) mod c := chns ! ((s + n) mod c) + d]))"
  then have x: "x < c" by simp
  have "cdist c s x = n \<longleftrightarrow> x = (s + n) mod c"
    using cdist_probe [of s c n] probe_cdist [of s c x] assms x by auto
  then show "bump c s (Suc n) e d (chns[(s + n) mod c := chns ! ((s + n) mod c) + d]) ! x
    = bump c s n e d chns ! x"
    using x assms by (auto simp: nth_list_update)
qed simp

lemma find_empty_loop_spec:
  assumes c: "capacity_ok c" "length bbs = c" "s < c"
    and e: "e < c" "bbs ! ((s + e) mod c) = 0" "\<And>n. n < e \<Longrightarrow> bbs ! ((s + n) mod c) \<noteq> 0"
    and i: "i \<le> e" and chns: "length chns = c"
  shows "find_empty_loop bbs chns (int s) (int c) (int i)
    = Some (int ((s + e) mod c), bump c s i e 1 chns)"
  using i chns
proof (induction arbitrary: chns rule: inc_induct)
  case base
  then show ?case
    using c e loop_nat [OF c(1), of "s + e"]
    by (subst find_empty_loop.simps) (simp add: bump_none)
next
  case (step n)
  have x: "(s + n) mod c < c" using c by simp
  have "loop (int s + int n) (int c) = int ((s + n) mod c)"
    using loop_nat [OF c(1), of "s + n"] by simp
  then show ?case
    using step.IH [of "chns[(s + n) mod c := chns ! ((s + n) mod c) + 1]"] step.prems step.hyps e c x
    by (subst find_empty_loop.simps) (simp add: add.commute bump_step [simplified add.commute])
qed

lemma find_empty_loop_full:
  assumes c: "capacity_ok c" "length bbs = c" "s < c"
    and full: "\<And>i. i < c \<Longrightarrow> bbs ! i \<noteq> 0"
    and i: "i \<le> c" and chns: "length chns = c"
  shows "find_empty_loop bbs chns (int s) (int c) (int i) = Some (- 1, bump c s i c 1 chns)"
  using i chns
proof (induction arbitrary: chns rule: inc_induct)
  case base
  then show ?case by (subst find_empty_loop.simps) (simp add: bump_none)
next
  case (step n)
  have x: "(s + n) mod c < c" using c by simp
  have "loop (int s + int n) (int c) = int ((s + n) mod c)"
    using loop_nat [OF c(1), of "s + n"] by simp
  then show ?case
    using step.IH [of "chns[(s + n) mod c := chns ! ((s + n) mod c) + 1]"] step.prems step.hyps full c x
    by (subst find_empty_loop.simps) (simp add: add.commute bump_step [simplified add.commute])
qed

lemma find_key_remove_chain_loop_found:
  assumes c: "capacity_ok c" "length bbs = c" "length kps = c" "length khs = c" "s < c"
    and e: "e < c" "bbs ! ((s + e) mod c) \<noteq> 0" "khs ! ((s + e) mod c) = h"
      "eq (kps ! ((s + e) mod c)) keyp"
    and before: "\<And>n. n < e \<Longrightarrow> \<not> (bbs ! ((s + n) mod c) \<noteq> 0 \<and> eq (kps ! ((s + n) mod c)) keyp)"
    and i: "i \<le> e" and chns: "length chns = c"
  shows "find_key_remove_chain_loop bbs kps khs chns keyp eq h (int c) out (int s) (int i)
    = Some (int ((s + e) mod c), bbs[(s + e) mod c := 0], bump c s i e (- 1) chns,
        kps ! ((s + e) mod c))"
  using i chns
proof (induction arbitrary: chns rule: inc_induct)
  case base
  then show ?case
    using c e loop_nat [OF c(1), of "s + e"]
    by (subst find_key_remove_chain_loop.simps) (simp add: bump_none)
next
  case (step n)
  have x: "(s + n) mod c < c" using c by simp
  have "loop (int s + int n) (int c) = int ((s + n) mod c)"
    using loop_nat [OF c(1), of "s + n"] by simp
  then show ?case
    using step.IH [of "chns[(s + n) mod c := chns ! ((s + n) mod c) + (- 1)]"] step.prems step.hyps
      before [OF step.hyps(2)] e c x
      bump_step [OF c(5) step.hyps(2) _ step.prems, of "- 1"]
    by (subst find_key_remove_chain_loop.simps) (auto simp: add.commute Let_def)
qed

lemma find_key_remove_chain_loop_absent:
  assumes c: "capacity_ok c" "length bbs = c" "length kps = c" "length khs = c" "s < c"
    and absent: "\<And>i. i < c \<Longrightarrow> \<not> (bbs ! i \<noteq> 0 \<and> khs ! i = h \<and> eq (kps ! i) keyp)"
    and i: "i \<le> c" and chns: "length chns = c"
  shows "find_key_remove_chain_loop bbs kps khs chns keyp eq h (int c) out (int s) (int i)
    = Some (- 1, bbs, bump c s i c (- 1) chns, out)"
  using i chns
proof (induction arbitrary: chns rule: inc_induct)
  case base
  then show ?case by (subst find_key_remove_chain_loop.simps) (simp add: bump_none)
next
  case (step n)
  have x: "(s + n) mod c < c" using c by simp
  have "loop (int s + int n) (int c) = int ((s + n) mod c)"
    using loop_nat [OF c(1), of "s + n"] by simp
  then show ?case
    using step.IH [of "chns[(s + n) mod c := chns ! ((s + n) mod c) + (- 1)]"] step.prems step.hyps
      absent [OF x] c x
      bump_step [OF c(5) step.hyps(2) _ step.prems, of "- 1"]
    by (subst find_key_remove_chain_loop.simps) (auto simp: add.commute Let_def)
qed

section \<open>Chain counters after insertion and removal\<close>

lemma chain_len_insert:
  assumes "length bbs = c" "length khs = c" "j < c" "bbs ! j = 0"
  shows "chain_len c (bbs[j := 1]) (khs[j := h]) i
    = chain_len c bbs khs i + (if cdist c (home c h) i < cdist c (home c h) j then 1 else 0)"
proof -
  have same: "crosses c bbs khs i x = crosses c (bbs[j := 1]) (khs[j := h]) i x" if "x \<noteq> j" for x
    using that by (simp add: crosses_def)
  have old: "\<not> crosses c bbs khs i j" using assms by (simp add: crosses_def)
  have new: "crosses c (bbs[j := 1]) (khs[j := h]) i j
    \<longleftrightarrow> cdist c (home c h) i < cdist c (home c h) j"
    using assms by (simp add: crosses_def)
  show ?thesis
  proof (cases "cdist c (home c h) i < cdist c (home c h) j")
    case True
    then show ?thesis
      unfolding chain_len_def
      using length_filter_add_one [of "[0..<c]" j "crosses c bbs khs i" "crosses c (bbs[j := 1]) (khs[j := h]) i"]
        old new same assms(3)
      by simp
  next
    case False
    then have "crosses c (bbs[j := 1]) (khs[j := h]) i x = crosses c bbs khs i x" for x
      using same old new by (cases "x = j") auto
    then show ?thesis
      using False unfolding chain_len_def by (simp cong: filter_cong)
  qed
qed

lemma chain_len_remove:
  assumes "length bbs = c" "j < c" "bbs ! j \<noteq> 0"
  shows "chain_len c (bbs[j := 0]) khs i
      + (if cdist c (home c (khs ! j)) i < cdist c (home c (khs ! j)) j then 1 else 0)
    = chain_len c bbs khs i"
proof -
  have same: "crosses c (bbs[j := 0]) khs i x = crosses c bbs khs i x" if "x \<noteq> j" for x
    using that by (simp add: crosses_def)
  have old: "\<not> crosses c (bbs[j := 0]) khs i j" using assms by (simp add: crosses_def)
  have new: "crosses c bbs khs i j
    \<longleftrightarrow> cdist c (home c (khs ! j)) i < cdist c (home c (khs ! j)) j"
    using assms by (simp add: crosses_def)
  show ?thesis
  proof (cases "cdist c (home c (khs ! j)) i < cdist c (home c (khs ! j)) j")
    case True
    then show ?thesis
      unfolding chain_len_def
      using length_filter_add_one [of "[0..<c]" j "crosses c (bbs[j := 0]) khs i" "crosses c bbs khs i"]
        old new same assms(2)
      by simp
  next
    case False
    then have "crosses c (bbs[j := 0]) khs i x = crosses c bbs khs i x" for x
      using same old new by (cases "x = j") auto
    then show ?thesis
      using False unfolding chain_len_def by (simp cong: filter_cong)
  qed
qed

section \<open>The operations implement a finite map\<close>

lemma map_impl_get_correct:
  assumes inv: "map_impl_inv key hash c bbs kps khs chns vals"
    and eq: "\<And>p q. eq p q \<longleftrightarrow> key p = key q"
  shows "map_impl_get bbs kps khs chns vals keyp eq (hash (key keyp)) v (int c)
    = Some (case map_impl_abs key c bbs kps vals (key keyp) of None \<Rightarrow> (0, v) | Some x \<Rightarrow> (1, x))"
proof (cases "map_impl_abs key c bbs kps vals (key keyp)")
  case None
  then have "\<forall>i<c. bbs ! i \<noteq> 0 \<longrightarrow> key (kps ! i) \<noteq> key keyp"
    by (simp add: map_impl_abs_None)
  from find_key_loop_absent [OF inv eq this, of 0] None show ?thesis
    using map_impl_invD(1) [OF inv] by (simp add: map_impl_get_def find_key_def loop_home)
next
  case (Some x)
  then obtain j where j: "j < c" "bbs ! j \<noteq> 0" "key (kps ! j) = key keyp" "vals ! j = x"
    using map_impl_abs_Some [OF inv] by blast
  from find_key_loop_found [OF inv eq j(1-3) refl, of 0] Some show ?thesis
    using map_impl_invD(1,6) [OF inv] j by (simp add: map_impl_get_def find_key_def loop_home)
qed

lemma first_empty:
  assumes "s < c" "j < c" "bbs ! j = (0::int)"
  obtains e where "e < c" "bbs ! ((s + e) mod c) = 0" "\<And>n. n < e \<Longrightarrow> bbs ! ((s + n) mod c) \<noteq> 0"
proof -
  let ?P = "\<lambda>e. bbs ! ((s + e) mod c) = 0"
  have P: "?P (cdist c s j)" using probe_cdist assms by simp
  have "(LEAST e. ?P e) \<le> cdist c s j" by (rule Least_le [of ?P, OF P])
  then have "(LEAST e. ?P e) < c"
    using cdist_lt [of c s j] assms by linarith
  then show thesis
    using that [of "LEAST e. ?P e"] LeastI [of ?P, OF P] not_less_Least [of _ ?P] by blast
qed

lemma updated_cell_ex:
  assumes "x < c" "length bbs = c" "length kps = c" "length vals = c" "bbs ! x = 0"
  shows "(\<exists>i<c. bbs[x := 1] ! i \<noteq> (0::int) \<and> key (kps[x := p] ! i) = k \<and> vals[x := v] ! i = w) \<longleftrightarrow>
    (key p = k \<and> v = w) \<or> (\<exists>i<c. bbs ! i \<noteq> 0 \<and> key (kps ! i) = k \<and> vals ! i = w)"
  (is "?l = ?r")
proof
  assume ?l
  then show ?r using assms by (auto simp: nth_list_update split: if_splits)
next
  assume ?r
  then show ?l
  proof
    assume "key p = k \<and> v = w"
    then show ?l using assms by (intro exI [of _ x]) simp
  next
    assume "\<exists>i<c. bbs ! i \<noteq> 0 \<and> key (kps ! i) = k \<and> vals ! i = w"
    then obtain i where "i < c" "bbs ! i \<noteq> 0" "key (kps ! i) = k" "vals ! i = w" by blast
    moreover have "i \<noteq> x" using calculation(2) assms(5) by auto
    ultimately show ?l using assms by (intro exI [of _ i]) simp
  qed
qed

lemma cleared_cell_ex:
  assumes "j < length bbs"
  shows "(\<exists>i<length bbs. bbs[j := 0] ! i \<noteq> (0::int) \<and> key (kps ! i) = k \<and> vals ! i = w) \<longleftrightarrow>
    (\<exists>i<length bbs. i \<noteq> j \<and> bbs ! i \<noteq> 0 \<and> key (kps ! i) = k \<and> vals ! i = w)"
proof -
  have "bbs[j := 0] ! i \<noteq> 0 \<longleftrightarrow> i \<noteq> j \<and> bbs ! i \<noteq> 0" for i
    using assms by (cases "i = j") auto
  then show ?thesis by auto
qed

lemma map_impl_put_correct:
  assumes inv: "map_impl_inv key hash c bbs kps khs chns vals"
    and absent: "map_impl_abs key c bbs kps vals (key keyp) = None"
    and space: "j < c" "bbs ! j = 0"
  obtains bbs' kps' khs' chns' vals' where
    "map_impl_put bbs kps khs chns vals keyp (hash (key keyp)) v (int c)
      = Some (bbs', kps', khs', chns', vals')"
    "map_impl_inv key hash c bbs' kps' khs' chns' vals'"
    "map_impl_abs key c bbs' kps' vals' = (map_impl_abs key c bbs kps vals)(key keyp \<mapsto> v)"
    "map_impl_entries c bbs' kps' vals' = insert (keyp, v) (map_impl_entries c bbs kps vals)"
proof -
  note [simp] = map_impl_invD(1-6) [OF inv]
  let ?h = "hash (key keyp)"
  let ?s = "home c ?h"
  have s: "?s < c" using space by simp
  obtain e where e: "e < c" "bbs ! ((?s + e) mod c) = 0"
    "\<And>n. n < e \<Longrightarrow> bbs ! ((?s + n) mod c) \<noteq> 0"
    using first_empty [OF s space] by blast
  let ?x = "(?s + e) mod c"
  have x: "?x < c" using s by simp
  have d: "cdist c ?s ?x = e" using cdist_probe s e by simp
  let ?bbs = "bbs[?x := 1]" and ?kps = "kps[?x := keyp]" and ?khs = "khs[?x := ?h]"
    and ?vals = "vals[?x := v]" and ?chns = "bump c ?s 0 e 1 chns"
  have "find_empty_loop bbs chns (int ?s) (int c) 0 = Some (int ?x, ?chns)"
    using find_empty_loop_spec [of c bbs ?s e 0 chns] e s by simp
  then have "map_impl_put bbs kps khs chns vals keyp ?h v (int c)
    = Some (?bbs, ?kps, ?khs, ?chns, ?vals)"
    using x by (simp add: map_impl_put_def find_empty_def loop_home)
  moreover have "map_impl_inv key hash c ?bbs ?kps ?khs ?chns ?vals"
  proof -
    have "?chns ! i = int (chain_len c ?bbs ?khs i)" if "i < c" for i
      using that chain_len_insert [of bbs c khs ?x ?h i] map_impl_invD(9) [OF inv that] x d e(2) by simp
    moreover have "key (kps ! i) \<noteq> key keyp" if "i < c" "bbs ! i \<noteq> 0" for i
      using that absent by (simp add: map_impl_abs_None)
    ultimately show ?thesis
      using map_impl_invD(7,8) [OF inv]
      by (auto simp: map_impl_inv_def nth_list_update e(2)) metis
  qed
  moreover have "map_impl_abs key c ?bbs ?kps ?vals = (map_impl_abs key c bbs kps vals)(key keyp \<mapsto> v)"
  proof (rule map_eqI)
    fix k w
    have ne: "key (kps ! i) \<noteq> key keyp" if "i < c" "bbs ! i \<noteq> 0" for i
      using that absent by (simp add: map_impl_abs_None)
    have "(\<exists>i<c. ?bbs ! i \<noteq> 0 \<and> key (?kps ! i) = k \<and> ?vals ! i = w) \<longleftrightarrow>
      (if k = key keyp then w = v else \<exists>i<c. bbs ! i \<noteq> 0 \<and> key (kps ! i) = k \<and> vals ! i = w)"
      using updated_cell_ex [OF x, of bbs kps vals key keyp k v w] e(2) ne by auto
    then show "map_impl_abs key c ?bbs ?kps ?vals k = Some w
      \<longleftrightarrow> ((map_impl_abs key c bbs kps vals)(key keyp \<mapsto> v)) k = Some w"
      using map_impl_abs_Some [OF calculation(2)] map_impl_abs_Some [OF inv] by auto
  qed
  moreover have "map_impl_entries c ?bbs ?kps ?vals = insert (keyp, v) (map_impl_entries c bbs kps vals)"
    using updated_cell_ex [OF x, of bbs kps vals "\<lambda>q. q" keyp _ v] e(2)
    by (auto simp: in_map_impl_entries)
  ultimately show thesis by (rule that)
qed

lemma map_impl_erase_correct:
  assumes inv: "map_impl_inv key hash c bbs kps khs chns vals"
    and eq: "\<And>p q. eq p q \<longleftrightarrow> key p = key q"
    and j: "j < c" "bbs ! j \<noteq> 0" "key (kps ! j) = key keyp"
  obtains chns' where
    "map_impl_erase bbs kps khs chns keyp eq (hash (key keyp)) (int c) out
      = Some (bbs[j := 0], chns', kps ! j)"
    "map_impl_inv key hash c (bbs[j := 0]) kps khs chns' vals"
    "map_impl_abs key c (bbs[j := 0]) kps vals = (map_impl_abs key c bbs kps vals)(key keyp := None)"
    "map_impl_entries c (bbs[j := 0]) kps vals = map_impl_entries c bbs kps vals - {(kps ! j, vals ! j)}"
proof -
  note [simp] = map_impl_invD(1-6) [OF inv]
  let ?h = "hash (key keyp)"
  let ?s = "home c ?h"
  let ?e = "cdist c ?s j"
  have s: "?s < c" using j by simp
  have e: "?e < c" using j by simp
  have x: "(?s + ?e) mod c = j" by (rule probe_cdist [OF s j(1)])
  have h: "khs ! j = ?h" using map_impl_invD(7) [OF inv j(1,2)] j(3) by simp
  let ?chns = "bump c ?s 0 ?e (- 1) chns"
  have "\<not> (bbs ! ((?s + n) mod c) \<noteq> 0 \<and> eq (kps ! ((?s + n) mod c)) keyp)" if "n < ?e" for n
  proof -
    have "n < c" using that e by linarith
    then have "cdist c ?s ((?s + n) mod c) = n" using cdist_probe [OF s] by blast
    then have "(?s + n) mod c \<noteq> j" using that by auto
    then show ?thesis
      using map_impl_invD(8) [OF inv _ j(1), of "(?s + n) mod c"] j eq s
      by (metis mod_less_divisor not_less_zero not_gr_zero)
  qed
  then have "find_key_remove_chain_loop bbs kps khs chns keyp eq ?h (int c) out (int ?s) 0
    = Some (int j, bbs[j := 0], ?chns, kps ! j)"
    using find_key_remove_chain_loop_found [of c bbs kps khs ?s ?e ?h eq keyp 0 chns out] e s x h eq j
    by simp
  then have "map_impl_erase bbs kps khs chns keyp eq ?h (int c) out = Some (bbs[j := 0], ?chns, kps ! j)"
    by (simp add: map_impl_erase_def find_key_remove_chain_def loop_home)
  moreover have "map_impl_inv key hash c (bbs[j := 0]) kps khs ?chns vals"
  proof -
    have "?chns ! i = int (chain_len c (bbs[j := 0]) khs i)" if "i < c" for i
      using that chain_len_remove [of bbs c j khs i] map_impl_invD(9) [OF inv that] j h by auto
    moreover have nz: "bbs ! i \<noteq> 0" if "bbs[j := 0] ! i \<noteq> 0" for i
      using that j by (cases "i = j") auto
    ultimately show ?thesis
      unfolding map_impl_inv_def
      by (simp, intro conjI allI impI; blast intro: map_impl_invD(7,8) [OF inv] nz)
  qed
  moreover have "map_impl_abs key c (bbs[j := 0]) kps vals
    = (map_impl_abs key c bbs kps vals)(key keyp := None)"
  proof (rule map_eqI)
    fix k w
    have "(\<exists>i<c. bbs[j := 0] ! i \<noteq> 0 \<and> key (kps ! i) = k \<and> vals ! i = w) \<longleftrightarrow>
      k \<noteq> key keyp \<and> (\<exists>i<c. bbs ! i \<noteq> 0 \<and> key (kps ! i) = k \<and> vals ! i = w)"
      using cleared_cell_ex [of j bbs key kps k vals w] j map_impl_invD(2) [OF inv]
        map_impl_invD(8) [OF inv _ j(1) _ j(2)] by metis
    then show "map_impl_abs key c (bbs[j := 0]) kps vals k = Some w
      \<longleftrightarrow> ((map_impl_abs key c bbs kps vals)(key keyp := None)) k = Some w"
      using map_impl_abs_Some [OF calculation(2)] map_impl_abs_Some [OF inv] by auto
  qed
  moreover have "map_impl_entries c (bbs[j := 0]) kps vals
    = map_impl_entries c bbs kps vals - {(kps ! j, vals ! j)}"
  proof -
    have "(q, w) \<in> map_impl_entries c (bbs[j := 0]) kps vals \<longleftrightarrow>
      (q, w) \<in> map_impl_entries c bbs kps vals \<and> (q, w) \<noteq> (kps ! j, vals ! j)" for q w
      unfolding in_map_impl_entries prod.inject
      using cleared_cell_ex [of j bbs "\<lambda>q. q" kps q vals w] j map_impl_invD(2) [OF inv]
        map_impl_invD(8) [OF inv _ j(1) _ j(2)] by metis
    then show ?thesis by auto
  qed
  ultimately show thesis by (rule that)
qed

text \<open>
  Erasing a key that is not in the table decrements every counter: the contract's requirement
  that the key be present is needed.
\<close>

lemma map_impl_erase_absent:
  assumes inv: "map_impl_inv key hash c bbs kps khs chns vals"
    and eq: "\<And>p q. eq p q \<longleftrightarrow> key p = key q"
    and absent: "map_impl_abs key c bbs kps vals (key keyp) = None"
  shows "map_impl_erase bbs kps khs chns keyp eq h (int c) out = Some (bbs, map (\<lambda>x. x - 1) chns, out)"
proof -
  note [simp] = map_impl_invD(1-6) [OF inv]
  have "0 < c" by simp
  have "bump c (home c h) 0 c (- 1) chns = map (\<lambda>x. x - 1) chns"
    using \<open>0 < c\<close> by (auto intro: nth_equalityI)
  moreover have "\<not> (bbs ! i \<noteq> 0 \<and> khs ! i = h \<and> eq (kps ! i) keyp)" if "i < c" for i
    using absent that eq by (auto simp: map_impl_abs_None)
  ultimately show ?thesis
    using find_key_remove_chain_loop_absent [of c bbs kps khs "home c h" h eq keyp 0 chns out]
    by (simp add: map_impl_erase_def find_key_remove_chain_def loop_home)
qed

lemma map_impl_init_loop_spec:
  assumes "i \<le> c" "c \<le> length bbs" "c \<le> length chns"
  shows "map_impl_init_loop bbs chns (int c) (int i)
    = Some (take i bbs @ replicate (c - i) 0 @ drop c bbs,
            take i chns @ replicate (c - i) 0 @ drop c chns)"
  using assms
proof (induction arbitrary: bbs chns rule: inc_induct)
  case base
  then show ?case by (subst map_impl_init_loop.simps) simp
next
  case (step n)
  have upd: "take (Suc n) (xs[n := 0]) @ replicate (c - Suc n) 0 @ drop c (xs[n := 0])
    = take n xs @ replicate (c - n) 0 @ drop c xs" if "c \<le> length xs" for xs :: "int list"
    using that step.hyps
    by (simp add: take_Suc_conv_app_nth Suc_diff_Suc [symmetric])
  show ?case
    using step.IH [of "bbs[n := 0]" "chns[n := 0]"] step.prems step.hyps
    by (subst map_impl_init_loop.simps) (simp only: upd, simp add: add.commute)
qed

lemma map_impl_init_correct:
  assumes "length bbs = c" "length chns = c"
  shows "map_impl_init bbs chns (int c) = Some (replicate c 0, replicate c 0)"
  using map_impl_init_loop_spec [of 0 c bbs chns] assms by (simp add: map_impl_init_def)

lemma map_impl_inv_empty:
  assumes "capacity_ok c" "length kps = c" "length khs = c" "length vals = c"
  shows "map_impl_inv key hash c (replicate c 0) kps khs (replicate c 0) vals"
proof -
  have "chain_len c (replicate c 0) khs i = 0" for i
    by (auto simp: chain_len_def crosses_def filter_empty_conv)
  then show ?thesis
    using assms by (simp add: map_impl_inv_def)
qed

lemma map_impl_abs_empty: "map_impl_abs key c (replicate c 0) kps vals = Map.empty"
  by (rule ext) (simp add: map_impl_abs_None)

lemma map_impl_size_loop_spec:
  assumes "i \<le> c" "length bbs = c"
  shows "map_impl_size_loop bbs (int c) s (int i)
    = Some (s + int (length (filter (\<lambda>j. bbs ! j \<noteq> 0) [i..<c])))"
  using assms
proof (induction arbitrary: s rule: inc_induct)
  case base
  then show ?case by (subst map_impl_size_loop.simps) simp
next
  case (step n)
  then show ?case
    by (subst map_impl_size_loop.simps) (simp add: upt_rec [of n] add.commute)
qed

section \<open>Properties\<close>

lemma loop_masked: "loop k c AND (c - 1) = loop k c"
  by (simp add: loop_def Let_def and.assoc)

text \<open>
  The contract of \<open>loop\<close> equates it with the true remainder for every capacity. The masked
  implementation satisfies that contract exactly for the powers of two; for every other capacity it
  computes other cell numbers.
\<close>

lemma loop_contract_iff_power_of_two:
  assumes "0 < c"
  shows "(\<forall>k. loop k c = loop_fp k c) \<longleftrightarrow> (\<exists>n. c = 2 ^ n)"
proof
  assume "\<exists>n. c = 2 ^ n"
  then show "\<forall>k. loop k c = loop_fp k c" using assms by (auto simp: loop_pow2 loop_fp_mod)
next
  assume eq: "\<forall>k. loop k c = loop_fp k c"
  have cell: "j AND (c - 1) = j" if "0 \<le> j" "j < c" for j
    using loop_masked [of j c] eq loop_fp_mod [OF assms, of j] that by simp
  have "\<exists>n. 2 ^ n \<le> nat c \<and> nat c < 2 ^ (n + 1)"
    by (rule ex_power_ivl1) (use assms in auto)
  then obtain n where n: "2 ^ n \<le> c" "c < 2 ^ (n + 1)"
    using assms by (auto simp: le_nat_iff nat_less_iff)
  show "\<exists>n. c = 2 ^ n"
  proof (rule ccontr)
    assume no: "\<nexists>n. c = 2 ^ n"
    then have "c \<noteq> 2 ^ n" by blast
    then have c: "2 ^ n < c" using n(1) by linarith
    have "(c - 1) mod 2 ^ n = (2 ^ n - 1) AND (c - 1)"
      by (simp add: and_pow2_minus_1 [symmetric] and.commute)
    also have "\<dots> = 2 ^ n - 1" by (rule cell) (use c in auto)
    finally have "(c - 1) mod 2 ^ n = 2 ^ n - 1" .
    moreover have "(c - 1) mod 2 ^ n = (c - 1 - 2 ^ n) mod 2 ^ n" by (rule minus_mod_self2 [symmetric])
    moreover have "(c - 1 - 2 ^ n) mod 2 ^ n = c - 1 - 2 ^ n"
      by (rule mod_pos_pos_trivial) (use c n(2) in auto)
    ultimately have "c = 2 ^ n + 2 ^ n" by linarith
    then show False using n(2) by simp
  qed
qed

text \<open>
  A table that is full is not checked by \<open>map_impl_put\<close>: the search for a free cell returns
  -1 and the arrays are written at that index.
\<close>

lemma map_impl_put_full_goes_wrong:
  assumes inv: "map_impl_inv key hash c bbs kps khs chns vals"
    and full: "\<And>i. i < c \<Longrightarrow> bbs ! i \<noteq> 0"
  shows "map_impl_put bbs kps khs chns vals keyp h v (int c) = None"
  using find_empty_loop_full [of c bbs "home c h" 0 chns] map_impl_invD(1-6) [OF inv] full
  by (simp add: map_impl_put_def find_empty_def loop_home wr_out)

lemma one_cell_table: "map_impl_inv (\<lambda>p :: nat. p) int 1 [1] [7] [7] [0] [42]"
  by (auto simp: map_impl_inv_def capacity_ok_def chain_len_def crosses_def cdist_def intro: exI [of _ 0])

text \<open>
  Erasing a key that is not in the table returns normally but breaks the table: every chain
  counter is decremented, and the counters no longer say which probe paths cross a cell.
\<close>

lemma map_impl_erase_absent_breaks:
  assumes inv: "map_impl_inv key hash c bbs kps khs chns vals"
    and eq: "\<And>p q. eq p q \<longleftrightarrow> key p = key q"
    and absent: "map_impl_abs key c bbs kps vals (key keyp) = None"
  shows "\<exists>chns'. map_impl_erase bbs kps khs chns keyp eq h (int c) out = Some (bbs, chns', out) \<and>
    \<not> map_impl_inv key hash c bbs kps khs chns' vals"
proof -
  have c: "0 < c" "length chns = c" using map_impl_invD(1,5) [OF inv] by auto
  have "chns ! 0 = int (chain_len c bbs khs 0)" using inv c by (simp add: map_impl_inv_def)
  then have "map (\<lambda>x. x - 1) chns ! 0 \<noteq> int (chain_len c bbs khs 0)" using c by simp
  then have "\<not> map_impl_inv key hash c bbs kps khs (map (\<lambda>x. x - 1) chns) vals"
    using c(1) unfolding map_impl_inv_def by blast
  then show ?thesis using map_impl_erase_absent [OF inv eq absent] by blast
qed

text \<open>
  \<open>map_impl_size\<close>, which counts busy cells, returns the number of keys of the map that the
  table represents.
\<close>

lemma map_impl_size_counts:
  assumes inv: "map_impl_inv key hash c bbs kps khs chns vals"
  shows "map_impl_size bbs (int c) = Some (int (card (dom (map_impl_abs key c bbs kps vals))))"
proof -
  let ?is = "filter (\<lambda>i. bbs ! i \<noteq> 0) [0..<c]"
  have "dom (map_impl_abs key c bbs kps vals) = (\<lambda>i. key (kps ! i)) ` set ?is"
    by (simp add: map_impl_abs_def dom_map_of_conv_image_fst image_image)
  moreover have "inj_on (\<lambda>i. key (kps ! i)) (set ?is)"
    using map_impl_invD(8) [OF inv] by (auto simp: inj_on_def)
  ultimately have "card (dom (map_impl_abs key c bbs kps vals)) = length ?is"
    by (metis card_image distinct_card distinct_filter distinct_upt)
  then show ?thesis
    using map_impl_size_loop_spec [of 0 c bbs 0] map_impl_invD(2) [OF inv]
    by (simp add: map_impl_size_def)
qed

end
