(* ===== verification/HashMap.thy ===== *)
theory HashMap
  imports MapImpl
begin

text \<open>
  The map of \<open>dpdk-nfs/nf/lib/containers/map.c\<close>: a record of the five arrays of
  \<open>map-impl.c\<close> with the capacity, the number of entries and the two functions on keys.
  Keys are passed as pointers; \<open>deref\<close> says what a pointer points to at the time of the call.
\<close>

section \<open>The code\<close>

record ('p, 'k) cmap =
  m_busybits :: "int list"
  m_keyps :: "'p list"
  m_khs :: "int list"
  m_chns :: "int list"
  m_vals :: "int list"
  m_capacity :: int
  m_size :: int
  m_keys_eq :: "'k \<Rightarrow> 'k \<Rightarrow> bool"
  m_khash :: "'k \<Rightarrow> int"

text \<open>
  The six calls of \<open>malloc\<close> with the clean-up of each failure. The contents of a fresh
  array is arbitrary: \<open>ints b\<close> and \<open>ptrs b\<close> give what block \<open>b\<close> happens to contain.
  The result is the returned flag, the new value of \<open>*map_out\<close> and the heap.
\<close>

definition map_allocate ::
  "('k \<Rightarrow> 'k \<Rightarrow> bool) \<Rightarrow> ('k \<Rightarrow> int) \<Rightarrow> int \<Rightarrow> ('p, 'k) cmap option \<Rightarrow> (nat \<Rightarrow> nat \<Rightarrow> int)
   \<Rightarrow> (nat \<Rightarrow> nat \<Rightarrow> 'p) \<Rightarrow> heap \<Rightarrow> (int \<times> ('p, 'k) cmap option \<times> heap) option" where
  "map_allocate keq khash capacity map_out ints ptrs h =
     (case malloc h of
        (None, h) \<Rightarrow> Some (0, map_out, h)
      | (Some map_alloc, h) \<Rightarrow>
     (case malloc h of
        (None, h) \<Rightarrow> do {
          h \<leftarrow> free_all [map_alloc] h;
          Some (0, map_out, h) }
      | (Some bbs_alloc, h) \<Rightarrow>
     (case malloc h of
        (None, h) \<Rightarrow> do {
          h \<leftarrow> free_all [bbs_alloc, map_alloc] h;
          Some (0, map_out, h) }
      | (Some keyps_alloc, h) \<Rightarrow>
     (case malloc h of
        (None, h) \<Rightarrow> do {
          h \<leftarrow> free_all [keyps_alloc, bbs_alloc, map_alloc] h;
          Some (0, map_out, h) }
      | (Some khs_alloc, h) \<Rightarrow>
     (case malloc h of
        (None, h) \<Rightarrow> do {
          h \<leftarrow> free_all [khs_alloc, keyps_alloc, bbs_alloc, map_alloc] h;
          Some (0, map_out, h) }
      | (Some chns_alloc, h) \<Rightarrow>
     (case malloc h of
        (None, h) \<Rightarrow> do {
          h \<leftarrow> free_all [chns_alloc, khs_alloc, keyps_alloc, bbs_alloc, map_alloc] h;
          Some (0, map_out, h) }
      | (Some vals_alloc, h) \<Rightarrow> do {
          let array = (\<lambda>b. map (ints b) [0..<nat capacity]);
          (bbs, chns) \<leftarrow> map_impl_init (array bbs_alloc) (array chns_alloc) capacity;
          Some (1,
            Some \<lparr>m_busybits = bbs, m_keyps = map (ptrs keyps_alloc) [0..<nat capacity],
              m_khs = array khs_alloc, m_chns = chns, m_vals = array vals_alloc,
              m_capacity = capacity, m_size = 0, m_keys_eq = keq, m_khash = khash\<rparr>,
            h) }))))))"

definition map_get :: "('p \<Rightarrow> 'k) \<Rightarrow> ('p, 'k) cmap \<Rightarrow> 'p \<Rightarrow> int \<Rightarrow> (int \<times> int) option" where
  "map_get deref m key value_out =
     (let hash = m_khash m (deref key)
      in map_impl_get (m_busybits m) (m_keyps m) (m_khs m) (m_chns m) (m_vals m) key
           (\<lambda>p q. m_keys_eq m (deref p) (deref q)) hash value_out (m_capacity m))"

definition map_put :: "('p \<Rightarrow> 'k) \<Rightarrow> ('p, 'k) cmap \<Rightarrow> 'p \<Rightarrow> int \<Rightarrow> ('p, 'k) cmap option" where
  "map_put deref m key value = do {
     let hash = m_khash m (deref key);
     (bbs, keyps, khs, chns, vals) \<leftarrow>
       map_impl_put (m_busybits m) (m_keyps m) (m_khs m) (m_chns m) (m_vals m) key hash value
         (m_capacity m);
     Some (m\<lparr>m_busybits := bbs, m_keyps := keyps, m_khs := khs, m_chns := chns, m_vals := vals,
       m_size := m_size m + 1\<rparr>)
   }"

definition map_erase ::
  "('p \<Rightarrow> 'k) \<Rightarrow> ('p, 'k) cmap \<Rightarrow> 'p \<Rightarrow> 'p \<Rightarrow> (('p, 'k) cmap \<times> 'p) option" where
  "map_erase deref m key trash = do {
     let hash = m_khash m (deref key);
     (bbs, chns, out) \<leftarrow>
       map_impl_erase (m_busybits m) (m_keyps m) (m_khs m) (m_chns m) key
         (\<lambda>p q. m_keys_eq m (deref p) (deref q)) hash (m_capacity m) trash;
     Some (m\<lparr>m_busybits := bbs, m_chns := chns, m_size := m_size m - 1\<rparr>, out)
   }"

definition map_size :: "('p, 'k) cmap \<Rightarrow> int" where
  "map_size m = m_size m"

section \<open>Invariant and abstraction\<close>

definition map_entries :: "('p, 'k) cmap \<Rightarrow> ('p \<times> int) set" where
  "map_entries m = map_impl_entries (length (m_busybits m)) (m_busybits m) (m_keyps m) (m_vals m)"

definition map_abs :: "('p \<Rightarrow> 'k) \<Rightarrow> ('p, 'k) cmap \<Rightarrow> 'k \<rightharpoonup> int" where
  "map_abs deref m =
     map_impl_abs deref (length (m_busybits m)) (m_busybits m) (m_keyps m) (m_vals m)"

definition map_cap :: "('p, 'k) cmap \<Rightarrow> nat" where
  "map_cap m = length (m_busybits m)"

definition map_inv :: "('p \<Rightarrow> 'k) \<Rightarrow> ('p, 'k) cmap \<Rightarrow> bool" where
  "map_inv deref m \<longleftrightarrow>
     m_capacity m = int (map_cap m) \<and>
     map_impl_inv deref (m_khash m) (map_cap m) (m_busybits m) (m_keyps m) (m_khs m) (m_chns m)
       (m_vals m) \<and>
     m_size m = int (card (map_entries m)) \<and>
     (\<forall>a b. m_keys_eq m a b \<longleftrightarrow> a = b)"

section \<open>The contract of a map of key pointers\<close>

text \<open>
  What the network functions rely on: a map holds pairs of a key pointer and a value, no two
  of them with equal keys; the operations look keys up by what the pointers point to.
\<close>

locale pointer_map =
  fixes get :: "('p \<Rightarrow> 'k) \<Rightarrow> 'm \<Rightarrow> 'p \<Rightarrow> int \<Rightarrow> (int \<times> int) option"
    and put :: "('p \<Rightarrow> 'k) \<Rightarrow> 'm \<Rightarrow> 'p \<Rightarrow> int \<Rightarrow> 'm option"
    and erase :: "('p \<Rightarrow> 'k) \<Rightarrow> 'm \<Rightarrow> 'p \<Rightarrow> 'p \<Rightarrow> ('m \<times> 'p) option"
    and entries :: "'m \<Rightarrow> ('p \<times> int) set"
    and lookup :: "('p \<Rightarrow> 'k) \<Rightarrow> 'm \<Rightarrow> 'k \<Rightarrow> int option"
    and cap :: "'m \<Rightarrow> nat"
    and inv :: "('p \<Rightarrow> 'k) \<Rightarrow> 'm \<Rightarrow> bool"
  assumes entries_inj: "inv d m \<Longrightarrow> (q, v) \<in> entries m \<Longrightarrow> (q', v') \<in> entries m \<Longrightarrow> d q = d q' \<Longrightarrow>
      q = q' \<and> v = v'"
    and lookup_Some: "inv d m \<Longrightarrow> lookup d m k = Some v \<longleftrightarrow> (\<exists>q. (q, v) \<in> entries m \<and> d q = k)"
    and get_hit: "inv d m \<Longrightarrow> (q, v) \<in> entries m \<Longrightarrow> d q = d p \<Longrightarrow> get d m p x = Some (1, v)"
    and get_miss: "inv d m \<Longrightarrow> (\<And>q v. (q, v) \<in> entries m \<Longrightarrow> d q \<noteq> d p) \<Longrightarrow> get d m p x = Some (0, x)"
    and put_new: "inv d m \<Longrightarrow> (\<And>q v. (q, v) \<in> entries m \<Longrightarrow> d q \<noteq> d p) \<Longrightarrow> card (entries m) < cap m \<Longrightarrow>
      \<exists>m'. put d m p v = Some m' \<and> inv d m' \<and> entries m' = insert (p, v) (entries m) \<and> cap m' = cap m"
    and erase_old: "inv d m \<Longrightarrow> (q, v) \<in> entries m \<Longrightarrow> d q = d p \<Longrightarrow>
      \<exists>m'. erase d m p t = Some (m', q) \<and> inv d m' \<and> entries m' = entries m - {(q, v)} \<and> cap m' = cap m"
    and inv_frame: "inv d m \<Longrightarrow> (\<And>q v. (q, v) \<in> entries m \<Longrightarrow> d' q = d q) \<Longrightarrow> inv d' m"
    and finite_entries: "finite (entries m)"

context pointer_map
begin

lemma lookup_None: "inv d m \<Longrightarrow> lookup d m k = None \<longleftrightarrow> (\<forall>q v. (q, v) \<in> entries m \<longrightarrow> d q \<noteq> k)"
  using lookup_Some [of d m k] by (metis not_Some_eq)

lemma get_lookup:
  assumes "inv d m"
  shows "get d m p x = Some (case lookup d m (d p) of None \<Rightarrow> (0, x) | Some v \<Rightarrow> (1, v))"
proof (cases "lookup d m (d p)")
  case None
  then have "\<And>q v. (q, v) \<in> entries m \<Longrightarrow> d q \<noteq> d p" by (auto simp: lookup_None [OF assms])
  from get_miss [OF assms this] None show ?thesis by simp
next
  case (Some v)
  then obtain q where "(q, v) \<in> entries m" "d q = d p" using lookup_Some [OF assms] by blast
  from get_hit [OF assms this] Some show ?thesis by simp
qed

lemma get_frame:
  assumes "inv d m" "\<And>q v. (q, v) \<in> entries m \<Longrightarrow> d' q = d q" "d' p = d p"
  shows "get d' m p x = get d m p x"
proof -
  have inv: "inv d' m" by (rule inv_frame [OF assms(1,2)])
  have "lookup d' m = lookup d m"
  proof (rule map_eqI)
    fix k v
    show "lookup d' m k = Some v \<longleftrightarrow> lookup d m k = Some v"
      using assms(2) unfolding lookup_Some [OF assms(1)] lookup_Some [OF inv] by metis
  qed
  then show ?thesis using get_lookup [OF assms(1)] get_lookup [OF inv] assms(3) by simp
qed

lemma put_lookup:
  assumes "inv d m" "lookup d m (d p) = None" "card (entries m) < cap m"
  shows "\<exists>m'. put d m p v = Some m' \<and> inv d m' \<and> lookup d m' = (lookup d m)(d p \<mapsto> v)
    \<and> card (entries m') = Suc (card (entries m)) \<and> cap m' = cap m"
proof -
  have new: "\<And>q v. (q, v) \<in> entries m \<Longrightarrow> d q \<noteq> d p"
    using assms(1,2) by (auto simp: lookup_None)
  then obtain m' where m': "put d m p v = Some m'" "inv d m'"
    "entries m' = insert (p, v) (entries m)" "cap m' = cap m"
    using put_new [OF assms(1) _ assms(3)] by blast
  have "lookup d m' = (lookup d m)(d p \<mapsto> v)"
  proof (rule map_eqI)
    fix k w
    show "lookup d m' k = Some w \<longleftrightarrow> ((lookup d m)(d p \<mapsto> v)) k = Some w"
      using new by (auto simp: lookup_Some [OF m'(2)] lookup_Some [OF assms(1)] m'(3))
  qed
  moreover have "card (entries m') = Suc (card (entries m))"
    using new m'(3) finite_entries by (metis card_insert_disjoint)
  ultimately show ?thesis using m' by blast
qed

lemma erase_lookup:
  assumes "inv d m" "lookup d m (d p) \<noteq> None"
  shows "\<exists>m' q. erase d m p t = Some (m', q) \<and> d q = d p \<and> inv d m'
    \<and> lookup d m' = (lookup d m)(d p := None) \<and> card (entries m) = Suc (card (entries m'))
    \<and> cap m' = cap m"
proof -
  obtain q v where q: "(q, v) \<in> entries m" "d q = d p"
    using assms by (auto simp: lookup_None)
  obtain m' where m': "erase d m p t = Some (m', q)" "inv d m'"
    "entries m' = entries m - {(q, v)}" "cap m' = cap m"
    using erase_old [OF assms(1) q] by blast
  have "lookup d m' = (lookup d m)(d p := None)"
  proof (rule map_eqI)
    fix k w
    show "lookup d m' k = Some w \<longleftrightarrow> ((lookup d m)(d p := None)) k = Some w"
    proof (cases "k = d p")
      case True
      have "(q', w) = (q, v)" if "(q', w) \<in> entries m" "d q' = k" for q'
        using entries_inj [OF assms(1) that(1) q(1)] that q True by simp
      then have "\<not> (\<exists>q'. (q', w) \<in> entries m' \<and> d q' = k)"
        unfolding m'(3) by blast
      then show ?thesis using True by (simp add: lookup_Some [OF m'(2)])
    next
      case False
      then show ?thesis
        using q by (auto simp: lookup_Some [OF m'(2)] lookup_Some [OF assms(1)] m'(3))
    qed
  qed
  moreover have "card (entries m) = Suc (card (entries m'))"
    using q m'(3) finite_entries by (metis card_Suc_Diff1)
  ultimately show ?thesis using m' q by blast
qed

end

section \<open>The hash table implements the contract\<close>

lemma map_abs_Some:
  "map_inv d m \<Longrightarrow> map_abs d m k = Some v \<longleftrightarrow> (\<exists>q. (q, v) \<in> map_entries m \<and> d q = k)"
  unfolding map_inv_def map_abs_def map_entries_def map_cap_def
  by (elim conjE) (rule map_impl_abs_entries)

lemma map_abs_None:
  "map_inv d m \<Longrightarrow> map_abs d m k = None \<longleftrightarrow> (\<forall>q v. (q, v) \<in> map_entries m \<longrightarrow> d q \<noteq> k)"
  using map_abs_Some [of d m k] by (metis not_Some_eq)

lemma map_get_abs:
  assumes "map_inv d m"
  shows "map_get d m p x = Some (case map_abs d m (d p) of None \<Rightarrow> (0, x) | Some v \<Rightarrow> (1, v))"
proof -
  have "map_impl_get (m_busybits m) (m_keyps m) (m_khs m) (m_chns m) (m_vals m) p
      (\<lambda>p q. m_keys_eq m (d p) (d q)) (m_khash m (d p)) x (int (map_cap m))
    = Some (case map_impl_abs d (map_cap m) (m_busybits m) (m_keyps m) (m_vals m) (d p) of
        None \<Rightarrow> (0, x) | Some v \<Rightarrow> (1, v))"
    by (rule map_impl_get_correct) (use assms in \<open>auto simp: map_inv_def\<close>)
  then show ?thesis
    using assms by (simp add: map_get_def map_inv_def map_abs_def map_cap_def)
qed

lemma map_put_new:
  assumes inv: "map_inv d m" and new: "map_abs d m (d p) = None" and space: "card (map_entries m) < map_cap m"
  shows "\<exists>m'. map_put d m p v = Some m' \<and> map_inv d m' \<and> map_entries m' = insert (p, v) (map_entries m)
    \<and> map_cap m' = map_cap m"
proof -
  have impl: "map_impl_inv d (m_khash m) (map_cap m) (m_busybits m) (m_keyps m) (m_khs m) (m_chns m) (m_vals m)"
    using inv by (simp add: map_inv_def)
  obtain j where "j < map_cap m" "m_busybits m ! j = 0"
    using space free_cell_iff [OF impl] by (auto simp: map_entries_def map_cap_def)
  then obtain bbs kps khs chns vals where put:
    "map_impl_put (m_busybits m) (m_keyps m) (m_khs m) (m_chns m) (m_vals m) p (m_khash m (d p)) v
      (int (map_cap m)) = Some (bbs, kps, khs, chns, vals)"
    "map_impl_inv d (m_khash m) (map_cap m) bbs kps khs chns vals"
    "map_impl_entries (map_cap m) bbs kps vals
      = insert (p, v) (map_impl_entries (map_cap m) (m_busybits m) (m_keyps m) (m_vals m))"
    using map_impl_put_correct [OF impl, of p _ v] new unfolding map_abs_def map_cap_def by metis
  have "length bbs = map_cap m" using map_impl_invD(2) [OF put(2)] .
  moreover have "(p, v) \<notin> map_entries m" using new map_abs_None [OF inv] by blast
  ultimately show ?thesis
    using inv put by (auto simp: map_put_def map_inv_def map_entries_def map_cap_def)
qed

lemma map_erase_old:
  assumes inv: "map_inv d m" and q: "(q, v) \<in> map_entries m" "d q = d p"
  shows "\<exists>m'. map_erase d m p t = Some (m', q) \<and> map_inv d m' \<and> map_entries m' = map_entries m - {(q, v)}
    \<and> map_cap m' = map_cap m"
proof -
  have impl: "map_impl_inv d (m_khash m) (map_cap m) (m_busybits m) (m_keyps m) (m_khs m) (m_chns m) (m_vals m)"
    using inv by (simp add: map_inv_def)
  obtain j where j: "j < map_cap m" "m_busybits m ! j \<noteq> 0" "m_keyps m ! j = q" "m_vals m ! j = v"
    using q by (auto simp: map_entries_def in_map_impl_entries map_cap_def)
  obtain chns where er:
    "map_impl_erase (m_busybits m) (m_keyps m) (m_khs m) (m_chns m) p (\<lambda>p q. m_keys_eq m (d p) (d q))
      (m_khash m (d p)) (int (map_cap m)) t = Some ((m_busybits m)[j := 0], chns, q)"
    "map_impl_inv d (m_khash m) (map_cap m) ((m_busybits m)[j := 0]) (m_keyps m) (m_khs m) chns (m_vals m)"
    "map_impl_entries (map_cap m) ((m_busybits m)[j := 0]) (m_keyps m) (m_vals m)
      = map_impl_entries (map_cap m) (m_busybits m) (m_keyps m) (m_vals m) - {(q, v)}"
    by (rule map_impl_erase_correct [OF impl, of "\<lambda>p q. m_keys_eq m (d p) (d q)" j p t])
      (use inv j q in \<open>simp_all add: map_inv_def\<close>)
  have "Suc (card (map_entries m - {(q, v)})) = card (map_entries m)"
    by (rule card_Suc_Diff1) (use q in \<open>simp_all add: map_entries_def\<close>)
  then show ?thesis
    using inv er by (simp add: map_erase_def map_inv_def map_entries_def map_cap_def)
qed

lemma map_inv_frame:
  assumes "map_inv d m" and "\<And>q v. (q, v) \<in> map_entries m \<Longrightarrow> d' q = d q"
  shows "map_inv d' m"
proof -
  have "map_impl_inv d' (m_khash m) (map_cap m) (m_busybits m) (m_keyps m) (m_khs m) (m_chns m) (m_vals m)"
    by (rule map_impl_inv_frame [of d])
      (use assms in \<open>auto simp only: map_inv_def map_entries_def map_cap_def\<close>)
  then show ?thesis using assms(1) by (simp add: map_inv_def)
qed

interpretation hm: pointer_map map_get map_put map_erase map_entries map_abs map_cap map_inv
proof (unfold_locales, goal_cases)
  case (1 d m q v q' v')
  then show ?case
    unfolding map_inv_def map_entries_def map_cap_def by (elim conjE) (rule map_impl_entries_inj)
next
  case (2 d m k v)
  then show ?case by (rule map_abs_Some)
next
  case (3 d m q v p x)
  then have "map_abs d m (d p) = Some v" unfolding map_abs_Some [OF 3(1)] by auto
  then show ?case using map_get_abs [OF 3(1)] by simp
next
  case (4 d m p x)
  then have "map_abs d m (d p) = None" unfolding map_abs_None [OF 4(1)] by auto
  then show ?case using map_get_abs [OF 4(1)] by simp
next
  case (5 d m p v)
  then have "map_abs d m (d p) = None" unfolding map_abs_None [OF 5(1)] by auto
  then show ?case by (rule map_put_new [OF 5(1) _ 5(3)])
next
  case (6 d m q v p t)
  then show ?case by (rule map_erase_old)
next
  case (7 d m d')
  then show ?case by (rule map_inv_frame)
next
  case (8 m)
  then show ?case by (simp add: map_entries_def)
qed

section \<open>Allocation\<close>

definition map_allocated ::
  "('p \<Rightarrow> 'k) \<Rightarrow> nat \<Rightarrow> ('p, 'k) cmap option \<Rightarrow> nat list \<Rightarrow> (int \<times> ('p, 'k) cmap option \<times> heap) option \<Rightarrow> bool"
  where
  "map_allocated d c map_out blocks res \<longleftrightarrow>
     (\<exists>h. res = Some (0, map_out, h) \<and> live h = blocks \<and> heap_ok h) \<or>
     (\<exists>m h new. res = Some (1, Some m, h) \<and> live h = new @ blocks \<and> length new = 6 \<and> heap_ok h \<and>
        map_inv d m \<and> map_cap m = c \<and> map_abs d m = Map.empty)"

lemma map_allocate_spec:
  assumes "heap_ok h" "capacity_ok c" "\<And>a b. keq a b \<longleftrightarrow> a = b"
  shows "map_allocated d c map_out (live h) (map_allocate keq khash (int c) map_out ints ptrs h)"
proof -
  have complete: "map_allocated d c map_out (live h) (do {
      let array = (\<lambda>b. map (ints b) [0..<nat (int c)]);
      (bbs, chns) \<leftarrow> map_impl_init (array b1) (array b4) (int c);
      Some (1,
        Some \<lparr>m_busybits = bbs, m_keyps = map (ptrs b2) [0..<nat (int c)],
          m_khs = array b3, m_chns = chns, m_vals = array b5,
          m_capacity = int c, m_size = 0, m_keys_eq = keq, m_khash = khash\<rparr>,
        h') })"
    if "live h' = [b5, b4, b3, b2, b1, b0] @ live h" "heap_ok h'" for h' b0 b1 b2 b3 b4 b5
    using that assms(3)
    by (simp add: map_allocated_def map_inv_def map_abs_def map_cap_def map_entries_def
        map_impl_entries_def map_impl_init_correct map_impl_inv_empty map_impl_abs_empty assms(2))
  have fail: "map_allocated d c map_out (live h) (Some (0, map_out, h'))"
    if "live h' = live h" "heap_ok h'" for h'
    using that by (simp add: map_allocated_def)
  show ?thesis
    unfolding map_allocate_def
    by (intro malloc_step [where Q = "map_allocated d c map_out (live h)"]
        free_step [where Q = "map_allocated d c map_out (live h)" and l = "live h"] fail assms(1) complete;
      simp)
qed

lemma map_allocate_success:
  assumes "heap_ok h" "capacity_ok n" "\<And>a b. keq a b \<longleftrightarrow> a = b"
    "map_allocate keq khash (int n) None ints ptrs h = Some (r, fm, h')" "r \<noteq> 0"
  shows "\<exists>m. fm = Some m \<and> heap_ok h' \<and> map_inv d m \<and> map_cap m = n \<and> map_abs d m = Map.empty"
  using map_allocate_spec [OF assms(1,2,3), of d None khash ints ptrs] assms(4,5)
  by (auto simp: map_allocated_def)

lemma map_allocate_plenty:
  assumes "outcomes h = replicate 6 True @ later"
  shows "\<exists>m h'. map_allocate keq khash (int n) out ints ptrs h = Some (1, Some m, h') \<and> outcomes h' = later"
  using assms
  by (simp add: map_allocate_def malloc_def Let_def numeral_eq_Suc map_impl_init_correct)

text \<open>Erasing a key that is absent leaves all entries in place; only the chain counters and the size change.\<close>

lemma map_erase_absent:
  assumes "map_inv d m" "map_abs d m (d p) = None"
  shows "\<exists>m'. map_erase d m p t = Some (m', t) \<and> map_entries m' = map_entries m \<and> map_cap m' = map_cap m"
proof -
  have impl: "map_impl_inv d (m_khash m) (map_cap m) (m_busybits m) (m_keyps m) (m_khs m) (m_chns m) (m_vals m)"
    and cap: "m_capacity m = int (map_cap m)" and eq: "\<And>a b. m_keys_eq m a b \<longleftrightarrow> a = b"
    using assms(1) by (auto simp: map_inv_def)
  from map_impl_erase_absent [OF impl, of "\<lambda>p q. m_keys_eq m (d p) (d q)" p "m_khash m (d p)" t]
  have "map_impl_erase (m_busybits m) (m_keyps m) (m_khs m) (m_chns m) p (\<lambda>p q. m_keys_eq m (d p) (d q))
      (m_khash m (d p)) (int (map_cap m)) t = Some (m_busybits m, map (\<lambda>x. x - 1) (m_chns m), t)"
    using eq assms(2) by (simp add: map_abs_def map_cap_def)
  then show ?thesis
    using cap by (simp add: map_erase_def Let_def map_entries_def map_cap_def)
qed

section \<open>Properties\<close>

text \<open>
  The examples are a table of one cell that holds the key 7 with the value 42, and its empty
  counterpart; keys are their own pointers.
\<close>

definition small_map :: "(nat, nat) cmap" where
  "small_map = \<lparr>m_busybits = [1], m_keyps = [7], m_khs = [7], m_chns = [0], m_vals = [42],
     m_capacity = 1, m_size = 1, m_keys_eq = (=), m_khash = int\<rparr>"

definition small_empty_map :: "(nat, nat) cmap" where
  "small_empty_map = small_map\<lparr>m_busybits := [0], m_size := 0\<rparr>"

lemma small_map_entries: "map_entries small_map = {(7, 42)}" "map_entries small_empty_map = {}"
  by (auto simp: map_entries_def map_impl_entries_def small_map_def small_empty_map_def)

lemma small_map_inv: "map_inv (\<lambda>p. p) small_map" "map_cap small_map = 1"
  using one_cell_table by (simp_all add: map_inv_def map_cap_def small_map_entries) (simp_all add: small_map_def)

lemma small_empty_map_inv: "map_inv (\<lambda>p. p) small_empty_map" "map_cap small_empty_map = 1"
  using map_impl_inv_empty [of 1 "[7]" "[7]" "[42]" "\<lambda>p :: nat. p" int]
  by (simp_all add: map_inv_def map_cap_def small_map_entries)
    (simp_all add: small_empty_map_def small_map_def capacity_ok_def exI [of _ 0])

lemma small_map_abs: "map_abs (\<lambda>p. p) small_map = [7 \<mapsto> 42]" "map_abs (\<lambda>p. p) small_empty_map = Map.empty"
  by (auto simp: map_abs_def map_impl_abs_def small_map_def small_empty_map_def)

text \<open>
  C15. \<open>map_get\<close> returns 1 and the stored value when the map holds the key that the pointer points
  to, and 0 with the output untouched otherwise; it never goes wrong on a well-formed table.
\<close>

theorem map_get_refines:
  assumes "map_inv d m"
  shows "map_get d m p x = Some (case map_abs d m (d p) of None \<Rightarrow> (0, x) | Some v \<Rightarrow> (1, v))"
  by (rule hm.get_lookup [OF assms])

theorem map_get_refines_witness: "map_get (\<lambda>p. p) small_map 7 0 = Some (1, 42)"
  using map_get_refines [OF small_map_inv(1), of 7 0] by (simp add: small_map_abs)

text \<open>
  C13. \<open>map_put\<close> of a key that is absent, into a table that is not full, updates the represented map
  at exactly that key, keeps the table well-formed and increases its size by one.
\<close>

theorem map_put_refines:
  assumes "map_inv d m" "map_abs d m (d p) = None" "map_size m < int (map_cap m)"
  shows "\<exists>m'. map_put d m p v = Some m' \<and> map_inv d m' \<and> map_abs d m' = (map_abs d m)(d p \<mapsto> v) \<and>
    map_size m' = map_size m + 1 \<and> map_cap m' = map_cap m"
proof -
  have "card (map_entries m) < map_cap m" using assms(1,3) by (simp add: map_inv_def map_size_def)
  from hm.put_lookup [OF assms(1,2) this, of v] obtain m' where
    m': "map_put d m p v = Some m'" "map_inv d m'" "map_abs d m' = (map_abs d m)(d p \<mapsto> v)"
    "card (map_entries m') = Suc (card (map_entries m))" "map_cap m' = map_cap m" by blast
  moreover have "map_size m' = map_size m + 1"
    using m'(2,4) assms(1) by (simp add: map_inv_def map_size_def)
  ultimately show ?thesis by blast
qed

theorem map_put_refines_witness:
  "\<exists>m'. map_put (\<lambda>p. p) small_empty_map 5 9 = Some m' \<and> map_inv (\<lambda>p. p) m' \<and>
    map_abs (\<lambda>p. p) m' = [5 \<mapsto> 9] \<and> map_size m' = 1 \<and> map_cap m' = 1"
  using map_put_refines [OF small_empty_map_inv(1), of 5 9] small_empty_map_inv(2)
  by (simp add: small_map_abs) (simp add: map_size_def small_empty_map_def)



text \<open>
  \<open>map_allocate\<close> either returns 0 with no block leaked and \<open>*map_out\<close> as it was, whichever of its
  six allocations fails, or returns 1 with an empty well-formed map of the given capacity in exactly
  six new blocks.
\<close>

lemma map_allocate_no_leak:
  assumes "heap_ok h" "capacity_ok c" "\<And>a b. keq a b \<longleftrightarrow> a = b"
  shows "map_allocated d c map_out (live h) (map_allocate keq khash (int c) map_out ints ptrs h)"
  by (rule map_allocate_spec [OF assms])

end
