(* ===== verification/DchainImpl.thy ===== *)
theory DchainImpl
  imports Prelude
begin

text \<open>
  The index allocator of \<open>dpdk-nfs/nf/lib/containers/double-chain-impl.c\<close>: an array of cells
  that holds two lists. The cells in use form a doubly linked cycle through cell 0, oldest
  first; the free cells form a singly linked cycle through cell 1 (their two links are equal).
  Index \<open>i\<close> lives in cell \<open>i + 2\<close>.

  The specification functions of \<open>double-chain-impl.h\<close> (its ghost fixpoints) are modelled
  first; the code is then shown to implement them.
\<close>

section \<open>The specification of the header\<close>

record dchaini =
  dchaini_alist_fp :: "int list"
  dchaini_irange_fp :: int

definition empty_dchaini_fp :: "int \<Rightarrow> dchaini" where
  "empty_dchaini_fp index_range = \<lparr>dchaini_alist_fp = [], dchaini_irange_fp = index_range\<rparr>"

definition dchaini_out_of_space_fp :: "dchaini \<Rightarrow> bool" where
  "dchaini_out_of_space_fp ch \<longleftrightarrow> dchaini_irange_fp ch \<le> int (length (dchaini_alist_fp ch))"

definition dchaini_allocated_fp :: "dchaini \<Rightarrow> int \<Rightarrow> bool" where
  "dchaini_allocated_fp ch idx \<longleftrightarrow> idx \<in> set (dchaini_alist_fp ch)"

definition dchaini_allocate_fp :: "dchaini \<Rightarrow> int \<Rightarrow> dchaini" where
  "dchaini_allocate_fp ch idx = ch\<lparr>dchaini_alist_fp := dchaini_alist_fp ch @ [idx]\<rparr>"

definition dchaini_rejuvenate_fp :: "dchaini \<Rightarrow> int \<Rightarrow> dchaini" where
  "dchaini_rejuvenate_fp ch index =
     ch\<lparr>dchaini_alist_fp := remove1 index (dchaini_alist_fp ch) @ [index]\<rparr>"

definition dchaini_is_empty_fp :: "dchaini \<Rightarrow> bool" where
  "dchaini_is_empty_fp ch \<longleftrightarrow> dchaini_alist_fp ch = []"

definition dchaini_get_oldest_index_fp :: "dchaini \<Rightarrow> int" where
  "dchaini_get_oldest_index_fp ch = hd (dchaini_alist_fp ch)"

definition dchaini_remove_fp :: "dchaini \<Rightarrow> int \<Rightarrow> dchaini" where
  "dchaini_remove_fp ch index = ch\<lparr>dchaini_alist_fp := remove1 index (dchaini_alist_fp ch)\<rparr>"

section \<open>The code\<close>

record dchain_cell =
  cell_prev :: int
  cell_next :: int

definition DCHAIN_RESERVED :: int where
  "DCHAIN_RESERVED = 2"

definition ALLOC_LIST_HEAD :: int where
  "ALLOC_LIST_HEAD = 0"

definition FREE_LIST_HEAD :: int where
  "FREE_LIST_HEAD = 1"

definition INDEX_SHIFT :: int where
  "INDEX_SHIFT = DCHAIN_RESERVED"

text \<open>The accesses \<open>cells[i].next\<close> and \<open>cells[i].prev\<close>.\<close>

definition get_next :: "dchain_cell list \<Rightarrow> int \<Rightarrow> int option" where
  "get_next cells i = map_option cell_next (rd cells i)"

definition get_prev :: "dchain_cell list \<Rightarrow> int \<Rightarrow> int option" where
  "get_prev cells i = map_option cell_prev (rd cells i)"

definition set_next :: "dchain_cell list \<Rightarrow> int \<Rightarrow> int \<Rightarrow> dchain_cell list option" where
  "set_next cells i v = do { c \<leftarrow> rd cells i; wr cells i (c\<lparr>cell_next := v\<rparr>) }"

definition set_prev :: "dchain_cell list \<Rightarrow> int \<Rightarrow> int \<Rightarrow> dchain_cell list option" where
  "set_prev cells i v = do { c \<leftarrow> rd cells i; wr cells i (c\<lparr>cell_prev := v\<rparr>) }"

function dchain_impl_init_loop ::
  "dchain_cell list \<Rightarrow> int \<Rightarrow> int \<Rightarrow> (dchain_cell list \<times> int) option" where
  "dchain_impl_init_loop cells index_range i =
     (if i < index_range + INDEX_SHIFT - 1 then do {
        cells \<leftarrow> set_next cells i (i + 1);
        n \<leftarrow> get_next cells i;
        cells \<leftarrow> set_prev cells i n;
        dchain_impl_init_loop cells index_range (i + 1)
      } else Some (cells, i))"
  by pat_completeness auto
termination
  by (relation "measure (\<lambda>(_, index_range, i). nat (index_range + INDEX_SHIFT - 1 - i))") auto

declare dchain_impl_init_loop.simps [simp del]

definition dchain_impl_init :: "dchain_cell list \<Rightarrow> int \<Rightarrow> dchain_cell list option" where
  "dchain_impl_init cells index_range = do {
     cells \<leftarrow> set_prev cells ALLOC_LIST_HEAD 0;
     cells \<leftarrow> set_next cells ALLOC_LIST_HEAD 0;
     let i = INDEX_SHIFT;
     cells \<leftarrow> set_next cells FREE_LIST_HEAD i;
     n \<leftarrow> get_next cells FREE_LIST_HEAD;
     cells \<leftarrow> set_prev cells FREE_LIST_HEAD n;
     (cells, i) \<leftarrow> dchain_impl_init_loop cells index_range i;
     cells \<leftarrow> set_next cells i FREE_LIST_HEAD;
     n \<leftarrow> get_next cells i;
     set_prev cells i n
   }"

text \<open>The result of an operation is the returned flag, the cells and the value of \<open>*index\<close>.\<close>

definition dchain_impl_allocate_new_index ::
  "dchain_cell list \<Rightarrow> int \<Rightarrow> (int \<times> dchain_cell list \<times> int) option" where
  "dchain_impl_allocate_new_index cells index = do {
     allocated \<leftarrow> get_next cells FREE_LIST_HEAD;
     if allocated = FREE_LIST_HEAD then Some (0, cells, index)
     else do {
       n \<leftarrow> get_next cells allocated;
       cells \<leftarrow> set_next cells FREE_LIST_HEAD n;
       n \<leftarrow> get_next cells FREE_LIST_HEAD;
       cells \<leftarrow> set_prev cells FREE_LIST_HEAD n;
       cells \<leftarrow> set_next cells allocated ALLOC_LIST_HEAD;
       p \<leftarrow> get_prev cells ALLOC_LIST_HEAD;
       cells \<leftarrow> set_prev cells allocated p;
       alloc_head_prev \<leftarrow> get_prev cells ALLOC_LIST_HEAD;
       cells \<leftarrow> set_next cells alloc_head_prev allocated;
       cells \<leftarrow> set_prev cells ALLOC_LIST_HEAD allocated;
       Some (1, cells, allocated - INDEX_SHIFT)
     }
   }"

definition dchain_impl_free_index ::
  "dchain_cell list \<Rightarrow> int \<Rightarrow> (int \<times> dchain_cell list) option" where
  "dchain_impl_free_index cells index = do {
     let freed = index + INDEX_SHIFT;
     freed_prev \<leftarrow> get_prev cells freed;
     freed_next \<leftarrow> get_next cells freed;
     cells \<leftarrow> set_next cells freed_prev freed_next;
     cells \<leftarrow> set_prev cells freed_next freed_prev;
     n \<leftarrow> get_next cells FREE_LIST_HEAD;
     cells \<leftarrow> set_next cells freed n;
     n \<leftarrow> get_next cells freed;
     cells \<leftarrow> set_prev cells freed n;
     cells \<leftarrow> set_next cells FREE_LIST_HEAD freed;
     n \<leftarrow> get_next cells FREE_LIST_HEAD;
     cells \<leftarrow> set_prev cells FREE_LIST_HEAD n;
     Some (1, cells)
   }"

definition dchain_impl_get_oldest_index ::
  "dchain_cell list \<Rightarrow> int \<Rightarrow> (int \<times> int) option" where
  "dchain_impl_get_oldest_index cells index = do {
     n \<leftarrow> get_next cells ALLOC_LIST_HEAD;
     if n = ALLOC_LIST_HEAD then Some (0, index)
     else Some (1, n - INDEX_SHIFT)
   }"

definition dchain_impl_rejuvenate_index ::
  "dchain_cell list \<Rightarrow> int \<Rightarrow> (int \<times> dchain_cell list) option" where
  "dchain_impl_rejuvenate_index cells index = do {
     let lifted = index + INDEX_SHIFT;
     lifted_next \<leftarrow> get_next cells lifted;
     lifted_prev \<leftarrow> get_prev cells lifted;
     if lifted_next = lifted_prev then
       if lifted_next \<noteq> ALLOC_LIST_HEAD then Some (0, cells)
       else Some (1, cells)
     else do {
       cells \<leftarrow> set_next cells lifted_prev lifted_next;
       cells \<leftarrow> set_prev cells lifted_next lifted_prev;
       al_head_prev \<leftarrow> get_prev cells ALLOC_LIST_HEAD;
       cells \<leftarrow> set_next cells lifted ALLOC_LIST_HEAD;
       cells \<leftarrow> set_prev cells lifted al_head_prev;
       cells \<leftarrow> set_next cells al_head_prev lifted;
       cells \<leftarrow> set_prev cells ALLOC_LIST_HEAD lifted;
       Some (1, cells)
     }
   }"

definition dchain_impl_is_index_allocated :: "dchain_cell list \<Rightarrow> int \<Rightarrow> bool option" where
  "dchain_impl_is_index_allocated cells index = do {
     let lifted = index + INDEX_SHIFT;
     n \<leftarrow> get_next cells lifted;
     p \<leftarrow> get_prev cells lifted;
     Some (n \<noteq> p \<or> n = ALLOC_LIST_HEAD)
   }"

section \<open>The two lists in the cells\<close>

text \<open>\<open>lpath f x xs y\<close>: following the links \<open>f\<close> from \<open>x\<close> leads through the cells \<open>xs\<close> to \<open>y\<close>.\<close>

primrec lpath :: "(nat \<Rightarrow> int) \<Rightarrow> nat \<Rightarrow> nat list \<Rightarrow> nat \<Rightarrow> bool" where
  "lpath f x [] y \<longleftrightarrow> f x = int y"
| "lpath f x (z # zs) y \<longleftrightarrow> f x = int z \<and> lpath f z zs y"

lemma lpath_append [simp]: "lpath f x (as @ z # bs) y \<longleftrightarrow> lpath f x as z \<and> lpath f z bs y"
  by (induction as arbitrary: x) auto

lemma lpath_other [simp]: "u \<noteq> x \<Longrightarrow> u \<notin> set xs \<Longrightarrow> lpath (f(u := v)) x xs y = lpath f x xs y"
  by (induction xs arbitrary: x) auto

text \<open>Redirecting the last link.\<close>

lemma lpath_last:
  "lpath f x xs y \<Longrightarrow> distinct (x # xs) \<Longrightarrow> lpath (f(last (x # xs) := int z)) x xs z"
  by (induction xs arbitrary: x) auto

lemma lpath_end: "lpath f x xs y \<Longrightarrow> f (last (x # xs)) = int y"
  by (induction xs arbitrary: x) auto

lemma lpath_start: "lpath f x xs y \<Longrightarrow> x' \<notin> set xs \<Longrightarrow> lpath (f(x' := f x)) x' xs y"
  by (cases xs) auto

lemma lpath_bypass:
  "lpath f s as x \<Longrightarrow> lpath f x bs e \<Longrightarrow> distinct (s # as @ bs) \<Longrightarrow>
   lpath (f(last (s # as) := f x)) s (as @ bs) e"
proof (induction as arbitrary: s)
  case Nil
  then show ?case using lpath_start [of f x bs e s] by (simp add: fun_upd_def)
next
  case (Cons a as)
  have "last (a # as) \<noteq> s" using Cons.prems(3) last_in_set [of "a # as"] by auto
  then show ?case using Cons by auto
qed

lemma lpath_snoc:
  assumes "lpath f s xs e" "distinct (s # xs)" "x \<notin> set (s # xs)"
  shows "lpath (f(x := int e', last (s # xs) := int x)) s (xs @ [x]) e'"
proof -
  have "last (s # xs) \<noteq> x" using assms(3) last_in_set [of "s # xs"] by auto
  moreover have "lpath (f(x := int e')) s xs e" using assms by simp
  ultimately show ?thesis using lpath_last [OF _ assms(2)] by auto
qed

lemma lpath_cons:
  "lpath f s ys e \<Longrightarrow> x \<noteq> s \<Longrightarrow> x \<notin> set ys \<Longrightarrow> s \<notin> set ys \<Longrightarrow>
   lpath (f(x := f s, s := int x)) s (x # ys) e"
  using lpath_start [of f s ys e x] by simp

lemma lpath_first: "lpath f x xs y \<Longrightarrow> f x = int (hd (xs @ [y]))"
  by (cases xs) auto

lemma last_rev_hd: "last (s # rev bs) = hd (bs @ [s])"
  by (cases bs) auto

definition nxt :: "dchain_cell list \<Rightarrow> nat \<Rightarrow> int" where
  "nxt cells i = cell_next (cells ! i)"

definition prv :: "dchain_cell list \<Rightarrow> nat \<Rightarrow> int" where
  "prv cells i = cell_prev (cells ! i)"

text \<open>
  \<open>al\<close> is the list of the cells in use, oldest first, and \<open>fl\<close> the list of the free cells;
  stated of the two link functions.
\<close>

definition chains :: "(nat \<Rightarrow> int) \<Rightarrow> (nat \<Rightarrow> int) \<Rightarrow> nat list \<Rightarrow> nat list \<Rightarrow> bool" where
  "chains nx pv al fl \<longleftrightarrow>
     lpath nx 0 al 0 \<and> lpath pv 0 (rev al) 0 \<and>
     lpath nx 1 fl 1 \<and> (\<forall>x\<in>set (1 # fl). pv x = nx x) \<and>
     distinct (al @ fl) \<and> (\<forall>x\<in>set (al @ fl). 2 \<le> x)"

definition dchaini_lists :: "dchain_cell list \<Rightarrow> nat list \<Rightarrow> nat list \<Rightarrow> bool" where
  "dchaini_lists cells al fl \<longleftrightarrow>
     chains (nxt cells) (prv cells) al fl \<and>
     set (al @ fl) = {2..<length cells} \<and> 2 \<le> length cells"

text \<open>The abstraction: the cells represent the specification's value.\<close>

definition dchainip :: "dchaini \<Rightarrow> dchain_cell list \<Rightarrow> bool" where
  "dchainip ch cells \<longleftrightarrow>
     (\<exists>al fl. dchaini_lists cells al fl \<and> dchaini_alist_fp ch = map (\<lambda>x. int x - 2) al \<and>
        dchaini_irange_fp ch = int (length cells) - 2)"

subsection \<open>How each operation rearranges the lists\<close>

lemma chains_notin:
  assumes "chains nx pv al fl"
  shows "0 \<notin> set al" "1 \<notin> set al" "0 \<notin> set fl" "1 \<notin> set fl" "Suc 0 \<notin> set al" "Suc 0 \<notin> set fl"
proof -
  have "x \<notin> set al \<and> x \<notin> set fl" if "x < 2" for x
  proof -
    have "\<forall>y\<in>set (al @ fl). 2 \<le> y" using assms unfolding chains_def by blast
    then show ?thesis using that by (metis Un_iff leD set_append)
  qed
  from this [of 0] this [of 1]
  show "0 \<notin> set al" "1 \<notin> set al" "0 \<notin> set fl" "1 \<notin> set fl" "Suc 0 \<notin> set al" "Suc 0 \<notin> set fl"
    by simp_all
qed

lemma chains_last:
  assumes "chains nx pv al fl"
  shows "pv 0 = int (last (0 # al))"
  using assms lpath_first [of pv 0 "rev al" 0] by (simp add: chains_def hd_append hd_rev)

lemma chains_alloc:
  assumes ch: "chains nx pv al (z # fl)" and l: "l = last (0 # al)"
  shows "chains (nx(1 := nx z, z := 0, l := int z)) (pv(1 := nx z, z := int l, 0 := int z)) (al @ [z]) fl"
proof -
  note n = chains_notin [OF ch]
  have lin: "l \<in> set (0 # al)" unfolding l by (rule last_in_set) simp
  have z: "z \<notin> set al" "z \<notin> set fl" "2 \<le> z" "l \<noteq> z" "l \<noteq> 1" "l \<notin> set fl"
    using ch lin n by (auto simp: chains_def)
  have "lpath (nx(1 := nx z)) 0 al 0" using ch n by (simp add: chains_def)
  then have "lpath (nx(1 := nx z, z := int 0, l := int z)) 0 (al @ [z]) 0"
    unfolding l by (rule lpath_snoc) (use ch n z in \<open>auto simp: chains_def\<close>)
  moreover have "lpath (pv(1 := nx z, z := pv 0, 0 := int z)) 0 (z # rev al) 0"
    using ch n z lpath_cons [of "pv(1 := nx z)" 0 "rev al" 0 z] by (simp add: chains_def)
  moreover have "lpath (nx(1 := nx z)) 1 fl 1"
    by (rule lpath_start) (use ch n in \<open>auto simp: chains_def\<close>)
  ultimately show ?thesis
    using ch n z chains_last [OF ch] l by (auto simp: chains_def)
qed

lemma chains_remove:
  assumes ch: "chains nx pv (as @ x # bs) fl"
    and p: "p = last (0 # as)" and n: "n = hd (bs @ [0])"
  shows "nx x = int n" "pv x = int p"
    and "chains (nx(p := int n)) (pv(n := int p)) (as @ bs) fl"
proof -
  have paths: "lpath nx 0 as x" "lpath nx x bs 0" "lpath pv 0 (rev bs) x" "lpath pv x (rev as) 0"
    using ch by (simp_all add: chains_def)
  show nx: "nx x = int n" using lpath_first [OF paths(2)] n by simp
  show pv: "pv x = int p" using lpath_first [OF paths(4)] p by (simp add: hd_append hd_rev)
  have p_in: "p \<in> set (0 # as)" unfolding p by (rule last_in_set) simp
  have n_in: "n \<in> set (bs @ [0])" unfolding n by (rule hd_in_set) simp
  have dist: "distinct (0 # as @ bs)" "distinct (0 # rev bs @ rev as)"
    using ch chains_notin(1) [OF ch] by (auto simp: chains_def)
  have "lpath (nx(p := int n)) 0 (as @ bs) 0"
    using lpath_bypass [OF paths(1,2) dist(1)] nx p by simp
  moreover have "lpath (pv(n := int p)) 0 (rev bs @ rev as) 0"
    using lpath_bypass [OF paths(3,4) dist(2)] pv n by (simp add: last_rev_hd del: last.simps)
  moreover have "p \<notin> set (1 # fl)" "n \<notin> set (1 # fl)"
    using p_in n_in ch chains_notin [OF ch] by (auto simp: chains_def)
  ultimately show "chains (nx(p := int n)) (pv(n := int p)) (as @ bs) fl"
    using ch by (auto simp: chains_def)
qed

lemma chains_give_back:
  assumes ch: "chains nx pv al fl" and x: "x \<notin> set (al @ fl)" "2 \<le> x"
  shows "chains (nx(x := nx 1, 1 := int x)) (pv(x := nx 1, 1 := int x)) al (x # fl)"
proof -
  have "lpath (nx(x := nx 1, 1 := int x)) 1 (x # fl) 1"
    by (rule lpath_cons) (use ch x chains_notin [OF ch] in \<open>auto simp: chains_def\<close>)
  then show ?thesis
    using ch x chains_notin [OF ch] by (auto simp: chains_def)
qed

lemma chains_lift:
  assumes ch: "chains nx pv al fl" and x: "x \<notin> set (al @ fl)" "2 \<le> x" and l: "l = last (0 # al)"
  shows "chains (nx(x := 0, l := int x)) (pv(x := int l, 0 := int x)) (al @ [x]) fl"
proof -
  have lin: "l \<in> set (0 # al)" unfolding l by (rule last_in_set) simp
  have "lpath (nx(x := int 0, l := int x)) 0 (al @ [x]) 0"
    unfolding l by (rule lpath_snoc) (use ch x chains_notin [OF ch] in \<open>auto simp: chains_def\<close>)
  moreover have "lpath (pv(x := pv 0, 0 := int x)) 0 (x # rev al) 0"
    by (rule lpath_cons) (use ch x chains_notin [OF ch] in \<open>auto simp: chains_def\<close>)
  moreover have "l \<notin> set (1 # fl)" using lin ch chains_notin [OF ch] by (auto simp: chains_def)
  ultimately show ?thesis
    using ch x chains_notin [OF ch] chains_last [OF ch] l [symmetric] by (auto simp: chains_def simp del: last.simps)
qed

text \<open>How the code tells a cell in use from a free one.\<close>

lemma chains_used:
  assumes ch: "chains nx pv al fl" and x: "x \<in> set al"
  shows "nx x \<noteq> pv x \<or> nx x = 0" and "nx x = pv x \<longleftrightarrow> al = [x]"
proof -
  obtain as bs where al: "al = as @ x # bs" using x by (auto simp: in_set_conv_decomp)
  have "last (0 # as) \<in> set (0 # as)" by (rule last_in_set) simp
  moreover have "hd (bs @ [0]) \<in> set (bs @ [0])" by (rule hd_in_set) simp
  moreover have "last (0 # as) = 0 \<longleftrightarrow> as = []" "hd (bs @ [0]) = 0 \<longleftrightarrow> bs = []"
    using chains_notin(1) [OF ch] al by (cases as rule: rev_cases; cases bs; auto)+
  moreover have "set as \<inter> set bs = {}" "0 \<notin> set as" "0 \<notin> set bs"
    using ch al chains_notin(1) [OF ch] by (auto simp: chains_def)
  ultimately show "nx x \<noteq> pv x \<or> nx x = 0" "nx x = pv x \<longleftrightarrow> al = [x]"
    using chains_remove(1,2) [OF ch [unfolded al] refl refl] al
    by (auto simp del: last.simps simp: append_eq_Cons_conv)
qed

lemma chains_unused:
  assumes ch: "chains nx pv al fl" and x: "x \<in> set fl"
  shows "nx x = pv x" "nx x \<noteq> 0"
proof -
  obtain as bs where fl: "fl = as @ x # bs" using x by (auto simp: in_set_conv_decomp)
  have "lpath nx x bs 1" using ch fl by (simp add: chains_def)
  moreover have "hd (bs @ [1]) \<noteq> 0" using chains_notin(3) [OF ch] fl by (cases bs) auto
  ultimately show "nx x = pv x" "nx x \<noteq> 0"
    using lpath_first [of nx x bs 1] ch x by (auto simp: chains_def)
qed

subsection \<open>Symbolic execution of link updates\<close>

definition upd_next :: "dchain_cell list \<Rightarrow> nat \<Rightarrow> int \<Rightarrow> dchain_cell list" where
  "upd_next cells u v = cells[u := (cells ! u)\<lparr>cell_next := v\<rparr>]"

definition upd_prev :: "dchain_cell list \<Rightarrow> nat \<Rightarrow> int \<Rightarrow> dchain_cell list" where
  "upd_prev cells u v = cells[u := (cells ! u)\<lparr>cell_prev := v\<rparr>]"

named_theorems links "reading and writing the links of the cells"

lemma length_upd [links]: "length (upd_next cells u v) = length cells" "length (upd_prev cells u v) = length cells"
  by (simp_all add: upd_next_def upd_prev_def)

lemma nxt_upd_next [links]: "u < length cells \<Longrightarrow> nxt (upd_next cells u v) = (nxt cells)(u := v)"
  by (rule ext) (simp add: nxt_def upd_next_def nth_list_update)

lemma prv_upd_prev [links]: "u < length cells \<Longrightarrow> prv (upd_prev cells u v) = (prv cells)(u := v)"
  by (rule ext) (simp add: prv_def upd_prev_def nth_list_update)

lemma nxt_upd_prev [links]: "nxt (upd_prev cells u v) = nxt cells"
  by (rule ext) (cases "u < length cells", auto simp: nxt_def upd_prev_def nth_list_update list_update_beyond)

lemma prv_upd_next [links]: "prv (upd_next cells u v) = prv cells"
  by (rule ext) (cases "u < length cells", auto simp: prv_def upd_next_def nth_list_update list_update_beyond)

lemma get_next_in [links]: "u < length cells \<Longrightarrow> get_next cells (int u) = Some (nxt cells u)"
  by (simp add: get_next_def nxt_def)

lemma get_prev_in [links]: "u < length cells \<Longrightarrow> get_prev cells (int u) = Some (prv cells u)"
  by (simp add: get_prev_def prv_def)

lemma set_next_in [links]: "u < length cells \<Longrightarrow> set_next cells (int u) v = Some (upd_next cells u v)"
  by (simp add: set_next_def upd_next_def)

lemma set_prev_in [links]: "u < length cells \<Longrightarrow> set_prev cells (int u) v = Some (upd_prev cells u v)"
  by (simp add: set_prev_def upd_prev_def)

lemma heads: "ALLOC_LIST_HEAD = 0" "FREE_LIST_HEAD = 1" "INDEX_SHIFT = 2"
  by (simp_all add: ALLOC_LIST_HEAD_def FREE_LIST_HEAD_def INDEX_SHIFT_def DCHAIN_RESERVED_def)

lemma head_links [links]:
  assumes "2 \<le> length cells"
  shows "get_next cells 0 = Some (nxt cells 0)" "get_prev cells 0 = Some (prv cells 0)"
    "get_next cells 1 = Some (nxt cells 1)" "get_prev cells 1 = Some (prv cells 1)"
    "set_next cells 0 v = Some (upd_next cells 0 v)" "set_prev cells 0 v = Some (upd_prev cells 0 v)"
    "set_next cells 1 v = Some (upd_next cells 1 v)" "set_prev cells 1 v = Some (upd_prev cells 1 v)"
    "nxt (upd_next cells 0 v) = (nxt cells)(0 := v)" "prv (upd_prev cells 0 v) = (prv cells)(0 := v)"
proof -
  have "0 < length cells" "1 < length cells" using assms by linarith+
  then show "get_next cells 0 = Some (nxt cells 0)" "get_prev cells 0 = Some (prv cells 0)"
    "get_next cells 1 = Some (nxt cells 1)" "get_prev cells 1 = Some (prv cells 1)"
    "set_next cells 0 v = Some (upd_next cells 0 v)" "set_prev cells 0 v = Some (upd_prev cells 0 v)"
    "set_next cells 1 v = Some (upd_next cells 1 v)" "set_prev cells 1 v = Some (upd_prev cells 1 v)"
    "nxt (upd_next cells 0 v) = (nxt cells)(0 := v)" "prv (upd_prev cells 0 v) = (prv cells)(0 := v)"
    by (simp_all only: get_next_in [of 0, simplified] get_prev_in [of 0, simplified]
        get_next_in [of 1, simplified] get_prev_in [of 1, simplified] set_next_in [of 0, simplified]
        set_prev_in [of 0, simplified] set_next_in [of 1, simplified] set_prev_in [of 1, simplified]
        nxt_upd_next prv_upd_prev length_greater_0_conv One_nat_def not_False_eq_True)
qed

subsection \<open>The operations on the two linked lists\<close>

lemma dchaini_lists_ok:
  assumes "dchaini_lists cells al fl"
  shows "chains (nxt cells) (prv cells) al fl" "2 \<le> length cells"
    "\<And>x. x \<in> set al \<Longrightarrow> x < length cells" "\<And>x. x \<in> set fl \<Longrightarrow> x < length cells"
    "\<And>x. x \<in> set al \<Longrightarrow> 2 \<le> x" "\<And>x. x \<in> set fl \<Longrightarrow> 2 \<le> x"
    "length al + length fl = length cells - 2"
    "last (0 # al) < length cells"
proof -
  show ch: "chains (nxt cells) (prv cells) al fl" and l: "2 \<le> length cells"
    using assms by (simp_all add: dchaini_lists_def)
  have s: "set (al @ fl) = {2..<length cells}" using assms by (simp add: dchaini_lists_def)
  show "x < length cells" "2 \<le> x" if "x \<in> set al" for x
    using s that by auto
  show "x < length cells" "2 \<le> x" if "x \<in> set fl" for x
    using s that by auto
  show "length al + length fl = length cells - 2"
    using distinct_card [of "al @ fl"] s ch by (simp add: chains_def)
  show "last (0 # al) < length cells"
    using s l last_in_set [of al] by (auto)
qed

lemma dchain_impl_allocate_lists:
  assumes "dchaini_lists cells al (z # fl)"
  shows "\<exists>cells'. dchain_impl_allocate_new_index cells i = Some (1, cells', int z - 2) \<and>
    dchaini_lists cells' (al @ [z]) fl \<and> length cells' = length cells"
proof -
  note ok = dchaini_lists_ok [OF assms]
  let ?l = "last (0 # al)"
  have z: "z < length cells" "2 \<le> z" using ok by auto
  have "nxt cells 1 = int z" using ok(1) by (simp add: chains_def)
  moreover have "prv cells 0 = int ?l" by (rule chains_last [OF ok(1)])
  moreover have "chains ((nxt cells)(1 := nxt cells z, z := 0, ?l := int z))
    ((prv cells)(1 := nxt cells z, z := int ?l, 0 := int z)) (al @ [z]) fl"
    by (rule chains_alloc [OF ok(1) refl])
  ultimately show ?thesis
    using z ok(2,8) assms
    by (simp add: dchain_impl_allocate_new_index_def heads links dchaini_lists_def del: last.simps)
qed

lemma dchain_impl_allocate_full:
  assumes "dchaini_lists cells al []"
  shows "dchain_impl_allocate_new_index cells i = Some (0, cells, i)"
  using dchaini_lists_ok(1,2) [OF assms]
  by (simp add: dchain_impl_allocate_new_index_def heads links chains_def)

lemma dchain_impl_free_lists:
  assumes "dchaini_lists cells (as @ x # bs) fl"
  shows "\<exists>cells'. dchain_impl_free_index cells (int x - 2) = Some (1, cells') \<and>
    dchaini_lists cells' (as @ bs) (x # fl) \<and> length cells' = length cells"
proof -
  note ok = dchaini_lists_ok [OF assms]
  define p where "p = last (0 # as)"
  define n where "n = hd (bs @ [0])"
  note rem = chains_remove [OF ok(1) p_def n_def]
  have x: "x < length cells" "2 \<le> x" using ok by auto
  have "x \<notin> set ((as @ bs) @ fl)" using ok(1) by (auto simp: chains_def)
  note ch = chains_give_back [OF rem(3) this x(2)]
  have "p \<in> set (0 # as)" unfolding p_def by (rule last_in_set) simp
  then have p: "p < length cells" "p \<noteq> 1" "p \<noteq> x"
    using ok(2) ok(3) [of p] x chains_notin [OF ok(1)] ok(1) by (auto simp: chains_def)
  have n: "n < length cells"
    using ok(2,3) hd_in_set [of bs] by (auto simp: n_def hd_append)
  show ?thesis
    using x p n rem(1,2) ok(2) ch assms
    by (auto simp: dchain_impl_free_index_def heads links dchaini_lists_def Let_def)
qed

lemma dchain_impl_rejuvenate_lists:
  assumes "dchaini_lists cells (as @ x # bs) fl"
  shows "\<exists>cells'. dchain_impl_rejuvenate_index cells (int x - 2) = Some (1, cells') \<and>
    dchaini_lists cells' (as @ bs @ [x]) fl \<and> length cells' = length cells"
proof (cases "as @ x # bs = [x]")
  case True
  note ok = dchaini_lists_ok [OF assms]
  have x: "x < length cells" "2 \<le> x" using ok by auto
  have "nxt cells x = prv cells x" using chains_used(2) [OF ok(1), of x] True by simp
  moreover have "nxt cells x = 0" using chains_used(1) [OF ok(1), of x] calculation by simp
  ultimately show ?thesis
    using x assms True
    by (auto simp: dchain_impl_rejuvenate_index_def heads links append_eq_Cons_conv)
next
  case False
  note ok = dchaini_lists_ok [OF assms]
  define p where "p = last (0 # as)"
  define n where "n = hd (bs @ [0])"
  define l where "l = last (0 # as @ bs)"
  note rem = chains_remove [OF ok(1) p_def n_def]
  have x: "x < length cells" "2 \<le> x" using ok by auto
  have "x \<notin> set ((as @ bs) @ fl)" using ok(1) by (auto simp: chains_def)
  note ch = chains_lift [OF rem(3) this x(2) l_def]
  have pn: "p \<noteq> n" using chains_used(2) [OF ok(1), of x] False rem(1,2) by simp
  have p: "p < length cells" "n < length cells" "l < length cells"
    using ok(2,3) last_in_set [of as] hd_in_set [of bs] last_in_set [of "as @ bs"]
    by (auto simp: p_def n_def l_def hd_append split: if_splits)
  have l: "((prv cells)(n := int p)) 0 = int l"
    using chains_last [OF rem(3)] l_def by simp
  show ?thesis
    using x p pn rem(1,2) ok(2) ch l assms
    by (auto simp: dchain_impl_rejuvenate_index_def heads links dchaini_lists_def Let_def
        simp del: fun_upd_apply)
qed

lemma dchain_impl_rejuvenate_free:
  assumes "dchaini_lists cells al fl" "x \<in> set fl"
  shows "dchain_impl_rejuvenate_index cells (int x - 2) = Some (0, cells)"
proof -
  note ok = dchaini_lists_ok [OF assms(1)]
  show ?thesis
    using chains_unused [OF ok(1) assms(2)] ok(4) [OF assms(2)] ok(6) [OF assms(2)]
    by (simp add: dchain_impl_rejuvenate_index_def heads links)
qed

lemma dchain_impl_is_allocated_lists:
  assumes "dchaini_lists cells al fl" "2 \<le> x" "x < length cells"
  shows "dchain_impl_is_index_allocated cells (int x - 2) = Some (x \<in> set al)"
proof -
  note ok = dchaini_lists_ok [OF assms(1)]
  have "x \<in> set al \<or> x \<in> set fl" using assms by (auto simp: dchaini_lists_def)
  moreover have "x \<notin> set al" if "x \<in> set fl" using that ok(1) by (auto simp: chains_def)
  ultimately show ?thesis
    using chains_unused [OF ok(1), of x] chains_used(1) [OF ok(1), of x] assms(3)
    by (auto simp: dchain_impl_is_index_allocated_def heads links)
qed

lemma dchain_impl_oldest_lists:
  assumes "dchaini_lists cells al fl"
  shows "dchain_impl_get_oldest_index cells i = Some (if al = [] then (0, i) else (1, int (hd al) - 2))"
proof -
  note ok = dchaini_lists_ok [OF assms]
  have "nxt cells 0 = int (hd (al @ [0]))"
    using lpath_first [of "nxt cells" 0 al 0] ok(1) by (simp add: chains_def)
  moreover have "hd al \<noteq> 0" if "al \<noteq> []" using that ok(5) [of "hd al"] by auto
  ultimately show ?thesis
    using ok(2) by (auto simp: dchain_impl_get_oldest_index_def heads links hd_append)
qed

lemma dchain_impl_init_loop_spec:
  assumes "length cells = n + 2" "2 \<le> k" "k \<le> n + 1"
  shows "\<exists>cells'. dchain_impl_init_loop cells (int n) (int k) = Some (cells', int (n + 1)) \<and>
    length cells' = length cells \<and>
    nxt cells' = (\<lambda>x. if k \<le> x \<and> x \<le> n then int x + 1 else nxt cells x) \<and>
    prv cells' = (\<lambda>x. if k \<le> x \<and> x \<le> n then int x + 1 else prv cells x)"
  using assms(3,1,2)
proof (induction arbitrary: cells rule: inc_induct)
  case base
  then show ?case by (subst dchain_impl_init_loop.simps) (auto simp: heads)
next
  case (step k)
  let ?c = "upd_prev (upd_next cells k (int k + 1)) k (int k + 1)"
  have k: "k < length cells" using step by simp
  have nx: "nxt ?c = (nxt cells)(k := int k + 1)" "prv ?c = (prv cells)(k := int k + 1)"
    using k by (simp_all add: links)
  have "dchain_impl_init_loop cells (int n) (int k) = dchain_impl_init_loop ?c (int n) (int (Suc k))"
    using k step.hyps by (subst dchain_impl_init_loop.simps) (simp add: heads links add.commute)
  moreover obtain cells' where "dchain_impl_init_loop ?c (int n) (int (Suc k)) = Some (cells', int (n + 1))"
    "length cells' = length ?c"
    "nxt cells' = (\<lambda>x. if Suc k \<le> x \<and> x \<le> n then int x + 1 else nxt ?c x)"
    "prv cells' = (\<lambda>x. if Suc k \<le> x \<and> x \<le> n then int x + 1 else prv ?c x)"
    using step.IH [of ?c] step.prems step.hyps by (auto simp: links)
  moreover have "(\<lambda>x. if Suc k \<le> x \<and> x \<le> n then int x + 1 else (f(k := int k + 1)) x)
    = (\<lambda>x. if k \<le> x \<and> x \<le> n then int x + 1 else f x)" for f :: "nat \<Rightarrow> int"
    using step.hyps by auto
  ultimately show ?case
    unfolding nx by (auto simp: length_upd)
qed

lemma lpath_upt:
  assumes "a \<le> b" "f s = int a" "\<And>x. a \<le> x \<Longrightarrow> x < b \<Longrightarrow> f x = int x + 1" "f b = int e"
  shows "lpath f s [a..<Suc b] e"
  using assms
proof (induction arbitrary: s rule: inc_induct)
  case base
  then show ?case by simp
next
  case (step a)
  have "lpath f a [Suc a..<Suc b] e" by (rule step.IH) (use step in auto)
  then show ?case using step by (simp add: upt_conv_Cons)
qed

lemma dchain_impl_init_lists:
  assumes "length cells = n + 2" "0 < n"
  shows "\<exists>cells'. dchain_impl_init cells (int n) = Some cells' \<and>
    dchaini_lists cells' [] [2..<n + 2] \<and> length cells' = length cells"
proof -
  let ?c = "upd_prev (upd_next (upd_next (upd_prev cells 0 0) 0 0) 1 2) 1 2"
  obtain cells' where c': "dchain_impl_init_loop ?c (int n) (int 2) = Some (cells', int (n + 1))"
    "length cells' = length ?c"
    "nxt cells' = (\<lambda>x. if 2 \<le> x \<and> x \<le> n then int x + 1 else nxt ?c x)"
    "prv cells' = (\<lambda>x. if 2 \<le> x \<and> x \<le> n then int x + 1 else prv ?c x)"
    using dchain_impl_init_loop_spec [of ?c n 2] assms by (auto simp: links)
  let ?r = "upd_prev (upd_next cells' (n + 1) 1) (n + 1) 1"
  have len: "2 \<le> length cells" "length cells' = length cells" using assms c'(2) by (simp_all add: links)
  have init: "dchain_impl_init cells (int n) = Some ?r"
    using len c'(1) assms set_next_in [of "n + 1" cells' 1] get_next_in [of "n + 1" "upd_next cells' (n + 1) 1"]
      set_prev_in [of "n + 1" "upd_next cells' (n + 1) 1" 1]
    by (simp add: dchain_impl_init_def heads links)
  have r: "nxt ?r = (nxt cells')(n + 1 := 1)" "prv ?r = (prv cells')(n + 1 := 1)"
    using len assms by (simp_all add: links)
  have c: "nxt ?c 0 = 0" "prv ?c 0 = 0" "nxt ?c 1 = 2" "prv ?c 1 = 2"
    using len by (simp_all add: links)
  have "lpath (nxt ?r) 1 [2..<Suc (n + 1)] 1"
    unfolding r c'(3) by (rule lpath_upt) (use assms c in auto)
  moreover have "prv ?r x = nxt ?r x" if "1 \<le> x" "x < n + 2" for x
    unfolding r c'(3,4) using that c by (cases "x = 1") auto
  moreover have "nxt ?r 0 = 0" "prv ?r 0 = 0" unfolding r c'(3,4) using c by simp_all
  ultimately have "chains (nxt ?r) (prv ?r) [] [2..<n + 2]"
    unfolding chains_def by simp
  then show ?thesis
    using init assms len by (auto simp: dchaini_lists_def links)
qed

section \<open>The operations implement the specification\<close>

lemma dchainip_facts:
  assumes "dchainip ch cells"
  shows "dchaini_irange_fp ch = int (length cells) - 2" "distinct (dchaini_alist_fp ch)"
    "dchaini_allocated_fp ch i \<Longrightarrow> 0 \<le> i \<and> i < dchaini_irange_fp ch"
    "0 \<le> dchaini_irange_fp ch" "int (length (dchaini_alist_fp ch)) \<le> dchaini_irange_fp ch"
proof -
  obtain al fl where l: "dchaini_lists cells al fl" and a: "dchaini_alist_fp ch = map (\<lambda>x. int x - 2) al"
    and r: "dchaini_irange_fp ch = int (length cells) - 2"
    using assms by (auto simp: dchainip_def)
  note ok = dchaini_lists_ok [OF l]
  show "dchaini_irange_fp ch = int (length cells) - 2" "0 \<le> dchaini_irange_fp ch"
    using r ok(2) by simp_all
  show "distinct (dchaini_alist_fp ch)"
    using ok(1) by (auto simp: a chains_def distinct_map inj_on_def)
  show "0 \<le> i \<and> i < dchaini_irange_fp ch" if "dchaini_allocated_fp ch i"
    using that r ok(3,5) by (auto simp: dchaini_allocated_fp_def a)
  show "int (length (dchaini_alist_fp ch)) \<le> dchaini_irange_fp ch"
    using ok(2,7) r a by simp
qed

lemma dchainip_decomp:
  assumes "dchainip ch cells" "dchaini_allocated_fp ch i"
  obtains x as bs fl where "i = int x - 2" "dchaini_lists cells (as @ x # bs) fl"
    "dchaini_alist_fp ch = map (\<lambda>x. int x - 2) (as @ x # bs)"
    "remove1 i (dchaini_alist_fp ch) = map (\<lambda>x. int x - 2) (as @ bs)"
proof -
  obtain al fl where l: "dchaini_lists cells al fl" and a: "dchaini_alist_fp ch = map (\<lambda>x. int x - 2) al"
    using assms by (auto simp: dchainip_def)
  obtain x where x: "x \<in> set al" "i = int x - 2" using assms(2) a by (auto simp: dchaini_allocated_fp_def)
  then obtain as bs where al: "al = as @ x # bs" by (auto simp: in_set_conv_decomp)
  have "i \<notin> set (map (\<lambda>x. int x - 2) as)"
    using dchainip_facts(2) [OF assms(1)] x(2) by (simp add: a al)
  then have "remove1 i (dchaini_alist_fp ch) = map (\<lambda>x. int x - 2) (as @ bs)"
    using x(2) by (simp add: a al remove1_append)
  then show ?thesis using that l x(2) a al by blast
qed

lemma dchain_impl_init_correct:
  assumes "length cells = n + 2" "0 < n"
  shows "\<exists>cells'. dchain_impl_init cells (int n) = Some cells' \<and>
    dchainip (empty_dchaini_fp (int n)) cells' \<and> length cells' = length cells"
proof -
  obtain cells' where c: "dchain_impl_init cells (int n) = Some cells'"
    "dchaini_lists cells' [] [2..<n + 2]" "length cells' = length cells"
    using dchain_impl_init_lists [OF assms] by auto
  have "dchainip (empty_dchaini_fp (int n)) cells'"
    unfolding dchainip_def
    by (rule exI [of _ "[]"], rule exI [of _ "[2..<n + 2]"]) (use c assms in \<open>simp add: empty_dchaini_fp_def\<close>)
  then show ?thesis using c by blast
qed

lemma dchain_impl_allocate_new_index_correct:
  assumes "dchainip ch cells" "\<not> dchaini_out_of_space_fp ch"
  shows "\<exists>cells' idx. dchain_impl_allocate_new_index cells index = Some (1, cells', idx) \<and>
    \<not> dchaini_allocated_fp ch idx \<and> 0 \<le> idx \<and> idx < dchaini_irange_fp ch \<and>
    dchainip (dchaini_allocate_fp ch idx) cells' \<and> length cells' = length cells"
proof -
  obtain al fl where l: "dchaini_lists cells al fl" and a: "dchaini_alist_fp ch = map (\<lambda>x. int x - 2) al"
    and r: "dchaini_irange_fp ch = int (length cells) - 2"
    using assms by (auto simp: dchainip_def)
  note ok = dchaini_lists_ok [OF l]
  have "fl \<noteq> []" using assms(2) ok(2,7) r a by (auto simp: dchaini_out_of_space_fp_def)
  then obtain z fl' where fl: "fl = z # fl'" by (cases fl) auto
  obtain cells' where c: "dchain_impl_allocate_new_index cells index = Some (1, cells', int z - 2)"
    "dchaini_lists cells' (al @ [z]) fl'" "length cells' = length cells"
    using dchain_impl_allocate_lists [OF l [unfolded fl]] by blast
  have z: "2 \<le> z" "z < length cells" "z \<notin> set al" using ok(1,4,6) fl by (auto simp: chains_def)
  have "dchainip (dchaini_allocate_fp ch (int z - 2)) cells'"
    unfolding dchainip_def
    by (rule exI [of _ "al @ [z]"], rule exI [of _ fl']) (use c a r in \<open>simp add: dchaini_allocate_fp_def\<close>)
  moreover have "\<not> dchaini_allocated_fp ch (int z - 2)"
    using z by (auto simp: dchaini_allocated_fp_def a)
  ultimately show ?thesis using c z r by force
qed

lemma dchain_impl_allocate_new_index_full:
  assumes "dchainip ch cells" "dchaini_out_of_space_fp ch"
  shows "dchain_impl_allocate_new_index cells index = Some (0, cells, index)"
proof -
  obtain al fl where l: "dchaini_lists cells al fl" and a: "dchaini_alist_fp ch = map (\<lambda>x. int x - 2) al"
    and r: "dchaini_irange_fp ch = int (length cells) - 2"
    using assms by (auto simp: dchainip_def)
  have "length fl = 0" using assms(2) dchaini_lists_ok(2,7) [OF l] r a
    unfolding dchaini_out_of_space_fp_def by (simp only: length_map)
  then have "fl = []" by simp
  then show ?thesis using dchain_impl_allocate_full l by blast
qed

lemma dchain_impl_free_index_correct:
  assumes "dchainip ch cells" "dchaini_allocated_fp ch index"
  shows "\<exists>cells'. dchain_impl_free_index cells index = Some (1, cells') \<and>
    dchainip (dchaini_remove_fp ch index) cells' \<and> length cells' = length cells"
proof -
  obtain x as bs fl where d: "index = int x - 2" "dchaini_lists cells (as @ x # bs) fl"
    "remove1 index (dchaini_alist_fp ch) = map (\<lambda>x. int x - 2) (as @ bs)"
    using dchainip_decomp [OF assms] by metis
  obtain cells' where c: "dchain_impl_free_index cells index = Some (1, cells')"
    "dchaini_lists cells' (as @ bs) (x # fl)" "length cells' = length cells"
    using dchain_impl_free_lists [OF d(2)] d(1) by blast
  have "dchainip (dchaini_remove_fp ch index) cells'"
    unfolding dchainip_def
    by (rule exI [of _ "as @ bs"], rule exI [of _ "x # fl"])
       (use c d dchainip_facts(1) [OF assms(1)] in \<open>simp add: dchaini_remove_fp_def\<close>)
  then show ?thesis using c by blast
qed

lemma dchain_impl_rejuvenate_index_correct:
  assumes "dchainip ch cells" "dchaini_allocated_fp ch index"
  shows "\<exists>cells'. dchain_impl_rejuvenate_index cells index = Some (1, cells') \<and>
    dchainip (dchaini_rejuvenate_fp ch index) cells' \<and> length cells' = length cells"
proof -
  obtain x as bs fl where d: "index = int x - 2" "dchaini_lists cells (as @ x # bs) fl"
    "remove1 index (dchaini_alist_fp ch) = map (\<lambda>x. int x - 2) (as @ bs)"
    using dchainip_decomp [OF assms] by metis
  obtain cells' where c: "dchain_impl_rejuvenate_index cells index = Some (1, cells')"
    "dchaini_lists cells' (as @ bs @ [x]) fl" "length cells' = length cells"
    using dchain_impl_rejuvenate_lists [OF d(2)] d(1) by blast
  have "dchainip (dchaini_rejuvenate_fp ch index) cells'"
    unfolding dchainip_def
    by (rule exI [of _ "as @ bs @ [x]"], rule exI [of _ "fl"])
       (use c d dchainip_facts(1) [OF assms(1)] in \<open>simp add: dchaini_rejuvenate_fp_def\<close>)
  then show ?thesis using c by blast
qed

lemma dchainip_free_cell:
  assumes "dchainip ch cells" "0 \<le> i" "i < dchaini_irange_fp ch"
  obtains al fl x where "dchaini_lists cells al fl" "i = int x - 2" "2 \<le> x" "x < length cells"
    "dchaini_allocated_fp ch i \<longleftrightarrow> x \<in> set al" "\<not> dchaini_allocated_fp ch i \<longleftrightarrow> x \<in> set fl"
proof -
  obtain al fl where l: "dchaini_lists cells al fl" and a: "dchaini_alist_fp ch = map (\<lambda>x. int x - 2) al"
    and r: "dchaini_irange_fp ch = int (length cells) - 2"
    using assms by (auto simp: dchainip_def)
  let ?x = "nat (i + 2)"
  have x: "i = int ?x - 2" "2 \<le> ?x" "?x < length cells" using assms r by auto
  have al: "dchaini_allocated_fp ch i \<longleftrightarrow> ?x \<in> set al"
  proof
    assume "?x \<in> set al"
    then have "(\<lambda>x. int x - 2) ?x \<in> (\<lambda>x. int x - 2) ` set al" by (rule imageI)
    then show "dchaini_allocated_fp ch i" unfolding dchaini_allocated_fp_def a set_map x(1) [symmetric] .
  qed (auto simp: dchaini_allocated_fp_def a)
  have "?x \<in> set (al @ fl)" using l x by (simp add: dchaini_lists_def)
  moreover have "set al \<inter> set fl = {}" using l by (auto simp: dchaini_lists_def chains_def)
  ultimately have "\<not> dchaini_allocated_fp ch i \<longleftrightarrow> ?x \<in> set fl" using al by auto
  then show ?thesis using that l x al by blast
qed

lemma dchain_impl_rejuvenate_index_unallocated:
  assumes "dchainip ch cells" "0 \<le> index" "index < dchaini_irange_fp ch" "\<not> dchaini_allocated_fp ch index"
  shows "dchain_impl_rejuvenate_index cells index = Some (0, cells)"
  by (rule dchainip_free_cell [OF assms(1,2,3)]) (use dchain_impl_rejuvenate_free assms(4) in blast)

lemma dchain_impl_is_index_allocated_correct:
  assumes "dchainip ch cells" "0 \<le> index" "index < dchaini_irange_fp ch"
  shows "dchain_impl_is_index_allocated cells index = Some (dchaini_allocated_fp ch index)"
  by (rule dchainip_free_cell [OF assms]) (simp add: dchain_impl_is_allocated_lists)

lemma dchain_impl_get_oldest_index_correct:
  assumes "dchainip ch cells"
  shows "dchain_impl_get_oldest_index cells index =
    Some (if dchaini_is_empty_fp ch then (0, index) else (1, dchaini_get_oldest_index_fp ch))"
proof -
  obtain al fl where l: "dchaini_lists cells al fl" and a: "dchaini_alist_fp ch = map (\<lambda>x. int x - 2) al"
    using assms by (auto simp: dchainip_def)
  show ?thesis
    using dchain_impl_oldest_lists [OF l]
    by (simp add: dchaini_is_empty_fp_def dchaini_get_oldest_index_fp_def a hd_map)
qed

section \<open>Properties\<close>

text \<open>The initial state of two indexes, and the state after one allocation.\<close>

definition two_free :: "dchain_cell list" where
  "two_free = [\<lparr>cell_prev = 0, cell_next = 0\<rparr>, \<lparr>cell_prev = 2, cell_next = 2\<rparr>,
     \<lparr>cell_prev = 3, cell_next = 3\<rparr>, \<lparr>cell_prev = 1, cell_next = 1\<rparr>]"

definition one_used :: "dchain_cell list" where
  "one_used = [\<lparr>cell_prev = 2, cell_next = 2\<rparr>, \<lparr>cell_prev = 3, cell_next = 3\<rparr>,
     \<lparr>cell_prev = 0, cell_next = 0\<rparr>, \<lparr>cell_prev = 1, cell_next = 1\<rparr>]"

lemma two_free_ip: "dchainip (empty_dchaini_fp 2) two_free"
  unfolding dchainip_def dchaini_lists_def chains_def
  by (rule exI [of _ "[]"], rule exI [of _ "[2, 3]"])
    (auto simp: two_free_def nxt_def prv_def empty_dchaini_fp_def)

lemma one_used_ip: "dchainip \<lparr>dchaini_alist_fp = [0], dchaini_irange_fp = 2\<rparr> one_used"
  unfolding dchainip_def dchaini_lists_def chains_def
  by (rule exI [of _ "[2]"], rule exI [of _ "[3]"]) (auto simp: one_used_def nxt_def prv_def)

text \<open>
  \<open>dchain_impl_init\<close> turns any block of cells into a representation of the empty allocator, with
  every index free.
\<close>

lemma dchain_impl_init_refines:
  assumes "length cells = n + 2" "0 < n"
  shows "\<exists>cells'. dchain_impl_init cells (int n) = Some cells' \<and>
    dchainip (empty_dchaini_fp (int n)) cells' \<and> length cells' = length cells"
  by (rule dchain_impl_init_correct [OF assms])

text \<open>
  \<open>dchain_impl_allocate_new_index\<close> implements its contract: out of space it returns 0 and changes
  nothing; otherwise it returns an index in range that was not allocated and appends it to the list
  of used indexes.
\<close>

lemma dchain_impl_allocate_refines:
  assumes "dchainip ch cells"
  shows "if dchaini_out_of_space_fp ch
    then dchain_impl_allocate_new_index cells index = Some (0, cells, index)
    else \<exists>cells' idx. dchain_impl_allocate_new_index cells index = Some (1, cells', idx) \<and>
      \<not> dchaini_allocated_fp ch idx \<and> 0 \<le> idx \<and> idx < dchaini_irange_fp ch \<and>
      dchainip (dchaini_allocate_fp ch idx) cells' \<and> length cells' = length cells"
  using dchain_impl_allocate_new_index_correct [OF assms] dchain_impl_allocate_new_index_full [OF assms] by simp

text \<open>
  \<open>dchain_impl_free_index\<close> of an allocated index returns 1 and removes exactly that index from the
  list of used indexes, keeping the order of the others.
\<close>

lemma dchain_impl_free_refines:
  assumes "dchainip ch cells" "dchaini_allocated_fp ch index"
  shows "\<exists>cells'. dchain_impl_free_index cells index = Some (1, cells') \<and>
    dchainip (dchaini_remove_fp ch index) cells' \<and> length cells' = length cells"
  by (rule dchain_impl_free_index_correct [OF assms])

text \<open>
  The contract of \<open>dchain_impl_free_index\<close> promises 0 and an unchanged allocator for an index that
  is not allocated. The code returns 1 and relinks: after freeing the free index 0 of a fresh
  allocator, two allocations in a row hand out the same index.
\<close>

lemma dchain_impl_free_unallocated_corrupts:
  "\<exists>cells cells' cells''. \<not> dchaini_allocated_fp (empty_dchaini_fp 2) 0 \<and>
    dchain_impl_free_index two_free 0 = Some (1, cells) \<and>
    dchain_impl_allocate_new_index cells 9 = Some (1, cells', 0) \<and>
    dchain_impl_allocate_new_index cells' 9 = Some (1, cells'', 0)"
  by (simp add: dchaini_allocated_fp_def empty_dchaini_fp_def dchain_impl_free_index_def
      dchain_impl_allocate_new_index_def heads two_free_def get_next_def get_prev_def set_next_def set_prev_def
      Let_def rd_def wr_def)

text \<open>
  \<open>dchain_impl_rejuvenate_index\<close> moves an allocated index to the young end of the list and returns
  1; for an index in range that is not allocated it returns 0 and changes nothing.
\<close>

lemma dchain_impl_rejuvenate_refines:
  assumes "dchainip ch cells" "0 \<le> index" "index < dchaini_irange_fp ch"
  shows "if dchaini_allocated_fp ch index
    then \<exists>cells'. dchain_impl_rejuvenate_index cells index = Some (1, cells') \<and>
      dchainip (dchaini_rejuvenate_fp ch index) cells'
    else dchain_impl_rejuvenate_index cells index = Some (0, cells)"
  using dchain_impl_rejuvenate_index_correct [OF assms(1)] dchain_impl_rejuvenate_index_unallocated [OF assms]
  by auto

text \<open>
  \<open>dchain_impl_get_oldest_index\<close> and \<open>dchain_impl_is_index_allocated\<close> read the list of used
  indexes: the oldest one if there is one, and membership for any index in range.
\<close>

lemma dchain_impl_queries_refine:
  assumes "dchainip ch cells" "0 \<le> index" "index < dchaini_irange_fp ch"
  shows "dchain_impl_is_index_allocated cells index = Some (dchaini_allocated_fp ch index) \<and>
    dchain_impl_get_oldest_index cells out =
      Some (if dchaini_is_empty_fp ch then (0, out) else (1, dchaini_get_oldest_index_fp ch))"
  using dchain_impl_is_index_allocated_correct [OF assms] dchain_impl_get_oldest_index_correct [OF assms(1)]
  by blast

end
