(* ===== verification/DoubleChain.thy ===== *)
theory DoubleChain
  imports DchainImpl
begin

text \<open>
  The allocator of expiring indexes of \<open>dpdk-nfs/nf/lib/containers/double-chain.c\<close>: the index
  allocator of \<open>DchainImpl\<close> together with a time stamp per index. The specification functions of
  \<open>double-chain.h\<close> come first, then the code and the proof that it implements them; the locale
  \<open>expiring_index\<close> is the contract that the users of the allocator rely on.
\<close>

section \<open>The specification of the header\<close>

record dchain =
  dchain_alist_fp :: "(int \<times> int) list"
  dchain_index_range_fp :: int
  dchain_low_fp :: int
  dchain_high_fp :: int

definition empty_dchain_fp :: "int \<Rightarrow> int \<Rightarrow> dchain" where
  "empty_dchain_fp index_range low =
     \<lparr>dchain_alist_fp = [], dchain_index_range_fp = index_range, dchain_low_fp = low, dchain_high_fp = low\<rparr>"

definition dchain_out_of_space_fp :: "dchain \<Rightarrow> bool" where
  "dchain_out_of_space_fp ch \<longleftrightarrow> dchain_index_range_fp ch \<le> int (length (dchain_alist_fp ch))"

definition dchain_indexes_fp :: "dchain \<Rightarrow> int list" where
  "dchain_indexes_fp ch = map fst (dchain_alist_fp ch)"

definition same_index :: "int \<Rightarrow> int \<times> int \<Rightarrow> bool" where
  "same_index i b \<longleftrightarrow> i = fst b"

definition dchain_allocated_fp :: "dchain \<Rightarrow> int \<Rightarrow> bool" where
  "dchain_allocated_fp ch index \<longleftrightarrow> list_ex (same_index index) (dchain_alist_fp ch)"

definition dchain_allocate_fp :: "dchain \<Rightarrow> int \<Rightarrow> int \<Rightarrow> dchain" where
  "dchain_allocate_fp ch index t =
     ch\<lparr>dchain_alist_fp := dchain_alist_fp ch @ [(index, t)], dchain_high_fp := t\<rparr>"

fun remove_by_index_fp :: "(int \<times> int) list \<Rightarrow> int \<Rightarrow> (int \<times> int) list" where
  "remove_by_index_fp [] i = []"
| "remove_by_index_fp (h # t) i = (if fst h = i then t else h # remove_by_index_fp t i)"

definition dchain_rejuvenate_fp :: "dchain \<Rightarrow> int \<Rightarrow> int \<Rightarrow> dchain" where
  "dchain_rejuvenate_fp ch index time =
     ch\<lparr>dchain_alist_fp := remove_by_index_fp (dchain_alist_fp ch) index @ [(index, time)],
        dchain_high_fp := time\<rparr>"

fun alist_get_fp :: "(int \<times> int) list \<Rightarrow> int \<Rightarrow> int" where
  "alist_get_fp [] i = undefined"
| "alist_get_fp (h # t) i = (if fst h = i then snd h else alist_get_fp t i)"

definition dchain_get_time_fp :: "dchain \<Rightarrow> int \<Rightarrow> int" where
  "dchain_get_time_fp ch index = alist_get_fp (dchain_alist_fp ch) index"

definition dchain_is_empty_fp :: "dchain \<Rightarrow> bool" where
  "dchain_is_empty_fp ch \<longleftrightarrow> dchain_alist_fp ch = []"

definition dchain_get_oldest_index_fp :: "dchain \<Rightarrow> int" where
  "dchain_get_oldest_index_fp ch = fst (hd (dchain_alist_fp ch))"

definition dchain_get_oldest_time_fp :: "dchain \<Rightarrow> int" where
  "dchain_get_oldest_time_fp ch = snd (hd (dchain_alist_fp ch))"

definition dchain_remove_index_fp :: "dchain \<Rightarrow> int \<Rightarrow> dchain" where
  "dchain_remove_index_fp ch index = ch\<lparr>dchain_alist_fp := remove_by_index_fp (dchain_alist_fp ch) index\<rparr>"

definition is_cell_expired :: "int \<Rightarrow> int \<times> int \<Rightarrow> bool" where
  "is_cell_expired time cell \<longleftrightarrow> snd cell < time"

definition get_expired_indexes_fp :: "int \<Rightarrow> (int \<times> int) list \<Rightarrow> int list" where
  "get_expired_indexes_fp time lst = map fst (filter (is_cell_expired time) lst)"

definition dchain_get_expired_indexes_fp :: "dchain \<Rightarrow> int \<Rightarrow> int list" where
  "dchain_get_expired_indexes_fp ch time = get_expired_indexes_fp time (dchain_alist_fp ch)"

definition dchain_expire_old_indexes_fp :: "dchain \<Rightarrow> int \<Rightarrow> dchain" where
  "dchain_expire_old_indexes_fp ch time =
     ch\<lparr>dchain_alist_fp := foldl remove_by_index_fp (dchain_alist_fp ch)
          (get_expired_indexes_fp time (dchain_alist_fp ch))\<rparr>"

definition expire_n_indexes :: "dchain \<Rightarrow> int \<Rightarrow> nat \<Rightarrow> dchain" where
  "expire_n_indexes ch time n =
     ch\<lparr>dchain_alist_fp := foldl remove_by_index_fp (dchain_alist_fp ch)
          (take n (get_expired_indexes_fp time (dchain_alist_fp ch)))\<rparr>"

fun bnd_sorted_fp :: "int list \<Rightarrow> int \<Rightarrow> int \<Rightarrow> bool" where
  "bnd_sorted_fp [] low high \<longleftrightarrow> True"
| "bnd_sorted_fp (h # t) low high \<longleftrightarrow> low \<le> h \<and> h \<le> high \<and> bnd_sorted_fp t h high"

definition dchain_sorted_fp :: "dchain \<Rightarrow> bool" where
  "dchain_sorted_fp ch \<longleftrightarrow> bnd_sorted_fp (map snd (dchain_alist_fp ch)) (dchain_low_fp ch) (dchain_high_fp ch)"

section \<open>The code\<close>

record DoubleChain =
  dc_cells :: "dchain_cell list"
  dc_timestamps :: "int list"

text \<open>
  \<open>malloc\<close> returns blocks with unknown contents: \<open>cells0 b\<close> and \<open>times0 b\<close> are what the block \<open>b\<close>
  holds when it is used for cells or for time stamps.
\<close>

definition dchain_allocate ::
  "int \<Rightarrow> DoubleChain option \<Rightarrow> (nat \<Rightarrow> nat \<Rightarrow> dchain_cell) \<Rightarrow> (nat \<Rightarrow> nat \<Rightarrow> int) \<Rightarrow> heap
   \<Rightarrow> (int \<times> DoubleChain option \<times> heap) option" where
  "dchain_allocate index_range chain_out cells0 times0 h =
     (case malloc h of
        (None, h) \<Rightarrow> Some (0, chain_out, h)
      | (Some chain_alloc, h) \<Rightarrow>
     (case malloc h of
        (None, h) \<Rightarrow> do {
          h \<leftarrow> free_all [chain_alloc] h;
          Some (0, chain_out, h) }
      | (Some cells_alloc, h) \<Rightarrow>
     (case malloc h of
        (None, h) \<Rightarrow> do {
          h \<leftarrow> free_all [cells_alloc, chain_alloc] h;
          Some (0, chain_out, h) }
      | (Some timestamps_alloc, h) \<Rightarrow> do {
          cells \<leftarrow> dchain_impl_init (map (cells0 cells_alloc) [0..<nat (index_range + DCHAIN_RESERVED)])
            index_range;
          Some (1,
            Some \<lparr>dc_cells = cells, dc_timestamps = map (times0 timestamps_alloc) [0..<nat index_range]\<rparr>,
            h) })))"

definition dchain_allocate_new_index :: "DoubleChain \<Rightarrow> int \<Rightarrow> int \<Rightarrow> (int \<times> DoubleChain \<times> int) option" where
  "dchain_allocate_new_index chain index_out time = do {
     (ret, cells, index_out) \<leftarrow> dchain_impl_allocate_new_index (dc_cells chain) index_out;
     if ret \<noteq> 0 then do {
       ts \<leftarrow> wr (dc_timestamps chain) index_out time;
       Some (ret, chain\<lparr>dc_cells := cells, dc_timestamps := ts\<rparr>, index_out)
     } else Some (ret, chain\<lparr>dc_cells := cells\<rparr>, index_out)
   }"

definition dchain_rejuvenate_index :: "DoubleChain \<Rightarrow> int \<Rightarrow> int \<Rightarrow> (int \<times> DoubleChain) option" where
  "dchain_rejuvenate_index chain index time = do {
     (ret, cells) \<leftarrow> dchain_impl_rejuvenate_index (dc_cells chain) index;
     if ret \<noteq> 0 then do {
       ts \<leftarrow> wr (dc_timestamps chain) index time;
       Some (ret, chain\<lparr>dc_cells := cells, dc_timestamps := ts\<rparr>)
     } else Some (ret, chain\<lparr>dc_cells := cells\<rparr>)
   }"

definition dchain_expire_one_index :: "DoubleChain \<Rightarrow> int \<Rightarrow> int \<Rightarrow> (int \<times> DoubleChain \<times> int) option" where
  "dchain_expire_one_index chain index_out time = do {
     (has_ind, index_out) \<leftarrow> dchain_impl_get_oldest_index (dc_cells chain) index_out;
     if has_ind \<noteq> 0 then do {
       t \<leftarrow> rd (dc_timestamps chain) index_out;
       if t < time then do {
         (rez, cells) \<leftarrow> dchain_impl_free_index (dc_cells chain) index_out;
         Some (rez, chain\<lparr>dc_cells := cells\<rparr>, index_out)
       } else Some (0, chain, index_out)
     } else Some (0, chain, index_out)
   }"

definition dchain_is_index_allocated :: "DoubleChain \<Rightarrow> int \<Rightarrow> bool option" where
  "dchain_is_index_allocated chain index = dchain_impl_is_index_allocated (dc_cells chain) index"

section \<open>Facts on the specification\<close>

lemma dchain_allocated_indexes [simp]: "dchain_allocated_fp ch i \<longleftrightarrow> i \<in> set (dchain_indexes_fp ch)"
  by (auto simp: dchain_allocated_fp_def dchain_indexes_fp_def same_index_def list_ex_iff image_iff)

lemma map_fst_remove_by_index: "map fst (remove_by_index_fp al i) = remove1 i (map fst al)"
  by (induction al) auto

lemma remove_by_index_subset: "set (remove_by_index_fp al i) \<subseteq> set al"
  by (induction al) auto

lemma dchain_indexes_simps [simp]:
  "dchain_indexes_fp (empty_dchain_fp r l) = []"
  "dchain_indexes_fp (dchain_allocate_fp ch i t) = dchain_indexes_fp ch @ [i]"
  "dchain_indexes_fp (dchain_remove_index_fp ch i) = remove1 i (dchain_indexes_fp ch)"
  "dchain_indexes_fp (dchain_rejuvenate_fp ch i t) = remove1 i (dchain_indexes_fp ch) @ [i]"
  by (simp_all add: dchain_indexes_fp_def empty_dchain_fp_def dchain_allocate_fp_def
      dchain_remove_index_fp_def dchain_rejuvenate_fp_def map_fst_remove_by_index)

lemma dchain_fields [simp]:
  "dchain_index_range_fp (empty_dchain_fp r l) = r" "dchain_high_fp (empty_dchain_fp r l) = l"
  "dchain_index_range_fp (dchain_allocate_fp ch i t) = dchain_index_range_fp ch"
  "dchain_high_fp (dchain_allocate_fp ch i t) = t"
  "dchain_index_range_fp (dchain_remove_index_fp ch i) = dchain_index_range_fp ch"
  "dchain_high_fp (dchain_remove_index_fp ch i) = dchain_high_fp ch"
  "dchain_index_range_fp (dchain_rejuvenate_fp ch i t) = dchain_index_range_fp ch"
  "dchain_high_fp (dchain_rejuvenate_fp ch i t) = t"
  by (simp_all add: empty_dchain_fp_def dchain_allocate_fp_def dchain_remove_index_fp_def dchain_rejuvenate_fp_def)

lemma bnd_sorted_append_one:
  "bnd_sorted_fp (ts @ [t]) low t \<longleftrightarrow> bnd_sorted_fp ts low t \<and> (ts = [] \<longrightarrow> low \<le> t)"
  by (induction ts arbitrary: low) auto

lemma bnd_sorted_mono: "bnd_sorted_fp ts low high \<Longrightarrow> low' \<le> low \<Longrightarrow> high \<le> high' \<Longrightarrow> bnd_sorted_fp ts low' high'"
  by (induction ts arbitrary: low low') auto

lemma bnd_sorted_bounds: "bnd_sorted_fp ts low high \<Longrightarrow> t \<in> set ts \<Longrightarrow> low \<le> t \<and> t \<le> high"
  by (induction ts arbitrary: low) force+

lemma bnd_sorted_remove:
  "bnd_sorted_fp (map snd al) low high \<Longrightarrow> bnd_sorted_fp (map snd (remove_by_index_fp al i)) low high"
  by (induction al i arbitrary: low rule: remove_by_index_fp.induct) (auto intro: bnd_sorted_mono)

section \<open>The code implements the specification\<close>

primrec insync_fp :: "int list \<Rightarrow> int list \<Rightarrow> (int \<times> int) list \<Rightarrow> bool" where
  "insync_fp [] tstmps alist \<longleftrightarrow> alist = []"
| "insync_fp (h # t) tstmps alist \<longleftrightarrow>
     alist \<noteq> [] \<and> insync_fp t tstmps (tl alist) \<and> hd alist = (h, tstmps ! nat h)"

definition double_chainp :: "dchain \<Rightarrow> DoubleChain \<Rightarrow> bool" where
  "double_chainp ch cp \<longleftrightarrow>
     (\<exists>dci. dchainip dci (dc_cells cp) \<and>
        dchaini_irange_fp dci = dchain_index_range_fp ch \<and>
        int (length (dc_timestamps cp)) = dchain_index_range_fp ch \<and>
        insync_fp (dchaini_alist_fp dci) (dc_timestamps cp) (dchain_alist_fp ch) \<and>
        dchain_sorted_fp ch \<and> dchain_low_fp ch \<le> dchain_high_fp ch)"

lemma insync_map: "insync_fp is ts al \<longleftrightarrow> al = map (\<lambda>i. (i, ts ! nat i)) is"
proof (induction "is" arbitrary: al)
  case (Cons i "is")
  then show ?case by (cases al) auto
qed simp

lemma double_chainpE:
  assumes "double_chainp ch cp"
  obtains dci where "dchainip dci (dc_cells cp)" "dchaini_alist_fp dci = dchain_indexes_fp ch"
    "dchaini_irange_fp dci = dchain_index_range_fp ch"
    "int (length (dc_timestamps cp)) = dchain_index_range_fp ch"
    "dchain_alist_fp ch = map (\<lambda>i. (i, dc_timestamps cp ! nat i)) (dchain_indexes_fp ch)"
    "dchain_sorted_fp ch" "dchain_low_fp ch \<le> dchain_high_fp ch"
proof -
  obtain dci where d: "dchainip dci (dc_cells cp)" "dchaini_irange_fp dci = dchain_index_range_fp ch"
    "int (length (dc_timestamps cp)) = dchain_index_range_fp ch"
    "dchain_alist_fp ch = map (\<lambda>i. (i, dc_timestamps cp ! nat i)) (dchaini_alist_fp dci)"
    "dchain_sorted_fp ch" "dchain_low_fp ch \<le> dchain_high_fp ch"
    using assms unfolding double_chainp_def insync_map by blast
  moreover have "dchaini_alist_fp dci = dchain_indexes_fp ch"
    by (simp add: dchain_indexes_fp_def d(4) o_def)
  ultimately show ?thesis using that by metis
qed

lemma double_chainp_wf:
  assumes "double_chainp ch cp"
  shows "distinct (dchain_indexes_fp ch)" "dchain_sorted_fp ch" "dchain_low_fp ch \<le> dchain_high_fp ch"
    "i \<in> set (dchain_indexes_fp ch) \<Longrightarrow> 0 \<le> i \<and> i < dchain_index_range_fp ch"
    "int (length (dchain_indexes_fp ch)) \<le> dchain_index_range_fp ch"
  using assms
  by (elim double_chainpE, use dchainip_facts in \<open>fastforce simp: dchaini_allocated_fp_def\<close>)+

lemma double_chainpI:
  assumes "dchainip dci cells" "dchaini_alist_fp dci = is" "dchaini_irange_fp dci = dchain_index_range_fp ch"
    "int (length ts) = dchain_index_range_fp ch" "dchain_alist_fp ch = map (\<lambda>i. (i, ts ! nat i)) is"
    "dchain_sorted_fp ch" "dchain_low_fp ch \<le> dchain_high_fp ch"
  shows "double_chainp ch (chain\<lparr>dc_cells := cells, dc_timestamps := ts\<rparr>)"
  using assms unfolding double_chainp_def insync_map by auto

lemma map_timestamps_update:
  assumes "\<forall>j\<in>set is. 0 \<le> j" "i \<notin> set is" "0 \<le> i"
  shows "map (\<lambda>j. (j, ts[nat i := t] ! nat j)) is = map (\<lambda>j. (j, ts ! nat j)) is"
proof -
  have "ts[nat i := t] ! nat j = ts ! nat j" if "j \<in> set is" for j
    by (rule nth_list_update_neq) (use that assms in \<open>auto simp: nat_eq_iff\<close>)
  then show ?thesis by simp
qed

lemma remove_by_index_map:
  "remove_by_index_fp (map (\<lambda>j. (j, f j)) is) i = map (\<lambda>j. (j, f j)) (remove1 i is)"
  by (induction "is") auto

lemma dchain_allocate_new_index_correct:
  assumes rep: "double_chainp ch chain" and time: "dchain_high_fp ch \<le> time"
    and space: "\<not> dchain_out_of_space_fp ch"
  shows "\<exists>chain' ni. dchain_allocate_new_index chain i time = Some (1, chain', ni) \<and>
    \<not> dchain_allocated_fp ch ni \<and> 0 \<le> ni \<and> ni < dchain_index_range_fp ch \<and>
    double_chainp (dchain_allocate_fp ch ni time) chain'"
proof -
  obtain dci where d: "dchainip dci (dc_cells chain)" "dchaini_alist_fp dci = dchain_indexes_fp ch"
    "dchaini_irange_fp dci = dchain_index_range_fp ch"
    "int (length (dc_timestamps chain)) = dchain_index_range_fp ch"
    "dchain_alist_fp ch = map (\<lambda>i. (i, dc_timestamps chain ! nat i)) (dchain_indexes_fp ch)"
    "dchain_sorted_fp ch" "dchain_low_fp ch \<le> dchain_high_fp ch"
    using rep by (rule double_chainpE)
  have "\<not> dchaini_out_of_space_fp dci"
    using space d(2,3) by (simp add: dchain_out_of_space_fp_def dchaini_out_of_space_fp_def dchain_indexes_fp_def)
  then obtain cells' ni where c: "dchain_impl_allocate_new_index (dc_cells chain) i = Some (1, cells', ni)"
    "\<not> dchaini_allocated_fp dci ni" "0 \<le> ni" "ni < dchaini_irange_fp dci"
    "dchainip (dchaini_allocate_fp dci ni) cells'"
    using dchain_impl_allocate_new_index_correct [OF d(1)] by blast
  let ?ts = "(dc_timestamps chain)[nat ni := time]"
  have new: "ni \<notin> set (dchain_indexes_fp ch)" using c(2) d(2) by (simp add: dchaini_allocated_fp_def)
  have "double_chainp (dchain_allocate_fp ch ni time) (chain\<lparr>dc_cells := cells', dc_timestamps := ?ts\<rparr>)"
  proof (rule double_chainpI [OF c(5)])
    have "map (\<lambda>j. (j, ?ts ! nat j)) (dchain_indexes_fp ch) = dchain_alist_fp ch"
      unfolding d(5) by (rule map_timestamps_update) (use double_chainp_wf(4) [OF rep] new c(3) in auto)
    then show "dchain_alist_fp (dchain_allocate_fp ch ni time)
      = map (\<lambda>i. (i, ?ts ! nat i)) (dchain_indexes_fp ch @ [ni])"
      using c(3,4) d(3,4) by (simp add: dchain_allocate_fp_def)
    have "bnd_sorted_fp (map snd (dchain_alist_fp ch)) (dchain_low_fp ch) time"
      using d(6) time by (auto simp: dchain_sorted_fp_def intro: bnd_sorted_mono)
    then show "dchain_sorted_fp (dchain_allocate_fp ch ni time)"
      using d(7) time by (simp add: dchain_sorted_fp_def dchain_allocate_fp_def bnd_sorted_append_one)
  qed (use d time in \<open>simp_all add: dchaini_allocate_fp_def dchain_allocate_fp_def\<close>)
  then show ?thesis
    using c d new by (simp add: dchain_allocate_new_index_def)
qed

lemma dchain_allocate_new_index_full:
  assumes rep: "double_chainp ch chain" and full: "dchain_out_of_space_fp ch"
  shows "dchain_allocate_new_index chain i time = Some (0, chain, i)"
proof -
  obtain dci where d: "dchainip dci (dc_cells chain)" "dchaini_alist_fp dci = dchain_indexes_fp ch"
    "dchaini_irange_fp dci = dchain_index_range_fp ch"
    using rep by (rule double_chainpE)
  have "dchaini_out_of_space_fp dci"
    using full d(2,3) by (simp add: dchain_out_of_space_fp_def dchaini_out_of_space_fp_def dchain_indexes_fp_def)
  then show ?thesis
    using dchain_impl_allocate_new_index_full [OF d(1)] by (simp add: dchain_allocate_new_index_def)
qed

lemma dchain_rejuvenate_index_correct:
  assumes rep: "double_chainp ch chain" and time: "dchain_high_fp ch \<le> time"
    and al: "dchain_allocated_fp ch index"
  shows "\<exists>chain'. dchain_rejuvenate_index chain index time = Some (1, chain') \<and>
    double_chainp (dchain_rejuvenate_fp ch index time) chain'"
proof -
  obtain dci where d: "dchainip dci (dc_cells chain)" "dchaini_alist_fp dci = dchain_indexes_fp ch"
    "dchaini_irange_fp dci = dchain_index_range_fp ch"
    "int (length (dc_timestamps chain)) = dchain_index_range_fp ch"
    "dchain_alist_fp ch = map (\<lambda>i. (i, dc_timestamps chain ! nat i)) (dchain_indexes_fp ch)"
    "dchain_sorted_fp ch" "dchain_low_fp ch \<le> dchain_high_fp ch"
    using rep by (rule double_chainpE)
  have in_range: "0 \<le> index" "index < dchain_index_range_fp ch"
    using double_chainp_wf(4) [OF rep] al by auto
  have "dchaini_allocated_fp dci index" using al d(2) by (simp add: dchaini_allocated_fp_def)
  then obtain cells' where c: "dchain_impl_rejuvenate_index (dc_cells chain) index = Some (1, cells')"
    "dchainip (dchaini_rejuvenate_fp dci index) cells'"
    using dchain_impl_rejuvenate_index_correct [OF d(1)] by blast
  let ?ts = "(dc_timestamps chain)[nat index := time]"
  have "double_chainp (dchain_rejuvenate_fp ch index time) (chain\<lparr>dc_cells := cells', dc_timestamps := ?ts\<rparr>)"
  proof (rule double_chainpI [OF c(2)])
    have "map (\<lambda>j. (j, ?ts ! nat j)) (remove1 index (dchain_indexes_fp ch))
      = remove_by_index_fp (dchain_alist_fp ch) index"
      unfolding d(5) remove_by_index_map
      by (rule map_timestamps_update)
        (use double_chainp_wf(1,4) [OF rep] in_range in \<open>auto dest: in_set_remove1 [THEN iffD1, rotated] notin_set_remove1\<close>)
    then show "dchain_alist_fp (dchain_rejuvenate_fp ch index time)
      = map (\<lambda>i. (i, ?ts ! nat i)) (remove1 index (dchain_indexes_fp ch) @ [index])"
      using in_range d(3,4) by (simp add: dchain_rejuvenate_fp_def)
    have "bnd_sorted_fp (map snd (remove_by_index_fp (dchain_alist_fp ch) index)) (dchain_low_fp ch) time"
      using bnd_sorted_remove d(6) time unfolding dchain_sorted_fp_def by (blast intro: bnd_sorted_mono)
    then show "dchain_sorted_fp (dchain_rejuvenate_fp ch index time)"
      using d(7) time by (simp add: dchain_sorted_fp_def dchain_rejuvenate_fp_def bnd_sorted_append_one)
  qed (use d time in \<open>simp_all add: dchaini_rejuvenate_fp_def dchain_rejuvenate_fp_def\<close>)
  then show ?thesis
    using c d in_range by (simp add: dchain_rejuvenate_index_def)
qed

lemma dchain_rejuvenate_index_unallocated:
  assumes rep: "double_chainp ch chain" and "0 \<le> index" "index < dchain_index_range_fp ch"
    and al: "\<not> dchain_allocated_fp ch index"
  shows "dchain_rejuvenate_index chain index time = Some (0, chain)"
proof -
  obtain dci where d: "dchainip dci (dc_cells chain)" "dchaini_alist_fp dci = dchain_indexes_fp ch"
    "dchaini_irange_fp dci = dchain_index_range_fp ch"
    using rep by (rule double_chainpE)
  then show ?thesis
    using assms dchain_impl_rejuvenate_index_unallocated [OF d(1)]
    by (simp add: dchain_rejuvenate_index_def dchaini_allocated_fp_def)
qed

lemma dchain_is_index_allocated_correct:
  assumes "double_chainp ch chain" and "0 \<le> index" "index < dchain_index_range_fp ch"
  shows "dchain_is_index_allocated chain index = Some (dchain_allocated_fp ch index)"
  using assms
  by (elim double_chainpE)
    (simp add: dchain_is_index_allocated_def dchain_impl_is_index_allocated_correct dchaini_allocated_fp_def)

lemma dchain_expire_one_index_correct:
  assumes rep: "double_chainp ch chain"
  shows "dchain_is_empty_fp ch \<Longrightarrow> dchain_expire_one_index chain i time = Some (0, chain, i)"
    and "\<not> dchain_is_empty_fp ch \<Longrightarrow> \<not> dchain_get_oldest_time_fp ch < time \<Longrightarrow>
      dchain_expire_one_index chain i time = Some (0, chain, dchain_get_oldest_index_fp ch)"
    and "\<not> dchain_is_empty_fp ch \<Longrightarrow> dchain_get_oldest_time_fp ch < time \<Longrightarrow>
      \<exists>chain'. dchain_expire_one_index chain i time = Some (1, chain', dchain_get_oldest_index_fp ch) \<and>
        double_chainp (dchain_remove_index_fp ch (dchain_get_oldest_index_fp ch)) chain'"
proof -
  obtain dci where d: "dchainip dci (dc_cells chain)" "dchaini_alist_fp dci = dchain_indexes_fp ch"
    "dchaini_irange_fp dci = dchain_index_range_fp ch"
    "int (length (dc_timestamps chain)) = dchain_index_range_fp ch"
    "dchain_alist_fp ch = map (\<lambda>i. (i, dc_timestamps chain ! nat i)) (dchain_indexes_fp ch)"
    "dchain_sorted_fp ch" "dchain_low_fp ch \<le> dchain_high_fp ch"
    using rep by (rule double_chainpE)
  have emp: "dchaini_is_empty_fp dci \<longleftrightarrow> dchain_is_empty_fp ch"
    by (simp add: dchaini_is_empty_fp_def dchain_is_empty_fp_def d(2) dchain_indexes_fp_def)
  note old = dchain_impl_get_oldest_index_correct [OF d(1), of i]
  show "dchain_is_empty_fp ch \<Longrightarrow> dchain_expire_one_index chain i time = Some (0, chain, i)"
    using old by (simp add: dchain_expire_one_index_def emp)
  let ?o = "dchain_get_oldest_index_fp ch"
  { assume ne: "\<not> dchain_is_empty_fp ch"
    then have o: "?o \<in> set (dchain_indexes_fp ch)" "dchaini_get_oldest_index_fp dci = ?o"
      by (cases "dchain_alist_fp ch";
        simp add: dchain_is_empty_fp_def dchain_get_oldest_index_fp_def dchain_indexes_fp_def
          dchaini_get_oldest_index_fp_def d(2))+
    have "dchain_alist_fp ch \<noteq> []" using ne by (simp add: dchain_is_empty_fp_def)
    then have "dchain_get_oldest_time_fp ch = dc_timestamps chain ! nat ?o"
      using d(5) unfolding dchain_get_oldest_time_fp_def dchain_get_oldest_index_fp_def
      by (metis Nil_is_map_conv fst_conv hd_map snd_conv)
    then have t: "rd (dc_timestamps chain) ?o = Some (dchain_get_oldest_time_fp ch)"
      using double_chainp_wf(4) [OF rep o(1)] d(4) by simp
    note o t }
  note ne = this
  show "dchain_expire_one_index chain i time = Some (0, chain, ?o)"
    if "\<not> dchain_is_empty_fp ch" "\<not> dchain_get_oldest_time_fp ch < time"
    using that old ne [OF that(1)] by (simp add: dchain_expire_one_index_def emp)
  show "\<exists>chain'. dchain_expire_one_index chain i time = Some (1, chain', ?o) \<and>
      double_chainp (dchain_remove_index_fp ch ?o) chain'"
    if n: "\<not> dchain_is_empty_fp ch" and l: "dchain_get_oldest_time_fp ch < time"
  proof -
    have "dchaini_allocated_fp dci ?o" using ne(1) [OF n] d(2) by (simp add: dchaini_allocated_fp_def)
    then obtain cells' where c: "dchain_impl_free_index (dc_cells chain) ?o = Some (1, cells')"
      "dchainip (dchaini_remove_fp dci ?o) cells'"
      using dchain_impl_free_index_correct [OF d(1)] by blast
    have "double_chainp (dchain_remove_index_fp ch ?o)
      (chain\<lparr>dc_cells := cells', dc_timestamps := dc_timestamps chain\<rparr>)"
    proof (rule double_chainpI [OF c(2) refl])
      show "dchain_alist_fp (dchain_remove_index_fp ch ?o)
        = map (\<lambda>i. (i, dc_timestamps chain ! nat i)) (dchaini_alist_fp (dchaini_remove_fp dci ?o))"
        using d(2,5) remove_by_index_map by (simp add: dchain_remove_index_fp_def dchaini_remove_fp_def)
      show "dchain_sorted_fp (dchain_remove_index_fp ch ?o)"
        using bnd_sorted_remove d(6) by (simp add: dchain_sorted_fp_def dchain_remove_index_fp_def)
    qed (use d in \<open>simp_all add: dchain_remove_index_fp_def dchaini_remove_fp_def\<close>)
    then show ?thesis
      using old c n l ne [OF n] by (simp add: dchain_expire_one_index_def emp)
  qed
qed

subsection \<open>Allocation\<close>

text \<open>
  What \<open>dchain_allocate\<close> promises, with the blocks that were live before as \<open>blocks\<close>: either
  nothing is kept and \<open>*chain_out\<close> is as before, or three blocks hold an empty allocator.
\<close>

definition dchain_allocated ::
  "int \<Rightarrow> DoubleChain option \<Rightarrow> nat list \<Rightarrow> (int \<times> DoubleChain option \<times> heap) option \<Rightarrow> bool" where
  "dchain_allocated index_range chain_out blocks res \<longleftrightarrow>
     (\<exists>h. res = Some (0, chain_out, h) \<and> live h = blocks \<and> heap_ok h) \<or>
     (\<exists>chain h new. res = Some (1, Some chain, h) \<and> live h = new @ blocks \<and> length new = 3 \<and> heap_ok h \<and>
        double_chainp (empty_dchain_fp index_range 0) chain)"

lemma dchain_allocate_spec:
  assumes "heap_ok h" "0 < n"
  shows "dchain_allocated (int n) chain_out (live h) (dchain_allocate (int n) chain_out cells0 times0 h)"
proof -
  have complete: "dchain_allocated (int n) chain_out (live h) (do {
      cells \<leftarrow> dchain_impl_init (map (cells0 b1) [0..<nat (int n + DCHAIN_RESERVED)]) (int n);
      Some (1, Some \<lparr>dc_cells = cells, dc_timestamps = map (times0 b2) [0..<nat (int n)]\<rparr>, h') })"
    if "live h' = [b2, b1, b0] @ live h" "heap_ok h'" for h' b0 b1 b2
  proof -
    have "length (map (cells0 b1) [0..<nat (int n + DCHAIN_RESERVED)]) = n + 2"
      by (simp add: DCHAIN_RESERVED_def nat_add_distrib)
    from dchain_impl_init_correct [OF this assms(2)] obtain cells where
      c: "dchain_impl_init (map (cells0 b1) [0..<nat (int n + DCHAIN_RESERVED)]) (int n) = Some cells"
      "dchainip (empty_dchaini_fp (int n)) cells" by blast
    have "double_chainp (empty_dchain_fp (int n) 0)
      (undefined\<lparr>dc_cells := cells, dc_timestamps := map (times0 b2) [0..<nat (int n)]\<rparr>)"
      by (rule double_chainpI [OF c(2)])
        (simp_all add: empty_dchaini_fp_def empty_dchain_fp_def dchain_sorted_fp_def)
    then show ?thesis using c that by (simp add: dchain_allocated_def double_chainp_def)
  qed
  have fail: "dchain_allocated (int n) chain_out (live h) (Some (0, chain_out, h'))"
    if "live h' = live h" "heap_ok h'" for h'
    using that by (simp add: dchain_allocated_def)
  show ?thesis
    unfolding dchain_allocate_def
    by (intro malloc_step [where Q = "dchain_allocated (int n) chain_out (live h)"]
        free_step [where Q = "dchain_allocated (int n) chain_out (live h)" and l = "live h"] fail assms(1) complete;
      simp)
qed

section \<open>Expiry on a sorted list of time stamps\<close>

lemma sorted_expired_prefix:
  assumes "bnd_sorted_fp (map snd al) low high"
  shows "filter (is_cell_expired time) al = takeWhile (is_cell_expired time) al"
  using assms
proof (induction al arbitrary: low)
  case (Cons a al)
  have "\<not> is_cell_expired time b" if "\<not> is_cell_expired time a" "b \<in> set al" for b
    using Cons.prems that bnd_sorted_bounds [of "map snd al" "snd a" high "snd b"]
    by (auto simp: is_cell_expired_def)
  then show ?case using Cons by (auto simp: filter_empty_conv)
qed simp

lemma foldl_remove_prefix: "foldl remove_by_index_fp al (map fst (take n al)) = drop n al"
  by (induction al arbitrary: n) (simp, case_tac n, simp_all)

lemma dchain_expire_old_sorted:
  assumes "dchain_sorted_fp ch"
  shows "dchain_alist_fp (dchain_expire_old_indexes_fp ch time)
    = filter (\<lambda>c. \<not> is_cell_expired time c) (dchain_alist_fp ch)"
proof -
  let ?al = "dchain_alist_fp ch" and ?e = "is_cell_expired time"
  have s: "filter ?e ?al = takeWhile ?e ?al"
    using assms unfolding dchain_sorted_fp_def by (rule sorted_expired_prefix)
  then have split: "?al = filter ?e ?al @ dropWhile ?e ?al" by simp
  have "filter (\<lambda>c. \<not> ?e c) ?al = filter (\<lambda>c. \<not> ?e c) (filter ?e ?al @ dropWhile ?e ?al)"
    using split by simp
  also have "\<dots> = filter (\<lambda>c. \<not> ?e c) (dropWhile ?e ?al)" by simp
  also have "\<dots> = dropWhile ?e ?al"
  proof -
    have "filter ?e (dropWhile ?e ?al) = []"
      using arg_cong [OF split, of "filter ?e"] by simp
    then show ?thesis by (simp add: filter_empty_conv filter_id_conv)
  qed
  finally have kept: "filter (\<lambda>c. \<not> ?e c) ?al = dropWhile ?e ?al" .
  have "foldl remove_by_index_fp ?al (map fst (takeWhile ?e ?al)) = dropWhile ?e ?al"
    using foldl_remove_prefix [of ?al "length (takeWhile ?e ?al)"]
    by (simp add: takeWhile_eq_take [symmetric] dropWhile_eq_drop)
  then show ?thesis
    unfolding kept by (simp add: dchain_expire_old_indexes_fp_def get_expired_indexes_fp_def s)
qed

lemma expired_cons:
  assumes "dchain_sorted_fp ch" "dchain_get_expired_indexes_fp ch time = i # is"
  shows "\<not> dchain_is_empty_fp ch" "dchain_get_oldest_time_fp ch < time" "dchain_get_oldest_index_fp ch = i"
    "dchain_get_expired_indexes_fp (dchain_remove_index_fp ch i) time = is"
    "dchain_expire_old_indexes_fp (dchain_remove_index_fp ch i) time = dchain_expire_old_indexes_fp ch time"
proof -
  have f: "filter (is_cell_expired time) (dchain_alist_fp ch) = takeWhile (is_cell_expired time) (dchain_alist_fp ch)"
    using assms(1) unfolding dchain_sorted_fp_def by (rule sorted_expired_prefix)
  obtain t al where al: "dchain_alist_fp ch = (i, t) # al" "is_cell_expired time (i, t)"
    using assms(2) f by (cases "dchain_alist_fp ch")
      (auto simp: dchain_get_expired_indexes_fp_def get_expired_indexes_fp_def split: if_splits)
  then show "\<not> dchain_is_empty_fp ch" "dchain_get_oldest_time_fp ch < time" "dchain_get_oldest_index_fp ch = i"
    "dchain_get_expired_indexes_fp (dchain_remove_index_fp ch i) time = is"
    "dchain_expire_old_indexes_fp (dchain_remove_index_fp ch i) time = dchain_expire_old_indexes_fp ch time"
    using assms(2)
    by (simp_all add: dchain_is_empty_fp_def dchain_get_oldest_time_fp_def dchain_get_oldest_index_fp_def
        is_cell_expired_def dchain_get_expired_indexes_fp_def get_expired_indexes_fp_def
        dchain_remove_index_fp_def dchain_expire_old_indexes_fp_def)
qed

lemma expired_nil:
  assumes "dchain_get_expired_indexes_fp ch time = []"
  shows "dchain_is_empty_fp ch \<or> \<not> dchain_get_oldest_time_fp ch < time"
    "dchain_expire_old_indexes_fp ch time = ch"
  using assms
  by (cases "dchain_alist_fp ch"; auto simp: dchain_is_empty_fp_def dchain_get_oldest_time_fp_def
      dchain_get_expired_indexes_fp_def get_expired_indexes_fp_def is_cell_expired_def
      dchain_expire_old_indexes_fp_def)+

section \<open>The contract of an allocator of expiring indexes\<close>

text \<open>The laws are the contracts of \<open>double-chain.h\<close>, over its specification functions.\<close>

locale expiring_index =
  fixes allocate :: "'c \<Rightarrow> int \<Rightarrow> int \<Rightarrow> (int \<times> 'c \<times> int) option"
    and rejuvenate :: "'c \<Rightarrow> int \<Rightarrow> int \<Rightarrow> (int \<times> 'c) option"
    and expire_one :: "'c \<Rightarrow> int \<Rightarrow> int \<Rightarrow> (int \<times> 'c \<times> int) option"
    and is_allocated :: "'c \<Rightarrow> int \<Rightarrow> bool option"
    and rep :: "dchain \<Rightarrow> 'c \<Rightarrow> bool"
  assumes rep_distinct: "rep ch c \<Longrightarrow> distinct (dchain_indexes_fp ch)"
    and rep_sorted: "rep ch c \<Longrightarrow> dchain_sorted_fp ch"
    and rep_range: "rep ch c \<Longrightarrow> i \<in> set (dchain_indexes_fp ch) \<Longrightarrow> 0 \<le> i \<and> i < dchain_index_range_fp ch"
    and allocate_new: "rep ch c \<Longrightarrow> dchain_high_fp ch \<le> time \<Longrightarrow> \<not> dchain_out_of_space_fp ch \<Longrightarrow>
      \<exists>c' ni. allocate c i time = Some (1, c', ni) \<and> \<not> dchain_allocated_fp ch ni \<and>
        0 \<le> ni \<and> ni < dchain_index_range_fp ch \<and> rep (dchain_allocate_fp ch ni time) c'"
    and allocate_full: "rep ch c \<Longrightarrow> dchain_out_of_space_fp ch \<Longrightarrow> allocate c i time = Some (0, c, i)"
    and rejuvenate_old: "rep ch c \<Longrightarrow> dchain_high_fp ch \<le> time \<Longrightarrow> dchain_allocated_fp ch i \<Longrightarrow>
      \<exists>c'. rejuvenate c i time = Some (1, c') \<and> rep (dchain_rejuvenate_fp ch i time) c'"
    and rejuvenate_none: "rep ch c \<Longrightarrow> 0 \<le> i \<Longrightarrow> i < dchain_index_range_fp ch \<Longrightarrow>
      \<not> dchain_allocated_fp ch i \<Longrightarrow> rejuvenate c i time = Some (0, c)"
    and is_allocated: "rep ch c \<Longrightarrow> 0 \<le> i \<Longrightarrow> i < dchain_index_range_fp ch \<Longrightarrow>
      is_allocated c i = Some (dchain_allocated_fp ch i)"
    and expire_one_empty: "rep ch c \<Longrightarrow> dchain_is_empty_fp ch \<Longrightarrow> expire_one c i time = Some (0, c, i)"
    and expire_one_young: "rep ch c \<Longrightarrow> \<not> dchain_is_empty_fp ch \<Longrightarrow> \<not> dchain_get_oldest_time_fp ch < time \<Longrightarrow>
      expire_one c i time = Some (0, c, dchain_get_oldest_index_fp ch)"
    and expire_one_old: "rep ch c \<Longrightarrow> \<not> dchain_is_empty_fp ch \<Longrightarrow> dchain_get_oldest_time_fp ch < time \<Longrightarrow>
      \<exists>c'. expire_one c i time = Some (1, c', dchain_get_oldest_index_fp ch) \<and>
        rep (dchain_remove_index_fp ch (dchain_get_oldest_index_fp ch)) c'"

context expiring_index
begin

text \<open>One round of the expiry loops: they stop exactly when no index is expired.\<close>

lemma expire_one_nothing:
  assumes "rep ch c" "dchain_get_expired_indexes_fp ch time = []"
  shows "\<exists>i'. expire_one c i time = Some (0, c, i')"
  using expired_nil [OF assms(2)] expire_one_empty [OF assms(1)] expire_one_young [OF assms(1)] by blast

lemma expire_one_something:
  assumes "rep ch c" "dchain_get_expired_indexes_fp ch time = e # es"
  shows "\<exists>c'. expire_one c i time = Some (1, c', e) \<and> rep (dchain_remove_index_fp ch e) c' \<and>
    e \<in> set (dchain_indexes_fp ch) \<and>
    dchain_get_expired_indexes_fp (dchain_remove_index_fp ch e) time = es \<and>
    dchain_expire_old_indexes_fp (dchain_remove_index_fp ch e) time = dchain_expire_old_indexes_fp ch time"
proof -
  note e = expired_cons [OF rep_sorted [OF assms(1)] assms(2)]
  have "e \<in> set (dchain_indexes_fp ch)"
    using e(1,3) by (cases "dchain_alist_fp ch")
      (auto simp: dchain_is_empty_fp_def dchain_get_oldest_index_fp_def dchain_indexes_fp_def)
  then show ?thesis using expire_one_old [OF assms(1) e(1,2), of i] e(3,4,5) by simp
qed

lemma rep_high:
  assumes "rep ch c" "(i, t) \<in> set (dchain_alist_fp ch)"
  shows "t \<le> dchain_high_fp ch"
  using bnd_sorted_bounds [of "map snd (dchain_alist_fp ch)" _ _ t] rep_sorted [OF assms(1)] assms(2)
  unfolding dchain_sorted_fp_def by force

end

interpretation dc: expiring_index dchain_allocate_new_index dchain_rejuvenate_index
  dchain_expire_one_index dchain_is_index_allocated double_chainp
  by unfold_locales
    (fact double_chainp_wf dchain_allocate_new_index_correct dchain_allocate_new_index_full
      dchain_rejuvenate_index_correct dchain_rejuvenate_index_unallocated
      dchain_is_index_allocated_correct dchain_expire_one_index_correct)+

lemma dchain_allocate_success:
  assumes "heap_ok h" "0 < n" "dchain_allocate (int n) None cells0 times0 h = Some (r, heap, h')" "r \<noteq> 0"
  shows "\<exists>c. heap = Some c \<and> heap_ok h' \<and> double_chainp (empty_dchain_fp (int n) 0) c"
  using dchain_allocate_spec [OF assms(1,2), of None cells0 times0] assms(3,4)
  by (auto simp: dchain_allocated_def)

lemma dchain_allocate_plenty:
  assumes "outcomes h = True # True # True # later" "0 < n"
  shows "\<exists>c h'. dchain_allocate (int n) out cells0 times0 h = Some (1, Some c, h') \<and> outcomes h' = later"
proof -
  obtain cs where "dchain_impl_init (map (cells0 (Suc (fresh h))) [0..<nat (int n + DCHAIN_RESERVED)]) (int n) = Some cs"
    using dchain_impl_init_correct [of "map (cells0 (Suc (fresh h))) [0..<n + 2]" n] assms(2)
    by (auto simp: DCHAIN_RESERVED_def nat_add_distrib)
  then show ?thesis
    using assms(1) by (simp add: dchain_allocate_def malloc_def)
qed

section \<open>Properties\<close>

text \<open>An allocator of two indexes of which index 0 is in use since time 5.\<close>

definition used_since_5 :: DoubleChain where
  "used_since_5 = \<lparr>dc_cells = one_used, dc_timestamps = [5, 0]\<rparr>"

definition used_since_5_spec :: dchain where
  "used_since_5_spec =
     \<lparr>dchain_alist_fp = [(0, 5)], dchain_index_range_fp = 2, dchain_low_fp = 0, dchain_high_fp = 5\<rparr>"

lemma used_since_5_rep: "double_chainp used_since_5_spec used_since_5"
  unfolding double_chainp_def
  by (rule exI [of _ "\<lparr>dchaini_alist_fp = [0], dchaini_irange_fp = 2\<rparr>"])
    (simp add: one_used_ip used_since_5_def used_since_5_spec_def dchain_sorted_fp_def)

text \<open>
  C16. \<open>dchain_allocate_new_index\<close> implements its contract: with all indexes in use it returns 0 and
  changes nothing; otherwise it returns 1 and a free index in range, which is entered with the
  current time as the youngest.
\<close>

theorem dchain_allocate_new_index_refines:
  assumes "double_chainp ch chain" "dchain_high_fp ch \<le> time"
  shows "if dchain_out_of_space_fp ch then dchain_allocate_new_index chain i time = Some (0, chain, i)
    else \<exists>chain' ni. dchain_allocate_new_index chain i time = Some (1, chain', ni) \<and>
      \<not> dchain_allocated_fp ch ni \<and> 0 \<le> ni \<and> ni < dchain_index_range_fp ch \<and>
      double_chainp (dchain_allocate_fp ch ni time) chain'"
  using dc.allocate_new [OF assms] dc.allocate_full [OF assms(1)] by simp

theorem dchain_allocate_new_index_refines_witness:
  "\<exists>chain' ni. dchain_allocate_new_index used_since_5 9 6 = Some (1, chain', ni) \<and> ni \<noteq> 0 \<and> 0 \<le> ni \<and> ni < 2 \<and>
    double_chainp (dchain_allocate_fp used_since_5_spec ni 6) chain'"
  using dchain_allocate_new_index_refines [OF used_since_5_rep, of 6 9]
  by (auto simp: used_since_5_spec_def dchain_out_of_space_fp_def dchain_indexes_fp_def)

text \<open>
  \<open>dchain_rejuvenate_index\<close> stamps an allocated index with the current time and makes it the
  youngest; an index in range that is not allocated is reported with 0 and nothing changes.
\<close>

lemma dchain_rejuvenate_index_refines:
  assumes "double_chainp ch chain" "dchain_high_fp ch \<le> time" "0 \<le> i" "i < dchain_index_range_fp ch"
  shows "if dchain_allocated_fp ch i
    then \<exists>chain'. dchain_rejuvenate_index chain i time = Some (1, chain') \<and>
      double_chainp (dchain_rejuvenate_fp ch i time) chain'
    else dchain_rejuvenate_index chain i time = Some (0, chain)"
  using dc.rejuvenate_old [OF assms(1,2)] dc.rejuvenate_none [OF assms(1,3,4)] by simp

text \<open>
  \<open>dchain_expire_one_index\<close> removes the oldest index exactly when its time stamp lies before the
  given time; it returns 1 then, and otherwise 0 with the allocator unchanged.
\<close>

lemma dchain_expire_one_index_refines:
  assumes "double_chainp ch chain"
  shows "if dchain_is_empty_fp ch then dchain_expire_one_index chain i time = Some (0, chain, i)
    else if dchain_get_oldest_time_fp ch < time
    then \<exists>chain'. dchain_expire_one_index chain i time = Some (1, chain', dchain_get_oldest_index_fp ch) \<and>
      double_chainp (dchain_remove_index_fp ch (dchain_get_oldest_index_fp ch)) chain'
    else dchain_expire_one_index chain i time = Some (0, chain, dchain_get_oldest_index_fp ch)"
  using dc.expire_one_empty [OF assms] dc.expire_one_old [OF assms] dc.expire_one_young [OF assms] by simp

text \<open>
  \<open>dchain_allocate\<close> leaks nothing and leaves \<open>*chain_out\<close> alone when one of its three allocations
  fails, and otherwise produces an empty allocator.
\<close>

lemma dchain_allocate_no_leak:
  assumes "heap_ok h" "0 < n"
  shows "dchain_allocated (int n) chain_out (live h) (dchain_allocate (int n) chain_out cells0 times0 h)"
  by (rule dchain_allocate_spec [OF assms])

text \<open>
  The time stamps of the used indexes are always in ascending order, so expiring all indexes
  older than a time keeps exactly the young ones: the specification's fold of removals is a filter.
\<close>

lemma dchain_expire_old_is_filter:
  assumes "double_chainp ch chain"
  shows "dchain_alist_fp (dchain_expire_old_indexes_fp ch time) = filter (\<lambda>c. \<not> snd c < time) (dchain_alist_fp ch)"
  using dchain_expire_old_sorted [OF dc.rep_sorted [OF assms]] by (simp add: is_cell_expired_def)

end
