(* ===== verification/Vector.thy ===== *)
theory Vector
  imports Prelude
begin

text \<open>
  The fixed-size vector of \<open>dpdk-nfs/nf/lib/containers/vector.c\<close>. A vector is a block of
  \<open>capacity\<close> elements of \<open>elem_size\<close> bytes; borrowing an element yields its address, and the client
  reads and writes through that address. The model keeps the address arithmetic of the code
  (base address plus index times element size) and the elements themselves as a list.
\<close>

section \<open>The code\<close>

record 'a vector =
  v_data :: int
  v_elem_size :: int
  v_capacity :: int
  v_elems :: "'a list"

text \<open>
  The size passed to \<open>malloc\<close> is computed in unsigned 32 bit arithmetic, since the capacity is
  \<open>unsigned\<close>; the block holds as many whole elements as fit into that many bytes.
\<close>

definition vector_block_size :: "int \<Rightarrow> int \<Rightarrow> int" where
  "vector_block_size elem_size capacity = elem_size * capacity mod 2 ^ 32"

function vector_init_loop :: "('a \<Rightarrow> 'a) \<Rightarrow> int \<Rightarrow> int \<Rightarrow> 'a list \<Rightarrow> 'a list option" where
  "vector_init_loop init_elem capacity i elems =
     (if i < capacity then do {
        e \<leftarrow> rd elems i;
        elems \<leftarrow> wr elems i (init_elem e);
        vector_init_loop init_elem capacity (i + 1) elems
      } else Some elems)"
  by pat_completeness auto
termination
  by (relation "measure (\<lambda>(_, capacity, i, _). nat (capacity - i))") auto

declare vector_init_loop.simps [simp del]

text \<open>\<open>addr b\<close> is the address of the block \<open>b\<close> and \<open>junk b\<close> the elements found in it.\<close>

definition vector_allocate ::
  "int \<Rightarrow> int \<Rightarrow> ('a \<Rightarrow> 'a) \<Rightarrow> 'a vector option \<Rightarrow> (nat \<Rightarrow> int) \<Rightarrow> (nat \<Rightarrow> nat \<Rightarrow> 'a) \<Rightarrow> heap
   \<Rightarrow> (int \<times> 'a vector option \<times> heap) option" where
  "vector_allocate elem_size capacity init_elem vector_out addr junk h =
     (case malloc h of
        (None, h) \<Rightarrow> Some (0, vector_out, h)
      | (Some vector_alloc, h) \<Rightarrow>
     (case malloc h of
        (None, h) \<Rightarrow> do {
          h \<leftarrow> free_all [vector_alloc] h;
          Some (0, vector_out, h) }
      | (Some data_alloc, h) \<Rightarrow> do {
          let elems = map (junk data_alloc) [0..<nat (vector_block_size elem_size capacity div elem_size)];
          elems \<leftarrow> vector_init_loop init_elem capacity 0 elems;
          Some (1,
            Some \<lparr>v_data = addr data_alloc, v_elem_size = elem_size, v_capacity = capacity, v_elems = elems\<rparr>,
            h) }))"

definition vector_borrow :: "'a vector \<Rightarrow> int \<Rightarrow> int" where
  "vector_borrow vector index = v_data vector + index * v_elem_size vector"

definition vector_return :: "'a vector \<Rightarrow> int \<Rightarrow> int \<Rightarrow> 'a vector" where
  "vector_return vector index value = vector"

section \<open>Access through a borrowed address\<close>

text \<open>
  The element at an address; an address that is not that of an element of the vector is not one
  that the client may use, so the access goes wrong.
\<close>

definition vector_index :: "'a vector \<Rightarrow> int \<Rightarrow> int" where
  "vector_index v a = (a - v_data v) div v_elem_size v"

definition vector_load :: "'a vector \<Rightarrow> int \<Rightarrow> 'a option" where
  "vector_load v a = (if v_elem_size v dvd a - v_data v then rd (v_elems v) (vector_index v a) else None)"

definition vector_store :: "'a vector \<Rightarrow> int \<Rightarrow> 'a \<Rightarrow> 'a vector option" where
  "vector_store v a x =
     (if v_elem_size v dvd a - v_data v
      then map_option (\<lambda>es. v\<lparr>v_elems := es\<rparr>) (wr (v_elems v) (vector_index v a) x) else None)"

definition vector_inv :: "'a vector \<Rightarrow> bool" where
  "vector_inv v \<longleftrightarrow> 0 < v_elem_size v \<and> v_capacity v = int (length (v_elems v))"

section \<open>Properties\<close>

lemma vector_index_borrow [simp]: "0 < v_elem_size v \<Longrightarrow> vector_index v (vector_borrow v i) = i"
  by (simp add: vector_index_def vector_borrow_def)

lemma vector_borrow_inj [simp]: "0 < v_elem_size v \<Longrightarrow> vector_borrow v i = vector_borrow v j \<longleftrightarrow> i = j"
  by (simp add: vector_borrow_def)

lemma vector_load_borrow [simp]: "0 < v_elem_size v \<Longrightarrow> vector_load v (vector_borrow v i) = rd (v_elems v) i"
  by (simp add: vector_load_def) (simp add: vector_borrow_def)

lemma vector_store_borrow [simp]:
  "0 < v_elem_size v \<Longrightarrow>
   vector_store v (vector_borrow v i) x = map_option (\<lambda>es. v\<lparr>v_elems := es\<rparr>) (wr (v_elems v) i x)"
  by (simp add: vector_store_def) (simp add: vector_borrow_def)

lemma vector_borrow_elems [simp]: "vector_borrow (v\<lparr>v_elems := es\<rparr>) i = vector_borrow v i"
  by (simp add: vector_borrow_def)

lemma vector_init_loop_all:
  assumes "k \<le> length elems"
  shows "vector_init_loop init (int (length elems)) (int k) elems = Some (take k elems @ map init (drop k elems))"
  using assms
proof (induction "length elems - k" arbitrary: k elems)
  case 0
  then show ?case by (subst vector_init_loop.simps) simp
next
  case (Suc n)
  then have k: "k < length elems" by simp
  let ?e = "elems[k := init (elems ! k)]"
  have "vector_init_loop init (int (length elems)) (int k) elems
    = vector_init_loop init (int (length ?e)) (int (Suc k)) ?e"
    using k by (subst vector_init_loop.simps) (simp add: add.commute)
  also have "\<dots> = Some (take (Suc k) ?e @ map init (drop (Suc k) ?e))"
    by (rule Suc.hyps) (use k Suc.hyps in auto)
  also have "take (Suc k) ?e @ map init (drop (Suc k) ?e) = take k elems @ map init (drop k elems)"
    using k by (simp add: take_Suc_conv_app_nth Cons_nth_drop_Suc [symmetric])
  finally show ?case .
qed

text \<open>
  What \<open>vector_allocate\<close> promises, with the blocks that were live before as \<open>blocks\<close>.
\<close>

definition vector_allocated ::
  "int \<Rightarrow> nat \<Rightarrow> ('a \<Rightarrow> 'a) \<Rightarrow> 'a vector option \<Rightarrow> nat list \<Rightarrow> (int \<times> 'a vector option \<times> heap) option \<Rightarrow> bool"
  where
  "vector_allocated elem_size capacity init vector_out blocks res \<longleftrightarrow>
     (\<exists>h. res = Some (0, vector_out, h) \<and> live h = blocks \<and> heap_ok h) \<or>
     (\<exists>v h new. res = Some (1, Some v, h) \<and> live h = new @ blocks \<and> length new = 2 \<and> heap_ok h \<and>
        vector_inv v \<and> v_capacity v = int capacity \<and> v_elem_size v = elem_size \<and>
        (\<forall>e\<in>set (v_elems v). e \<in> range init))"

lemma vector_allocate_spec:
  assumes "heap_ok h" "0 < elem_size" "elem_size * int capacity < 2 ^ 32"
  shows "vector_allocated elem_size capacity init vector_out (live h)
    (vector_allocate elem_size (int capacity) init vector_out addr junk h)"
proof -
  have "vector_block_size elem_size (int capacity) div elem_size = int capacity"
    using assms(2,3) by (simp add: vector_block_size_def)
  then have init: "vector_init_loop init (int capacity) 0
      (map (junk b) [0..<nat (vector_block_size elem_size (int capacity) div elem_size)])
    = Some (map init (map (junk b) [0..<capacity]))" for b
    using vector_init_loop_all [of 0 "map (junk b) [0..<capacity]" init] by simp
  have complete: "vector_allocated elem_size capacity init vector_out (live h) (do {
      let elems = map (junk b1) [0..<nat (vector_block_size elem_size (int capacity) div elem_size)];
      elems \<leftarrow> vector_init_loop init (int capacity) 0 elems;
      Some (1,
        Some \<lparr>v_data = addr b1, v_elem_size = elem_size, v_capacity = int capacity, v_elems = elems\<rparr>, h') })"
    if "live h' = [b1, b0] @ live h" "heap_ok h'" for h' b0 b1
    using that assms(2) unfolding Let_def init by (auto simp: vector_allocated_def vector_inv_def)
  have fail: "vector_allocated elem_size capacity init vector_out (live h) (Some (0, vector_out, h'))"
    if "live h' = live h" "heap_ok h'" for h'
    using that by (simp add: vector_allocated_def)
  show ?thesis
    unfolding vector_allocate_def
    by (intro malloc_step [where Q = "vector_allocated elem_size capacity init vector_out (live h)"]
        free_step [where Q = "vector_allocated elem_size capacity init vector_out (live h)" and l = "live h"]
        fail assms(1) complete; simp)
qed

lemma vector_allocate_success:
  assumes "heap_ok h" "0 < elem_size" "elem_size * int n < 2 ^ 32"
    "vector_allocate elem_size (int n) init None addr junk h = Some (r, fv, h')" "r \<noteq> 0"
  shows "\<exists>v. fv = Some v \<and> heap_ok h' \<and> vector_inv v \<and> v_capacity v = int n"
  using vector_allocate_spec [OF assms(1-3), of init None addr junk] assms(4,5)
  by (auto simp: vector_allocated_def)

lemma vector_allocate_plenty:
  assumes "outcomes h = True # True # later" "0 < elem_size" "elem_size * int n < 2 ^ 32"
  shows "\<exists>v h'. vector_allocate elem_size (int n) init out addr junk h = Some (1, Some v, h') \<and> outcomes h' = later"
proof -
  have "vector_block_size elem_size (int n) div elem_size = int n"
    using assms(2,3) by (simp add: vector_block_size_def)
  then show ?thesis
    using assms(1) vector_init_loop_all [of 0 "map (junk b) [0..<n]" init for b]
    by (simp add: vector_allocate_def malloc_def Let_def)
qed

section \<open>Properties\<close>

lemma vector_load_updated [simp]:
  "0 < v_elem_size v \<Longrightarrow> vector_load (v\<lparr>v_elems := es\<rparr>) (vector_borrow v j) = rd es j"
  using vector_load_borrow [of "v\<lparr>v_elems := es\<rparr>" j] by simp

definition small_vector :: "nat vector" where
  "small_vector = \<lparr>v_data = 4096, v_elem_size = 16, v_capacity = 2, v_elems = [1, 2]\<rparr>"

text \<open>
  \<open>vector_borrow\<close> yields the address of an element inside the block of the vector, and the
  elements of two different indexes do not overlap.
\<close>

lemma vector_borrow_disjoint:
  assumes "vector_inv v" "0 \<le> i" "i < v_capacity v" "0 \<le> j" "j < v_capacity v" "i < j"
  shows "v_data v \<le> vector_borrow v i \<and> vector_borrow v i + v_elem_size v \<le> vector_borrow v j \<and>
    vector_borrow v j + v_elem_size v \<le> v_data v + v_elem_size v * v_capacity v"
proof -
  let ?s = "v_elem_size v"
  have s: "0 < ?s" using assms(1) by (simp add: vector_inv_def)
  have "0 * ?s \<le> i * ?s" "(i + 1) * ?s \<le> j * ?s" "(j + 1) * ?s \<le> v_capacity v * ?s"
    using assms s by (intro mult_right_mono; simp)+
  then show ?thesis by (simp add: vector_borrow_def algebra_simps)
qed

text \<open>
  What is written through a borrowed address is read back through it, and no other element
  changes.
\<close>

lemma vector_store_load:
  assumes "vector_inv v" "0 \<le> i" "i < v_capacity v" "0 \<le> j" "j < v_capacity v"
  shows "\<exists>v'. vector_store v (vector_borrow v i) x = Some v' \<and> vector_inv v' \<and>
    vector_load v' (vector_borrow v' j) = (if i = j then Some x else vector_load v (vector_borrow v j))"
proof -
  have "nat i = nat j \<longleftrightarrow> i = j" using assms by (auto simp: nat_eq_iff)
  then show ?thesis
    using assms by (auto simp: vector_inv_def nth_list_update)
qed

text \<open>
  \<open>vector_allocate\<close> leaks nothing when an allocation fails; otherwise every element of the new
  vector has been initialised, as long as the number of bytes fits into 32 bits.
\<close>

lemma vector_allocate_no_leak:
  assumes "heap_ok h" "0 < elem_size" "elem_size * int capacity < 2 ^ 32"
  shows "vector_allocated elem_size capacity init vector_out (live h)
    (vector_allocate elem_size (int capacity) init vector_out addr junk h)"
  by (rule vector_allocate_spec [OF assms])

text \<open>
  The byte count is computed in 32 bits and not checked: with 2 ^ 28 elements of 16 bytes it
  wraps around to 0, and the initialisation of the first element already lies outside the block.
\<close>

lemma vector_allocate_overflow:
  "vector_allocate 16 (2 ^ 28) init None addr junk \<lparr>outcomes = [True, True], live = [], fresh = 0\<rparr> = None"
  by (simp add: vector_allocate_def malloc_def vector_block_size_def vector_init_loop.simps rd_def)

end
