(* ===== verification/Expirator.thy ===== *)
theory Expirator
  imports HashMap DoubleChain Vector
begin

text \<open>
  The flow table idiom of the network functions and the expiry loop of
  \<open>dpdk-nfs/nf/lib/expirator.c\<close>. A flow table is a map from keys to indexes, a vector that stores
  the keys (the map holds pointers into it), and an allocator of the indexes in use. They are
  coherent (\<open>lib/coherence.h\<close>) when the entries of the map are exactly the allocated indexes, each
  with the key stored in its vector element.
\<close>

section \<open>Key pointers\<close>

text \<open>
  A key passed to the map is an object of the caller or an element of the key vector. The functions of
  the map that compare and hash keys may read a part of the object only; \<open>kv\<close> is that part.
\<close>

datatype 'e keyptr = At int | Obj 'e

primrec key_via :: "('e \<Rightarrow> 'k) \<Rightarrow> 'e vector \<Rightarrow> 'e keyptr \<Rightarrow> 'k" where
  "key_via kv v (At a) = kv (v_elems v ! nat (vector_index v a))"
| "key_via kv v (Obj e) = kv e"

text \<open>The usual case: the whole object is the key.\<close>

abbreviation key_at :: "'k vector \<Rightarrow> 'k keyptr \<Rightarrow> 'k" where
  "key_at \<equiv> key_via (\<lambda>k. k)"

section \<open>The expiry loop\<close>

text \<open>
  The pointers handed to the map are addresses of elements of the vector; \<open>deref\<close> reads a key through
  a pointer. For a flow table whose vector holds the keys it is \<open>key_at vector\<close>.
\<close>

partial_function (option) expire_items_single_map_loop ::
  "('p keyptr \<Rightarrow> 'k) \<Rightarrow> DoubleChain \<Rightarrow> 'e vector \<Rightarrow> ('p keyptr, 'k) cmap \<Rightarrow> int \<Rightarrow> int \<Rightarrow> int
   \<Rightarrow> (int \<times> DoubleChain \<times> 'e vector \<times> ('p keyptr, 'k) cmap) option" where
  "expire_items_single_map_loop deref chain vector m time index count = do {
     (more, chain, index) \<leftarrow> dchain_expire_one_index chain index time;
     if more \<noteq> 0 then do {
       let key = vector_borrow vector index;
       (m, erased) \<leftarrow> map_erase deref m (At key) (At key);
       let vector = vector_return vector index key;
       expire_items_single_map_loop deref chain vector m time index (count + 1)
     } else Some (count, chain, vector, m)
   }"

definition expire_items_single_map ::
  "('p keyptr \<Rightarrow> 'k) \<Rightarrow> DoubleChain \<Rightarrow> 'e vector \<Rightarrow> ('p keyptr, 'k) cmap \<Rightarrow> int
   \<Rightarrow> (int \<times> DoubleChain \<times> 'e vector \<times> ('p keyptr, 'k) cmap) option" where
  "expire_items_single_map deref chain vector m time =
     expire_items_single_map_loop deref chain vector m time (- 1) 0"

section \<open>Coherence\<close>

definition slot :: "'e vector \<Rightarrow> int \<Rightarrow> 'e keyptr \<times> int" where
  "slot v i = (At (vector_borrow v i), i)"

definition coherent_over ::
  "('e \<Rightarrow> 'k) \<Rightarrow> ('m \<Rightarrow> ('e keyptr \<times> int) set) \<Rightarrow> ('m \<Rightarrow> nat) \<Rightarrow> (('e keyptr \<Rightarrow> 'k) \<Rightarrow> 'm \<Rightarrow> bool)
   \<Rightarrow> 'm \<Rightarrow> 'e vector \<Rightarrow> dchain \<Rightarrow> bool" where
  "coherent_over kv entries cap ok m v ch \<longleftrightarrow>
     ok (key_via kv v) m \<and> vector_inv v \<and> dchain_index_range_fp ch = v_capacity v \<and>
     v_capacity v \<le> int (cap m) \<and> entries m = slot v ` set (dchain_indexes_fp ch)"

definition map_vec_chain_coherent :: "('e \<Rightarrow> 'k) \<Rightarrow> ('e keyptr, 'k) cmap \<Rightarrow> 'e vector \<Rightarrow> dchain \<Rightarrow> bool" where
  "map_vec_chain_coherent kv = coherent_over kv map_entries map_cap map_inv"

lemma slot_eq [simp]: "vector_inv v \<Longrightarrow> slot v i = slot v j \<longleftrightarrow> i = j"
  by (auto simp: slot_def)

lemma slot_mem [simp]: "(q, i) \<in> slot v ` S \<longleftrightarrow> q = At (vector_borrow v i) \<and> i \<in> S"
  by (auto simp: slot_def)

lemma vector_inv_index [simp]: "vector_inv v \<Longrightarrow> vector_index v (vector_borrow v i) = i"
  by (simp add: vector_inv_def)

lemma key_at_slot: "vector_inv v \<Longrightarrow> key_via kv v (At (vector_borrow v i)) = kv (v_elems v ! nat i)"
  by simp

section \<open>Client lemmas over the two contracts\<close>

locale flow_table = pointer_map get put erase entries lookup cap inv
  + expiring_index allocate rejuvenate expire_one is_allocated rep
  for get :: "('e keyptr \<Rightarrow> 'k) \<Rightarrow> 'm \<Rightarrow> 'e keyptr \<Rightarrow> int \<Rightarrow> (int \<times> int) option"
    and put :: "('e keyptr \<Rightarrow> 'k) \<Rightarrow> 'm \<Rightarrow> 'e keyptr \<Rightarrow> int \<Rightarrow> 'm option"
    and erase :: "('e keyptr \<Rightarrow> 'k) \<Rightarrow> 'm \<Rightarrow> 'e keyptr \<Rightarrow> 'e keyptr \<Rightarrow> ('m \<times> 'e keyptr) option"
    and entries :: "'m \<Rightarrow> ('e keyptr \<times> int) set"
    and lookup :: "('e keyptr \<Rightarrow> 'k) \<Rightarrow> 'm \<Rightarrow> 'k \<Rightarrow> int option"
    and cap :: "'m \<Rightarrow> nat"
    and inv :: "('e keyptr \<Rightarrow> 'k) \<Rightarrow> 'm \<Rightarrow> bool"
    and allocate :: "'c \<Rightarrow> int \<Rightarrow> int \<Rightarrow> (int \<times> 'c \<times> int) option"
    and rejuvenate :: "'c \<Rightarrow> int \<Rightarrow> int \<Rightarrow> (int \<times> 'c) option"
    and expire_one :: "'c \<Rightarrow> int \<Rightarrow> int \<Rightarrow> (int \<times> 'c \<times> int) option"
    and is_allocated :: "'c \<Rightarrow> int \<Rightarrow> bool option"
    and rep :: "dchain \<Rightarrow> 'c \<Rightarrow> bool"
begin

lemma coherent_lookup:
  assumes "coherent_over kv entries cap inv m v ch"
  shows "lookup (key_via kv v) m k = Some i \<longleftrightarrow> i \<in> set (dchain_indexes_fp ch) \<and> kv (v_elems v ! nat i) = k"
  using assms lookup_Some [of "key_via kv v" m k i]
  by (auto simp: coherent_over_def)

lemma coherent_keys_inj:
  assumes "coherent_over kv entries cap inv m v ch" "i \<in> set (dchain_indexes_fp ch)" "j \<in> set (dchain_indexes_fp ch)"
    "kv (v_elems v ! nat i) = kv (v_elems v ! nat j)"
  shows "i = j"
  using coherent_lookup [OF assms(1), of "kv (v_elems v ! nat j)"] assms by (metis option.inject)

lemma coherent_rejuvenate:
  assumes "coherent_over kv entries cap inv m v ch" "i \<in> set (dchain_indexes_fp ch)" "rep ch c"
  shows "coherent_over kv entries cap inv m v (dchain_rejuvenate_fp ch i t)"
  using assms rep_distinct [OF assms(3)] by (auto simp: coherent_over_def set_remove1_eq)

lemma coherent_remove:
  assumes co: "coherent_over kv entries cap inv m v ch" and i: "i \<in> set (dchain_indexes_fp ch)" and "rep ch c"
  shows "\<exists>m'. erase (key_via kv v) m (At (vector_borrow v i)) t = Some (m', At (vector_borrow v i)) \<and>
    coherent_over kv entries cap inv m' v (dchain_remove_index_fp ch i)"
proof -
  have "slot v i \<in> entries m" using co i by (auto simp: coherent_over_def)
  then obtain m' where m': "erase (key_via kv v) m (At (vector_borrow v i)) t = Some (m', At (vector_borrow v i))"
    "inv (key_via kv v) m'" "entries m' = entries m - {slot v i}" "cap m' = cap m"
    using erase_old [of "key_via kv v" m "At (vector_borrow v i)" i "At (vector_borrow v i)" t] co
    by (auto simp: coherent_over_def slot_def)
  moreover have "slot v ` set (dchain_indexes_fp ch) - {slot v i} = slot v ` (set (dchain_indexes_fp ch) - {i})"
    using co i by (auto simp: coherent_over_def)
  ultimately show ?thesis
    using co rep_distinct [OF assms(3)] by (auto simp: coherent_over_def set_remove1_eq)
qed

text \<open>
  Entering the key of a fresh element. All that is needed of the entries is that they are some of the
  elements in use.
\<close>

lemma put_slot:
  assumes inv: "inv (key_via kv v) m" and v: "vector_inv v" and cap: "v_capacity v \<le> int (cap m)"
    and ent: "entries m \<subseteq> slot v ` S" and S: "S \<subseteq> {0..<v_capacity v}"
    and new: "lookup (key_via kv v) m (kv e) = None" and i: "i \<notin> S" "0 \<le> i" "i < v_capacity v"
  shows "\<exists>m'. put (key_via kv (v\<lparr>v_elems := (v_elems v)[nat i := e]\<rparr>)) m (At (vector_borrow v i)) i = Some m' \<and>
    inv (key_via kv (v\<lparr>v_elems := (v_elems v)[nat i := e]\<rparr>)) m' \<and> entries m' = insert (slot v i) (entries m) \<and>
    cap m' = cap m"
proof -
  let ?v = "v\<lparr>v_elems := (v_elems v)[nat i := e]\<rparr>"
  have v': "vector_inv ?v" "nat i < length (v_elems v)" using v i by (auto simp: vector_inv_def)
  have other: "key_via kv ?v q = key_via kv v q" if "(q, j) \<in> entries m" for q j
  proof -
    from that ent obtain j where j: "j \<in> S" "q = At (vector_borrow v j)"
      by (auto simp: slot_def)
    have "nat i \<noteq> nat j" using S i j(1) by (auto simp: nat_eq_iff)
    then show ?thesis using j v by (simp add: vector_inv_def vector_index_def vector_borrow_def)
  qed
  have inv': "inv (key_via kv ?v) m" by (rule inv_frame [OF inv other])
  have key: "key_via kv ?v (At (vector_borrow v i)) = kv e"
    using key_at_slot [OF v'(1), of kv i] v'(2) by simp
  have "key_via kv ?v q \<noteq> key_via kv ?v (At (vector_borrow v i))" if "(q, j) \<in> entries m" for q j
    using that new lookup_None [OF inv, of "kv e"] other [OF that] unfolding key by auto
  moreover have "card (entries m) < cap m"
  proof -
    have fin: "finite S" using S by (rule finite_subset) simp
    have "card (entries m) \<le> card S" using ent fin by (rule surj_card_le [rotated])
    also have "\<dots> < nat (v_capacity v)"
    proof -
      have "S \<subset> {0..<v_capacity v}" using S i by auto
      from psubset_card_mono [OF _ this] show ?thesis by simp
    qed
    finally show ?thesis using cap by simp
  qed
  ultimately show ?thesis
    using put_new [OF inv', of "At (vector_borrow v i)" i] unfolding slot_def by blast
qed

lemma coherent_insert:
  assumes co: "coherent_over kv entries cap inv m v ch" and rep: "rep ch c"
    and new: "lookup (key_via kv v) m (kv e) = None" and i: "i \<notin> set (dchain_indexes_fp ch)"
    "0 \<le> i" "i < dchain_index_range_fp ch"
  shows "\<exists>m'. put (key_via kv (v\<lparr>v_elems := (v_elems v)[nat i := e]\<rparr>)) m (At (vector_borrow v i)) i = Some m' \<and>
    coherent_over kv entries cap inv m' (v\<lparr>v_elems := (v_elems v)[nat i := e]\<rparr>) (dchain_allocate_fp ch i t)"
proof -
  let ?v = "v\<lparr>v_elems := (v_elems v)[nat i := e]\<rparr>"
  have r: "inv (key_via kv v) m" "vector_inv v" "dchain_index_range_fp ch = v_capacity v"
    and ent: "entries m = slot v ` set (dchain_indexes_fp ch)" and cap: "v_capacity v \<le> int (cap m)"
    using co by (auto simp: coherent_over_def)
  have "set (dchain_indexes_fp ch) \<subseteq> {0..<v_capacity v}" using rep_range [OF rep] r(3) by auto
  from put_slot [OF r(1,2) cap equalityD1 [OF ent] this new i(1,2)] obtain m' where
    "put (key_via kv ?v) m (At (vector_borrow v i)) i = Some m'" "inv (key_via kv ?v) m'"
    "entries m' = insert (slot v i) (entries m)" "cap m' = cap m"
    using i(3) r(3) by auto
  moreover have "slot ?v = slot v" "vector_inv ?v" using r(2) by (auto simp: slot_def vector_inv_def)
  ultimately show ?thesis using co by (auto simp: coherent_over_def)
qed

end

interpretation ft: flow_table map_get map_put map_erase map_entries map_abs map_cap map_inv
  dchain_allocate_new_index dchain_rejuvenate_index dchain_expire_one_index dchain_is_index_allocated double_chainp
  by unfold_locales

lemmas mvc_coherent_lookup = ft.coherent_lookup [folded map_vec_chain_coherent_def]
  and mvc_coherent_keys_inj = ft.coherent_keys_inj [folded map_vec_chain_coherent_def]
  and mvc_coherent_rejuvenate = ft.coherent_rejuvenate [folded map_vec_chain_coherent_def]
  and mvc_coherent_remove = ft.coherent_remove [folded map_vec_chain_coherent_def]
  and mvc_coherent_insert = ft.coherent_insert [folded map_vec_chain_coherent_def]

lemma mvc_coherentD:
  assumes "map_vec_chain_coherent kv m v ch"
  shows "map_inv (key_via kv v) m" "vector_inv v" "dchain_index_range_fp ch = v_capacity v"
    "dchain_index_range_fp ch = int (length (v_elems v))" "0 < v_elem_size v"
    "v_capacity v = int (length (v_elems v))"
  using assms by (auto simp: map_vec_chain_coherent_def coherent_over_def vector_inv_def)

section \<open>The loop expires exactly the old indexes\<close>

lemma expire_items_single_map_loop_correct:
  assumes "double_chainp ch chain" "map_vec_chain_coherent kv m v ch"
  shows "\<exists>chain' m'. expire_items_single_map_loop (key_via kv v) chain v m time index count =
      Some (count + int (length (dchain_get_expired_indexes_fp ch time)), chain', v, m') \<and>
    double_chainp (dchain_expire_old_indexes_fp ch time) chain' \<and>
    map_vec_chain_coherent kv m' v (dchain_expire_old_indexes_fp ch time)"
  using assms
proof (induction "dchain_get_expired_indexes_fp ch time" arbitrary: ch chain m index count)
  case Nil
  then have e: "dchain_get_expired_indexes_fp ch time = []" by simp
  obtain i' where "dchain_expire_one_index chain index time = Some (0, chain, i')"
    using dc.expire_one_nothing [OF Nil.prems(1) e] by blast
  then show ?case
    using Nil.prems expired_nil(2) [OF e] e by (subst expire_items_single_map_loop.simps) simp
next
  case (Cons i "is")
  then have e: "dchain_get_expired_indexes_fp ch time = i # is" by simp
  obtain chain1 where c1: "dchain_expire_one_index chain index time = Some (1, chain1, i)"
    "double_chainp (dchain_remove_index_fp ch i) chain1" "i \<in> set (dchain_indexes_fp ch)"
    "dchain_get_expired_indexes_fp (dchain_remove_index_fp ch i) time = is"
    "dchain_expire_old_indexes_fp (dchain_remove_index_fp ch i) time = dchain_expire_old_indexes_fp ch time"
    using dc.expire_one_something [OF Cons.prems(1) e] by blast
  obtain m1 where m1: "map_erase (key_via kv v) m (At (vector_borrow v i)) (At (vector_borrow v i))
      = Some (m1, At (vector_borrow v i))"
    "map_vec_chain_coherent kv m1 v (dchain_remove_index_fp ch i)"
    using mvc_coherent_remove [OF Cons.prems(2) c1(3) Cons.prems(1)] by blast
  have "expire_items_single_map_loop (key_via kv v) chain v m time index count
    = expire_items_single_map_loop (key_via kv v) chain1 v m1 time i (count + 1)"
    by (subst expire_items_single_map_loop.simps) (simp add: c1(1) m1(1) vector_return_def)
  moreover note Cons.hyps(1) [OF c1(4) [symmetric] c1(2) m1(2), of i "count + 1"]
  ultimately show ?case using c1(4,5) e by (simp add: add.assoc)
qed

lemma expire_items_single_map_correct:
  assumes "double_chainp ch chain" "map_vec_chain_coherent kv m v ch"
  shows "\<exists>chain' m'. expire_items_single_map (key_via kv v) chain v m time =
      Some (int (length (dchain_get_expired_indexes_fp ch time)), chain', v, m') \<and>
    double_chainp (dchain_expire_old_indexes_fp ch time) chain' \<and>
    map_vec_chain_coherent kv m' v (dchain_expire_old_indexes_fp ch time)"
  using expire_items_single_map_loop_correct [OF assms, of time "- 1" 0]
  by (simp add: expire_items_single_map_def)

end
