(* ===== verification/FlowTable.thy ===== *)
theory FlowTable
  imports Expirator
begin

text \<open>
  The abstract view of a flow table. The network functions keep their flows in a map, a vector of
  keys and an allocator of indexes (theory \<open>Expirator\<close>); for a client this is a list of flows
  \<open>(key, index, time of last use)\<close>, the least recently used first. The lemmas of this theory are
  the refinement of each operation on the three containers by an operation on that list, and
  the network functions are verified over them.
\<close>

section \<open>The abstract table\<close>

type_synonym 'k flows = "('k \<times> int \<times> int) list"

definition find_flow :: "'k flows \<Rightarrow> 'k \<Rightarrow> int option" where
  "find_flow T k = map_option (\<lambda>(_, i, _). i) (find (\<lambda>(k', _, _). k' = k) T)"

definition touch_flow :: "'k flows \<Rightarrow> int \<Rightarrow> int \<Rightarrow> 'k flows" where
  "touch_flow T i now =
     filter (\<lambda>(_, j, _). j \<noteq> i) T @ map (\<lambda>(k, j, _). (k, j, now)) (filter (\<lambda>(_, j, _). j = i) T)"

definition add_flow :: "'k flows \<Rightarrow> 'k \<Rightarrow> int \<Rightarrow> int \<Rightarrow> 'k flows" where
  "add_flow T k i now = T @ [(k, i, now)]"

definition expire_flows :: "'k flows \<Rightarrow> int \<Rightarrow> 'k flows" where
  "expire_flows T time = filter (\<lambda>(_, _, t). \<not> t < time) T"

definition flows_wf :: "'k flows \<Rightarrow> int \<Rightarrow> int \<Rightarrow> bool" where
  "flows_wf T cap now \<longleftrightarrow>
     distinct (map fst T) \<and> distinct (map (fst \<circ> snd) T) \<and> sorted (map (snd \<circ> snd) T) \<and>
     (\<forall>(_, i, t)\<in>set T. 0 \<le> i \<and> i < cap \<and> t \<le> now)"

lemma flows_wfD: "flows_wf T cap now \<Longrightarrow> (k, i, t) \<in> set T \<Longrightarrow> 0 \<le> i \<and> i < cap \<and> t \<le> now"
  by (auto simp: flows_wf_def)

lemma flows_wf_same_index:
  assumes "flows_wf T cap now" "(k, i, t) \<in> set T" "(k', i, t') \<in> set T"
  shows "k = k' \<and> t = t'"
proof -
  have "inj_on (fst \<circ> snd) (set T)" using assms(1) by (simp add: flows_wf_def distinct_map)
  from inj_onD [OF this, of "(k, i, t)" "(k', i, t')"] show ?thesis using assms(2,3) by simp
qed

lemma touch_flow_member:
  "(k, j, t) \<in> set (touch_flow T i now) \<longleftrightarrow>
    (if j = i then t = now \<and> (\<exists>t. (k, i, t) \<in> set T) else (k, j, t) \<in> set T)"
  by (force simp: touch_flow_def)

lemma expire_flows_member: "(k, i, t) \<in> set (expire_flows T time) \<longleftrightarrow> (k, i, t) \<in> set T \<and> time \<le> t"
  by (auto simp: expire_flows_def)

lemma length_touch_flow [simp]: "length (touch_flow T i now) = length T"
  unfolding touch_flow_def
  using sum_length_filter_compl [of "\<lambda>(_, j, _). j = i" T] by (simp add: case_prod_unfold)

section \<open>The flows held by the containers\<close>

text \<open>As in theory \<open>Expirator\<close>, \<open>kv\<close> is the part of a vector element that is the key.\<close>

definition flows_of :: "('e \<Rightarrow> 'k) \<Rightarrow> 'e vector \<Rightarrow> dchain \<Rightarrow> 'k flows" where
  "flows_of kv v ch = map (\<lambda>(i, t). (kv (v_elems v ! nat i), i, t)) (dchain_alist_fp ch)"

definition flow_rep_via ::
  "('e \<Rightarrow> 'k) \<Rightarrow> 'k flows \<Rightarrow> int \<Rightarrow> ('e keyptr, 'k) cmap \<Rightarrow> 'e vector \<Rightarrow> DoubleChain \<Rightarrow> bool" where
  "flow_rep_via kv T now m v chain \<longleftrightarrow>
     (\<exists>ch. double_chainp ch chain \<and> map_vec_chain_coherent kv m v ch \<and> dchain_high_fp ch \<le> now \<and> T = flows_of kv v ch)"

abbreviation flow_rep :: "'k flows \<Rightarrow> int \<Rightarrow> ('k keyptr, 'k) cmap \<Rightarrow> 'k vector \<Rightarrow> DoubleChain \<Rightarrow> bool" where
  "flow_rep \<equiv> flow_rep_via (\<lambda>k. k)"

lemma flow_rep_later: "flow_rep_via kv T now m v chain \<Longrightarrow> now \<le> now' \<Longrightarrow> flow_rep_via kv T now' m v chain"
  by (fastforce simp: flow_rep_via_def)

lemma index_member: "i \<in> set (dchain_indexes_fp ch) \<longleftrightarrow> (\<exists>t. (i, t) \<in> set (dchain_alist_fp ch))"
  by (force simp: dchain_indexes_fp_def)

lemma flows_of_indexes: "map (fst \<circ> snd) (flows_of kv v ch) = dchain_indexes_fp ch"
  by (simp add: flows_of_def dchain_indexes_fp_def split_beta)

lemma flows_of_member:
  "(k, i, t) \<in> set (flows_of kv v ch) \<longleftrightarrow> (i, t) \<in> set (dchain_alist_fp ch) \<and> k = kv (v_elems v ! nat i)"
  by (force simp: flows_of_def)

lemma bnd_sorted_sorted: "bnd_sorted_fp ts low high \<Longrightarrow> sorted ts"
proof (induction ts arbitrary: low)
  case (Cons t ts)
  then show ?case using bnd_sorted_bounds [of ts t high] by auto
qed simp

lemma flow_rep_wf:
  assumes "flow_rep_via kv T now m v chain"
  shows "flows_wf T (v_capacity v) now"
proof -
  obtain ch where ch: "double_chainp ch chain" "map_vec_chain_coherent kv m v ch" "dchain_high_fp ch \<le> now"
    and T: "T = flows_of kv v ch"
    using assms by (auto simp: flow_rep_via_def)
  have i: "distinct (map (fst \<circ> snd) T)"
    unfolding T flows_of_indexes by (rule dc.rep_distinct [OF ch(1)])
  have k: "distinct (map fst T)"
  proof -
    have "inj_on (\<lambda>i. kv (v_elems v ! nat i)) (set (dchain_indexes_fp ch))"
      by (rule inj_onI) (use mvc_coherent_keys_inj [OF ch(2)] in blast)
    then have "distinct (map (\<lambda>i. kv (v_elems v ! nat i)) (dchain_indexes_fp ch))"
      using dc.rep_distinct [OF ch(1)] by (simp add: distinct_map)
    then show ?thesis by (simp add: T flows_of_def dchain_indexes_fp_def o_def split_beta)
  qed
  have s: "sorted (map (snd \<circ> snd) T)"
  proof -
    have "map (snd \<circ> snd) T = map snd (dchain_alist_fp ch)" by (simp add: T flows_of_def o_def split_beta)
    then show ?thesis
      using dc.rep_sorted [OF ch(1)] bnd_sorted_sorted unfolding dchain_sorted_fp_def by metis
  qed
  have "0 \<le> i \<and> i < v_capacity v \<and> t \<le> now" if "(k, i, t) \<in> set T" for k i t
  proof -
    have m: "(i, t) \<in> set (dchain_alist_fp ch)" using that by (simp add: T flows_of_member)
    then have "i \<in> set (dchain_indexes_fp ch)" by (auto simp: index_member)
    then show ?thesis
      using dc.rep_range [OF ch(1)] dc.rep_high [OF ch(1) m] ch(3) mvc_coherentD(3) [OF ch(2)] by auto
  qed
  then show ?thesis using i k s by (auto simp: flows_wf_def)
qed

lemma find_flow_Some:
  assumes "flows_wf T cap now"
  shows "find_flow T k = Some i \<longleftrightarrow> (\<exists>t. (k, i, t) \<in> set T)"
proof -
  have "distinct (map fst T)" using assms by (simp add: flows_wf_def)
  then show ?thesis
    by (induction T) (force simp: find_flow_def split: if_splits)+
qed

lemma find_flow_None: "find_flow T k = None \<longleftrightarrow> (\<forall>i t. (k, i, t) \<notin> set T)"
  by (induction T) (auto simp: find_flow_def)

section \<open>Each operation on the containers\<close>

lemma map_abs_flows:
  assumes "flow_rep_via kv T now m v chain"
  shows "map_abs (key_via kv v) m = find_flow T"
proof (rule map_eqI)
  fix k i
  obtain ch where ch: "double_chainp ch chain" "map_vec_chain_coherent kv m v ch" and T: "T = flows_of kv v ch"
    using assms by (auto simp: flow_rep_via_def)
  have "map_abs (key_via kv v) m k = Some i \<longleftrightarrow> i \<in> set (dchain_indexes_fp ch) \<and> kv (v_elems v ! nat i) = k"
    by (rule mvc_coherent_lookup [OF ch(2)])
  also have "\<dots> \<longleftrightarrow> (\<exists>t. (k, i, t) \<in> set T)"
    by (auto simp: T flows_of_member index_member)
  also have "\<dots> \<longleftrightarrow> find_flow T k = Some i"
    using find_flow_Some [OF flow_rep_wf [OF assms]] by simp
  finally show "map_abs (key_via kv v) m k = Some i \<longleftrightarrow> find_flow T k = Some i" .
qed

lemma flow_get:
  assumes "flow_rep_via kv T now m v chain"
  shows "map_get (key_via kv v) m (Obj e) x = Some (case find_flow T (kv e) of None \<Rightarrow> (0, x) | Some i \<Rightarrow> (1, i))"
proof -
  obtain ch where "map_vec_chain_coherent kv m v ch" using assms by (auto simp: flow_rep_via_def)
  then have "map_inv (key_via kv v) m" by (rule mvc_coherentD)
  from map_get_abs [OF this, of "Obj e" x] show ?thesis by (simp add: map_abs_flows [OF assms])
qed

text \<open>The keys of the map are elements of the vector; a lookup may read keys by any function that agrees there.\<close>

lemma flow_get_via:
  assumes "flow_rep_via kv T now m v chain" "\<And>i. 0 \<le> i \<Longrightarrow> i < v_capacity v \<Longrightarrow> d (At (vector_borrow v i)) = kv (v_elems v ! nat i)"
    "d (Obj e) = kv e"
  shows "map_get d m (Obj e) x = Some (case find_flow T (kv e) of None \<Rightarrow> (0, x) | Some i \<Rightarrow> (1, i))"
proof -
  obtain ch where ch: "double_chainp ch chain" "map_vec_chain_coherent kv m v ch" using assms by (auto simp: flow_rep_via_def)
  have inv: "map_inv (key_via kv v) m" "vector_inv v" "dchain_index_range_fp ch = v_capacity v"
    by (rule mvc_coherentD [OF ch(2)])+
  have "d q = key_via kv v q" if "(q, i) \<in> map_entries m" for q i
  proof -
    have "i \<in> set (dchain_indexes_fp ch)" "q = At (vector_borrow v i)"
      using that ch(2) by (simp_all add: map_vec_chain_coherent_def coherent_over_def)
    then show ?thesis
      using dc.rep_range [OF ch(1)] inv(2,3) assms(2) [of i] by (simp add: key_at_slot)
  qed
  then have "map_get d m (Obj e) x = map_get (key_via kv v) m (Obj e) x"
    by (intro hm.get_frame [OF inv(1)]) (use assms(3) in auto)
  then show ?thesis using flow_get [OF assms(1)] by simp
qed

lemma flow_vector:
  assumes "flow_rep_via kv T now m v chain"
  shows "vector_inv v" "0 < v_elem_size v" "v_capacity v = int (length (v_elems v))"
    "(k, i, t) \<in> set T \<Longrightarrow> \<exists>e. rd (v_elems v) i = Some e \<and> kv e = k"
proof -
  obtain ch where ch: "double_chainp ch chain" "map_vec_chain_coherent kv m v ch" and T: "T = flows_of kv v ch"
    using assms by (auto simp: flow_rep_via_def)
  show "vector_inv v" "0 < v_elem_size v" and c: "v_capacity v = int (length (v_elems v))"
    using mvc_coherentD [OF ch(2)] by auto
  show "\<exists>e. rd (v_elems v) i = Some e \<and> kv e = k" if "(k, i, t) \<in> set T"
    using flows_wfD [OF flow_rep_wf [OF assms] that] that c by (simp add: T flows_of_member)
qed

lemma flow_is_allocated:
  assumes "flow_rep_via kv T now m v chain" "0 \<le> i" "i < v_capacity v"
  shows "dchain_is_index_allocated chain i = Some (\<exists>k t. (k, i, t) \<in> set T)"
proof -
  obtain ch where ch: "double_chainp ch chain" "map_vec_chain_coherent kv m v ch" and T: "T = flows_of kv v ch"
    using assms by (auto simp: flow_rep_via_def)
  have "i \<in> set (dchain_indexes_fp ch) \<longleftrightarrow> (\<exists>k t. (k, i, t) \<in> set T)"
    by (auto simp: T flows_of_member index_member)
  then show ?thesis
    using dc.is_allocated [OF ch(1) assms(2)] assms(3) mvc_coherentD(3) [OF ch(2)] by simp
qed

lemma remove_by_index_filter:
  "distinct (map fst al) \<Longrightarrow> remove_by_index_fp al i = filter (\<lambda>c. fst c \<noteq> i) al"
proof (induction al)
  case (Cons a al)
  then have "filter (\<lambda>c. fst c \<noteq> i) al = al" if "fst a = i"
    using that by (auto simp: filter_id_conv) (metis fst_conv imageI)
  then show ?case using Cons by simp
qed simp

lemma filter_this_index:
  "distinct (map fst al) \<Longrightarrow> (i, t) \<in> set al \<Longrightarrow> filter (\<lambda>c. fst c = i) al = [(i, t)]"
proof (induction al)
  case (Cons a al)
  have "filter (\<lambda>c. fst c = i) al = []" if "a = (i, t)"
    using Cons.prems that by (force simp: filter_empty_conv)
  moreover have "fst a \<noteq> i" if "(i, t) \<in> set al"
    using Cons.prems(1) imageI [OF that, of fst] by auto
  ultimately show ?case using Cons by auto
qed simp

lemma flow_rejuvenate:
  assumes "flow_rep_via kv T now m v chain" "(k, i, t) \<in> set T" "now \<le> now'"
  shows "\<exists>chain'. dchain_rejuvenate_index chain i now' = Some (1, chain') \<and>
    flow_rep_via kv (touch_flow T i now') now' m v chain'"
proof -
  obtain ch where ch: "double_chainp ch chain" "map_vec_chain_coherent kv m v ch" "dchain_high_fp ch \<le> now"
    and T: "T = flows_of kv v ch"
    using assms by (auto simp: flow_rep_via_def)
  have m: "(i, t) \<in> set (dchain_alist_fp ch)" using assms(2) by (simp add: T flows_of_member)
  then have i: "i \<in> set (dchain_indexes_fp ch)" by (force simp: dchain_indexes_fp_def)
  obtain chain' where c: "dchain_rejuvenate_index chain i now' = Some (1, chain')"
    "double_chainp (dchain_rejuvenate_fp ch i now') chain'"
    using dc.rejuvenate_old [OF ch(1)] i ch(3) assms(3) by (metis dchain_allocated_indexes order_trans)
  have d: "distinct (map fst (dchain_alist_fp ch))"
    using dc.rep_distinct [OF ch(1)] by (simp add: dchain_indexes_fp_def)
  have "flows_of kv v (dchain_rejuvenate_fp ch i now') = touch_flow T i now'"
    using filter_this_index [OF d m]
    by (simp add: flows_of_def dchain_rejuvenate_fp_def remove_by_index_filter [OF d] touch_flow_def T
        filter_map o_def split_beta)
  then show ?thesis
    using c mvc_coherent_rejuvenate [OF ch(2) i ch(1), of now'] unfolding flow_rep_via_def
    by (metis dchain_fields(8) order_refl)
qed

lemma flow_rejuvenate_absent:
  assumes "flow_rep_via kv T now m v chain" "0 \<le> i" "i < v_capacity v" "\<forall>k t. (k, i, t) \<notin> set T"
  shows "dchain_rejuvenate_index chain i now' = Some (0, chain)"
proof -
  obtain ch where ch: "double_chainp ch chain" "map_vec_chain_coherent kv m v ch" and T: "T = flows_of kv v ch"
    using assms by (auto simp: flow_rep_via_def)
  have "i \<notin> set (dchain_indexes_fp ch)" using assms(4) by (auto simp: T flows_of_member index_member)
  then show ?thesis
    using dc.rejuvenate_none [OF ch(1) assms(2)] assms(3) mvc_coherentD(3) [OF ch(2)] by simp
qed

lemma touch_flow_absent:
  assumes "\<forall>k t. (k, i, t) \<notin> set T"
  shows "touch_flow T i now = T"
proof -
  have "filter (\<lambda>(_, j, _). j \<noteq> i) T = T" by (rule filter_True) (use assms in auto)
  moreover have "filter (\<lambda>(_, j, _). j = i) T = []" by (rule filter_False) (use assms in auto)
  ultimately show ?thesis by (simp add: touch_flow_def)
qed

lemma flow_length:
  assumes "flow_rep_via kv T now m v chain"
  shows "int (length T) \<le> v_capacity v"
proof -
  obtain ch where ch: "double_chainp ch chain" "map_vec_chain_coherent kv m v ch" and T: "T = flows_of kv v ch"
    using assms by (auto simp: flow_rep_via_def)
  have "length T = length (dchain_indexes_fp ch)" by (simp add: T flows_of_def dchain_indexes_fp_def)
  then show ?thesis using double_chainp_wf(5) [OF ch(1)] mvc_coherentD(3) [OF ch(2)] by simp
qed

lemma flow_allocate_full:
  assumes "flow_rep_via kv T now m v chain" "int (length T) = v_capacity v"
  shows "dchain_allocate_new_index chain x now' = Some (0, chain, x)"
proof -
  obtain ch where ch: "double_chainp ch chain" "map_vec_chain_coherent kv m v ch" and T: "T = flows_of kv v ch"
    using assms by (auto simp: flow_rep_via_def)
  have "dchain_out_of_space_fp ch"
    using assms(2) mvc_coherentD(3) [OF ch(2)] by (simp add: dchain_out_of_space_fp_def T flows_of_def)
  then show ?thesis by (rule dc.allocate_full [OF ch(1)])
qed

text \<open>Storing a new flow: take an index, write the key into its element, enter it into the map.\<close>

lemma flow_allocate:
  assumes "flow_rep_via kv T now m v chain" "int (length T) < v_capacity v" "find_flow T (kv e) = None" "now \<le> now'"
  shows "\<exists>chain' i v' m'. dchain_allocate_new_index chain x now' = Some (1, chain', i) \<and>
    0 \<le> i \<and> i < v_capacity v \<and> (\<forall>k t. (k, i, t) \<notin> set T) \<and>
    vector_store v (vector_borrow v i) e = Some v' \<and> v' = v\<lparr>v_elems := (v_elems v)[nat i := e]\<rparr> \<and>
    map_put (key_via kv v') m (At (vector_borrow v i)) i = Some m' \<and>
    flow_rep_via kv (add_flow T (kv e) i now') now' m' v' chain'"
proof -
  obtain ch where ch: "double_chainp ch chain" "map_vec_chain_coherent kv m v ch" "dchain_high_fp ch \<le> now"
    and T: "T = flows_of kv v ch"
    using assms by (auto simp: flow_rep_via_def)
  note v = flow_vector [OF assms(1)]
  have r: "dchain_index_range_fp ch = v_capacity v" by (rule mvc_coherentD(3) [OF ch(2)])
  have "\<not> dchain_out_of_space_fp ch"
    using assms(2) r by (simp add: dchain_out_of_space_fp_def T flows_of_def)
  then obtain chain' i where c: "dchain_allocate_new_index chain x now' = Some (1, chain', i)"
    "\<not> dchain_allocated_fp ch i" "0 \<le> i" "i < dchain_index_range_fp ch"
    "double_chainp (dchain_allocate_fp ch i now') chain'"
    using dc.allocate_new [OF ch(1)] ch(3) assms(4) by (metis order_trans)
  let ?v = "v\<lparr>v_elems := (v_elems v)[nat i := e]\<rparr>"
  have new: "i \<notin> set (dchain_indexes_fp ch)" using c(2) by simp
  have "map_abs (key_via kv v) m (kv e) = None" using map_abs_flows [OF assms(1)] assms(3) by simp
  from mvc_coherent_insert [OF ch(2) ch(1) this new c(3,4), of now'] obtain m' where
    m': "map_put (key_via kv ?v) m (At (vector_borrow v i)) i = Some m'"
    "map_vec_chain_coherent kv m' ?v (dchain_allocate_fp ch i now')" by blast
  have "flows_of kv ?v (dchain_allocate_fp ch i now') = add_flow T (kv e) i now'"
  proof -
    have "(v_elems v)[nat i := e] ! nat j = v_elems v ! nat j" if "(j, t) \<in> set (dchain_alist_fp ch)" for j t
    proof -
      have j: "j \<in> set (dchain_indexes_fp ch)" using that by (force simp: dchain_indexes_fp_def)
      then have "nat i \<noteq> nat j" using dc.rep_range [OF ch(1) j] c(3) new by (auto simp: nat_eq_iff)
      then show ?thesis by simp
    qed
    moreover have "nat i < length (v_elems v)" using c(3,4) r v(3) by simp
    ultimately show ?thesis
      by (auto simp: flows_of_def dchain_allocate_fp_def add_flow_def T)
  qed
  moreover have "\<forall>k t. (k, i, t) \<notin> set T"
    using new by (force simp: T flows_of_member dchain_indexes_fp_def)
  moreover have "vector_store v (vector_borrow v i) e = Some ?v"
    using v(2,3) c(3,4) r by simp
  ultimately show ?thesis
    using c m' r unfolding flow_rep_via_def by (metis dchain_fields(4) order_refl)
qed

lemma flow_expire:
  assumes "flow_rep_via kv T now m v chain"
  shows "\<exists>chain' m'. expire_items_single_map (key_via kv v) chain v m time =
      Some (int (length T) - int (length (expire_flows T time)), chain', v, m') \<and>
    flow_rep_via kv (expire_flows T time) now m' v chain'"
proof -
  obtain ch where ch: "double_chainp ch chain" "map_vec_chain_coherent kv m v ch" "dchain_high_fp ch \<le> now"
    and T: "T = flows_of kv v ch"
    using assms by (auto simp: flow_rep_via_def)
  obtain chain' m' where e: "expire_items_single_map (key_via kv v) chain v m time =
      Some (int (length (dchain_get_expired_indexes_fp ch time)), chain', v, m')"
    "double_chainp (dchain_expire_old_indexes_fp ch time) chain'"
    "map_vec_chain_coherent kv m' v (dchain_expire_old_indexes_fp ch time)"
    using expire_items_single_map_correct [OF ch(1,2)] by blast
  have f: "flows_of kv v (dchain_expire_old_indexes_fp ch time) = expire_flows T time"
    by (simp add: flows_of_def dchain_expire_old_sorted [OF dc.rep_sorted [OF ch(1)]] expire_flows_def T
        filter_map o_def split_beta is_cell_expired_def)
  have "length (filter (is_cell_expired time) (dchain_alist_fp ch)) + length (expire_flows T time) = length T"
    using sum_length_filter_compl [of "is_cell_expired time" "dchain_alist_fp ch"]
    by (simp add: expire_flows_def T flows_of_def filter_map o_def split_beta is_cell_expired_def)
  then have "int (length (dchain_get_expired_indexes_fp ch time)) = int (length T) - int (length (expire_flows T time))"
    by (simp add: dchain_get_expired_indexes_fp_def get_expired_indexes_fp_def)
  moreover have "dchain_high_fp (dchain_expire_old_indexes_fp ch time) = dchain_high_fp ch"
    by (simp add: dchain_expire_old_indexes_fp_def)
  ultimately show ?thesis
    using e f ch(3) unfolding flow_rep_via_def by metis
qed

section \<open>Memory that was not initialised\<close>

text \<open>
  What the blocks returned by \<open>malloc\<close> hold: integers, key pointers, allocator cells, time stamps
  and vector elements, and the addresses of vectors.
\<close>

record 'e uninit =
  u_ints :: "nat \<Rightarrow> nat \<Rightarrow> int"
  u_ptrs :: "nat \<Rightarrow> nat \<Rightarrow> 'e keyptr"
  u_cells :: "nat \<Rightarrow> nat \<Rightarrow> dchain_cell"
  u_times :: "nat \<Rightarrow> nat \<Rightarrow> int"
  u_addr :: "nat \<Rightarrow> int"
  u_elems :: "nat \<Rightarrow> nat \<Rightarrow> 'e"

lemma flow_rep_empty:
  assumes "map_inv (key_via kv v) m" "map_abs (key_via kv v) m = Map.empty" "map_cap m = n"
    "vector_inv v" "v_capacity v = int n" "double_chainp (empty_dchain_fp (int n) 0) chain"
  shows "flow_rep_via kv [] 0 m v chain"
proof -
  have "map_entries m = {}"
    using hm.lookup_Some [OF assms(1)] assms(2) by auto
  then have "map_vec_chain_coherent kv m v (empty_dchain_fp (int n) 0)"
    using assms by (simp add: map_vec_chain_coherent_def coherent_over_def)
  then show ?thesis
    unfolding flow_rep_via_def
    by (intro exI [of _ "empty_dchain_fp (int n) 0"]) (use assms in \<open>simp add: flows_of_def empty_dchain_fp_def\<close>)
qed

text \<open>The three containers of a flow table, freshly allocated one after the other.\<close>

lemma containers_allocated:
  assumes "heap_ok h" "capacity_ok n" "\<And>a b. keq a b \<longleftrightarrow> a = b" "0 < esize" "esize * int n < 2 ^ 32"
    and m: "map_allocate keq khash (int n) None (u_ints mem) (u_ptrs mem) h = Some (r1, fm, h1)" "r1 \<noteq> 0"
    and v: "vector_allocate esize (int n) init None (u_addr mem) (u_elems mem) h1 = Some (r2, fv, h2)" "r2 \<noteq> 0"
    and c: "dchain_allocate (int n) None (u_cells mem) (u_times mem) h2 = Some (r3, chain, h3)" "r3 \<noteq> 0"
  shows "\<exists>m v c. fm = Some m \<and> fv = Some v \<and> chain = Some c \<and> flow_rep_via kv [] 0 m v c \<and>
    v_capacity v = int n \<and> heap_ok h3"
proof -
  have n: "0 < n" using assms(2) by (auto simp: capacity_ok_def)
  obtain m' where m': "fm = Some m'" "heap_ok h1" using map_allocate_success [OF assms(1-3) m] by blast
  have minv: "map_inv d m' \<and> map_cap m' = n \<and> map_abs d m' = Map.empty" for d
    using map_allocate_success [OF assms(1-3) m] m'(1) by auto
  obtain v' where v': "fv = Some v'" "heap_ok h2" "vector_inv v'" "v_capacity v' = int n"
    using vector_allocate_success [OF m'(2) assms(4,5) v] by auto
  obtain c' where c': "chain = Some c'" "heap_ok h3" "double_chainp (empty_dchain_fp (int n) 0) c'"
    using dchain_allocate_success [OF v'(2) n c] by blast
  have "flow_rep_via kv [] 0 m' v' c'"
    by (rule flow_rep_empty [of _ v' m' n]) (use minv v' c' in auto)
  then show ?thesis using m'(1) v'(1,4) c'(1,2) by blast
qed

lemma flows_wf_expire: "flows_wf T cap now \<Longrightarrow> flows_wf (expire_flows T time) cap now"
  by (auto simp: flows_wf_def expire_flows_def distinct_map_filter sorted_filter)

lemma length_expire_flows: "length (expire_flows T time) \<le> length T"
  by (simp add: expire_flows_def)

section \<open>Small tables\<close>

text \<open>An empty table of two flows, in which every key hashes to the same cell.\<close>

definition small_flow_map :: "('k keyptr, 'k) cmap" where
  "small_flow_map = \<lparr>m_busybits = [0, 0], m_keyps = [At 0, At 0], m_khs = [0, 0], m_chns = [0, 0],
     m_vals = [0, 0], m_capacity = 2, m_size = 0, m_keys_eq = (=), m_khash = (\<lambda>_. 0)\<rparr>"

definition small_flow_vector :: "'k \<Rightarrow> 'k vector" where
  "small_flow_vector k = \<lparr>v_data = 4096, v_elem_size = 16, v_capacity = 2, v_elems = [k, k]\<rparr>"

definition small_flow_chain :: DoubleChain where
  "small_flow_chain = \<lparr>dc_cells = two_free, dc_timestamps = [0, 0]\<rparr>"

lemma small_flow_rep: "flow_rep [] 0 small_flow_map (small_flow_vector k) small_flow_chain"
proof (rule flow_rep_empty [of _ _ _ 2])
  have c: "capacity_ok 2" by (auto simp: capacity_ok_def intro: exI [of _ 1])
  show "map_inv (key_at (small_flow_vector k)) small_flow_map"
    using map_impl_inv_empty [OF c, of "[At 0, At 0]" "[0, 0]" "[0, 0]" "key_at (small_flow_vector k)" "\<lambda>_. 0"]
    by (auto simp: map_inv_def map_cap_def map_entries_def map_impl_entries_def small_flow_map_def
        numeral_2_eq_2 less_Suc_eq)
  show "map_abs (key_at (small_flow_vector k)) small_flow_map = Map.empty"
    by (simp add: map_abs_def map_impl_abs_def small_flow_map_def)
  show "double_chainp (empty_dchain_fp (int 2) 0) small_flow_chain"
    unfolding double_chainp_def
    by (rule exI [of _ "empty_dchaini_fp 2"])
      (use two_free_ip in \<open>simp add: small_flow_chain_def empty_dchain_fp_def empty_dchaini_fp_def dchain_sorted_fp_def\<close>)
qed (simp_all add: small_flow_map_def map_cap_def small_flow_vector_def vector_inv_def)

lemma one_flow_rep:
  assumes "0 \<le> t"
  obtains m v c i where "flow_rep [(k, i, t)] t m v c" "v_capacity v = 2" "0 \<le> i" "i < 2"
proof -
  have "find_flow [] k = None" "int (length ([] :: 'a flows)) < v_capacity (small_flow_vector k)"
    by (simp_all add: find_flow_def small_flow_vector_def)
  from flow_allocate [OF small_flow_rep this(2) this(1) assms, of 0] that show thesis
    by (auto simp: add_flow_def small_flow_vector_def)
qed

section \<open>Properties\<close>

text \<open>
  In every state that represents a table of flows, no two flows have the same key or the same
  index, all indexes lie in the range of the table, the flows are ordered by their time of last
  use, and there are at most as many flows as the capacity.
\<close>

lemma flow_table_invariant:
  assumes "flow_rep T now m v chain"
  shows "flows_wf T (v_capacity v) now \<and> int (length T) \<le> v_capacity v"
  using flow_rep_wf [OF assms] flow_length [OF assms] by blast

text \<open>
  The map of a flow table finds exactly the flows of the table: a lookup by key returns the
  index of the flow with that key, or 0 when there is none.
\<close>

lemma flow_lookup_refines:
  assumes "flow_rep T now m v chain"
  shows "map_get (key_at v) m (Obj k) x = Some (case find_flow T k of None \<Rightarrow> (0, x) | Some i \<Rightarrow> (1, i))"
  by (rule flow_get [OF assms])

text \<open>
  Entering a new flow: taking an index, writing the key into the vector element of that index
  and putting its address into the map succeeds whenever the table is not full, uses an index that
  no other flow has, and adds exactly this flow to the table.
\<close>

lemma flow_insert_refines:
  assumes "flow_rep T now m v chain" "int (length T) < v_capacity v" "find_flow T k = None" "now \<le> now'"
  shows "\<exists>chain' i v' m'. dchain_allocate_new_index chain x now' = Some (1, chain', i) \<and>
    (\<forall>k t. (k, i, t) \<notin> set T) \<and>
    vector_store v (vector_borrow v i) k = Some v' \<and>
    map_put (key_at v') m (At (vector_borrow v i)) i = Some m' \<and>
    flow_rep (add_flow T k i now') now' m' v' chain'"
  using flow_allocate [OF assms, of x] by blast

text \<open>
  C12. \<open>expire_items_single_map\<close> terminates and removes exactly the flows last used before the given
  time: the remaining flows keep their keys, indexes and order, the three containers stay coherent,
  and the result is the number of flows removed.
\<close>

theorem expire_items_single_map_refines:
  assumes "flow_rep T now m v chain"
  shows "\<exists>chain' m'. expire_items_single_map (key_at v) chain v m time =
      Some (int (length T) - int (length (expire_flows T time)), chain', v, m') \<and>
    flow_rep (expire_flows T time) now m' v chain'"
  by (rule flow_expire [OF assms])

theorem expire_items_single_map_refines_witness:
  "\<exists>m v c i c' m'. flow_rep [(7 :: nat, i, 5)] 5 m v c \<and>
    expire_items_single_map (key_at v) c v m 6 = Some (1, c', v, m') \<and> flow_rep [] 5 m' v c'"
proof -
  obtain m v c i where r: "flow_rep [(7 :: nat, i, 5)] 5 m v c" by (rule one_flow_rep [of 5 7]) auto
  obtain c' m' where "expire_items_single_map (key_at v) c v m 6 = Some (1, c', v, m')" "flow_rep [] 5 m' v c'"
    using expire_items_single_map_refines [OF r, of 6] by (auto simp: expire_flows_def)
  with r show ?thesis by blast
qed

lemma two_flows_rep:
  assumes "0 \<le> t" "k \<noteq> k'"
  obtains m v c i j where "flow_rep [(k, i, t), (k', j, t)] t m v c" "v_capacity v = 2"
proof -
  obtain m v c i where one: "flow_rep [(k, i, t)] t m v c" "v_capacity v = 2"
    by (rule one_flow_rep [OF assms(1), of k])
  have "find_flow [(k, i, t)] k' = None" "int (length [(k, i, t)]) < v_capacity v"
    using assms(2) one(2) by (simp_all add: find_flow_def)
  from flow_allocate [OF one(1) this(2) this(1) order_refl, of 0] that one(2) show thesis
    by (auto simp: add_flow_def)
qed

end
