(* ===== verification/NfUtil.thy ===== *)
theory NfUtil
  imports Prelude
begin

text \<open>
  Packets and the header accessors of \<open>dpdk-nfs/nf/lib/nf_util.c\<close>. A packet buffer is the list of
  its bytes; a header pointer is an offset into it. The layouts are those of the packed structures
  of DPDK (\<open>lib/stubs/dpdk/rte_ether.h\<close>, \<open>rte_ip.h\<close>) on a little endian machine. The checksum
  routines of DPDK are not part of the sources: they are parameters, bundled in the record
  \<open>cksum_lib\<close>.
\<close>

section \<open>Bytes of a packet\<close>

record mbuf =
  mbuf_port :: u16
  mbuf_data :: "u8 list"

definition get16 :: "u8 list \<Rightarrow> nat \<Rightarrow> u16" where
  "get16 d i = ucast (d ! i) + 256 * ucast (d ! (i + 1))"

definition put16 :: "u8 list \<Rightarrow> nat \<Rightarrow> u16 \<Rightarrow> u8 list" where
  "put16 d i w = d[i := ucast w, i + 1 := ucast (drop_bit 8 w)]"

definition get32 :: "u8 list \<Rightarrow> nat \<Rightarrow> u32" where
  "get32 d i = ucast (get16 d i) + 65536 * ucast (get16 d (i + 2))"

definition put32 :: "u8 list \<Rightarrow> nat \<Rightarrow> u32 \<Rightarrow> u8 list" where
  "put32 d i w = put16 (put16 d i (ucast w)) (i + 2) (ucast (drop_bit 16 w))"

text \<open>The accesses of the code, which go wrong outside the buffer.\<close>

definition ld8 :: "u8 list \<Rightarrow> nat \<Rightarrow> u8 option" where
  "ld8 d i = (if i < length d then Some (d ! i) else None)"

definition ld16 :: "u8 list \<Rightarrow> nat \<Rightarrow> u16 option" where
  "ld16 d i = (if i + 1 < length d then Some (get16 d i) else None)"

definition ld32 :: "u8 list \<Rightarrow> nat \<Rightarrow> u32 option" where
  "ld32 d i = (if i + 3 < length d then Some (get32 d i) else None)"

definition st16 :: "u8 list \<Rightarrow> nat \<Rightarrow> u16 \<Rightarrow> u8 list option" where
  "st16 d i w = (if i + 1 < length d then Some (put16 d i w) else None)"

definition st32 :: "u8 list \<Rightarrow> nat \<Rightarrow> u32 \<Rightarrow> u8 list option" where
  "st32 d i w = (if i + 3 < length d then Some (put32 d i w) else None)"

text \<open>Copying several bytes, such as an Ethernet address.\<close>

definition put_bytes :: "u8 list \<Rightarrow> nat \<Rightarrow> u8 list \<Rightarrow> u8 list" where
  "put_bytes d i bs = take i d @ bs @ drop (i + length bs) d"

definition st_bytes :: "u8 list \<Rightarrow> nat \<Rightarrow> u8 list \<Rightarrow> u8 list option" where
  "st_bytes d i bs = (if i + length bs \<le> length d then Some (put_bytes d i bs) else None)"

definition ld_bytes :: "u8 list \<Rightarrow> nat \<Rightarrow> nat \<Rightarrow> u8 list option" where
  "ld_bytes d i n = (if i + n \<le> length d then Some (take n (drop i d)) else None)"

definition rte_cpu_to_be_16 :: "u16 \<Rightarrow> u16" where
  "rte_cpu_to_be_16 w = or (push_bit 8 w) (drop_bit 8 w)"

section \<open>Layout of the headers\<close>

definition sizeof_ether_hdr :: nat where "sizeof_ether_hdr = 14"
definition ether_d_addr :: nat where "ether_d_addr = 0"
definition ether_s_addr :: nat where "ether_s_addr = 6"
definition ether_type :: nat where "ether_type = 12"

definition sizeof_ipv4_hdr :: nat where "sizeof_ipv4_hdr = 20"
definition version_ihl :: nat where "version_ihl = 0"
definition total_length :: nat where "total_length = 2"
definition time_to_live :: nat where "time_to_live = 8"
definition next_proto_id :: nat where "next_proto_id = 9"
definition hdr_checksum :: nat where "hdr_checksum = 10"
definition src_addr :: nat where "src_addr = 12"
definition dst_addr :: nat where "dst_addr = 16"

definition tcpudp_src_port :: nat where "tcpudp_src_port = 0"
definition tcpudp_dst_port :: nat where "tcpudp_dst_port = 2"
definition tcp_cksum :: nat where "tcp_cksum = 16"
definition udp_dgram_cksum :: nat where "udp_dgram_cksum = 6"
definition icmp_cksum :: nat where "icmp_cksum = 2"

definition RTE_ETHER_TYPE_IPV4 :: u16 where "RTE_ETHER_TYPE_IPV4 = 0x0800"
definition RTE_ETHER_TYPE_ARP :: u16 where "RTE_ETHER_TYPE_ARP = 0x0806"
definition IPPROTO_ICMP :: u8 where "IPPROTO_ICMP = 1"
definition IPPROTO_TCP :: u8 where "IPPROTO_TCP = 6"
definition IPPROTO_UDP :: u8 where "IPPROTO_UDP = 17"

lemmas layout = sizeof_ether_hdr_def ether_d_addr_def ether_s_addr_def ether_type_def sizeof_ipv4_hdr_def
  version_ihl_def total_length_def time_to_live_def next_proto_id_def hdr_checksum_def src_addr_def
  dst_addr_def tcpudp_src_port_def tcpudp_dst_port_def tcp_cksum_def udp_dgram_cksum_def icmp_cksum_def

section \<open>The accessors\<close>

text \<open>The value of a pointer-valued function is \<open>Some None\<close> for NULL.\<close>

definition nf_get_mbuf_ether_header :: "mbuf \<Rightarrow> nat" where
  "nf_get_mbuf_ether_header mbuf = 0"

definition nf_get_mbuf_ipv4_header :: "mbuf \<Rightarrow> nat option option" where
  "nf_get_mbuf_ipv4_header mbuf = do {
     let ether_header = nf_get_mbuf_ether_header mbuf;
     ty \<leftarrow> ld16 (mbuf_data mbuf) (ether_header + ether_type);
     if ty \<noteq> rte_cpu_to_be_16 RTE_ETHER_TYPE_IPV4 then Some None
     else Some (Some sizeof_ether_hdr)
   }"

definition nf_get_mbuf_arp_header :: "mbuf \<Rightarrow> nat option option" where
  "nf_get_mbuf_arp_header mbuf = do {
     let ether_header = nf_get_mbuf_ether_header mbuf;
     ty \<leftarrow> ld16 (mbuf_data mbuf) (ether_header + ether_type);
     if ty \<noteq> rte_cpu_to_be_16 RTE_ETHER_TYPE_ARP then Some None
     else Some (Some sizeof_ether_hdr)
   }"

text \<open>\<open>ihl\<close> is the low nibble of the first byte.\<close>

definition ihl :: "u8 \<Rightarrow> nat" where
  "ihl b = unat (take_bit 4 b)"

definition nf_get_ipv4_tcpudp_header :: "u8 list \<Rightarrow> nat \<Rightarrow> nat option option" where
  "nf_get_ipv4_tcpudp_header d header = do {
     proto \<leftarrow> ld8 d (header + next_proto_id);
     if proto \<noteq> IPPROTO_TCP \<and> proto \<noteq> IPPROTO_UDP then Some None
     else do {
       v \<leftarrow> ld8 d (header + version_ihl);
       let offset = ihl v;
       Some (Some (header + offset))
     }
   }"

definition nf_get_ipv4_icmp_header :: "u8 list \<Rightarrow> nat \<Rightarrow> nat option option" where
  "nf_get_ipv4_icmp_header d header = do {
     proto \<leftarrow> ld8 d (header + next_proto_id);
     if proto \<noteq> IPPROTO_ICMP then Some None
     else do {
       v \<leftarrow> ld8 d (header + version_ihl);
       let offset = ihl v;
       Some (Some (header + offset))
     }
   }"

record cksum_lib =
  rte_ipv4_udptcp_cksum :: "u8 list \<Rightarrow> nat \<Rightarrow> nat \<Rightarrow> u16"
  rte_raw_cksum :: "u8 list \<Rightarrow> nat \<Rightarrow> u64 \<Rightarrow> u16"
  rte_ipv4_cksum :: "u8 list \<Rightarrow> nat \<Rightarrow> u16"

definition nf_set_ipv4_checksum :: "cksum_lib \<Rightarrow> u8 list \<Rightarrow> nat \<Rightarrow> u8 list option" where
  "nf_set_ipv4_checksum lib d header = do {
     d \<leftarrow> st16 d (header + hdr_checksum) 0;
     proto \<leftarrow> ld8 d (header + next_proto_id);
     let l4 = header + sizeof_ipv4_hdr;
     d \<leftarrow>
       (if proto = IPPROTO_TCP then do {
          d \<leftarrow> st16 d (l4 + tcp_cksum) 0;
          st16 d (l4 + tcp_cksum) (rte_ipv4_udptcp_cksum lib d header l4)
        }
        else if proto = IPPROTO_UDP then do {
          d \<leftarrow> st16 d (l4 + udp_dgram_cksum) 0;
          st16 d (l4 + udp_dgram_cksum) (rte_ipv4_udptcp_cksum lib d header l4)
        }
        else if proto = IPPROTO_ICMP then do {
          d \<leftarrow> st16 d (l4 + icmp_cksum) 0;
          tl \<leftarrow> ld16 d (header + total_length);
          let len = ucast (rte_cpu_to_be_16 tl) - of_nat sizeof_ipv4_hdr;
          st16 d (l4 + icmp_cksum) (not (rte_raw_cksum lib d l4 len))
        }
        else Some d);
     st16 d (header + hdr_checksum) (rte_ipv4_cksum lib d header)
   }"

section \<open>Reading back what was written\<close>

named_theorems pkt "reading and writing packet bytes"

lemma length_put [pkt, simp]:
  "length (put16 d i w) = length d" "length (put32 d i x) = length d"
  "i + length bs \<le> length d \<Longrightarrow> length (put_bytes d i bs) = length d"
  by (simp_all add: put16_def put32_def put_bytes_def)

lemma u16_bytes: "ucast (ucast (w :: u16) :: u8) + 256 * ucast (ucast (drop_bit 8 w) :: u8) = w"
proof (rule word_uint_eqI)
  have u: "uint w < 65536" using uint_lt2p [of w] by simp
  have "uint (ucast (ucast w :: u8) + 256 * ucast (ucast (drop_bit 8 w) :: u8) :: u16)
    = (uint w mod 256 + 256 * (uint w div 256 mod 256)) mod 65536"
    by (simp add: uint_word_ariths unsigned_ucast_eq unsigned_drop_bit_eq take_bit_eq_mod drop_bit_eq_div
        mod_simps uint_mod_distrib uint_div_distrib)
  also have "uint w div 256 mod 256 = uint w div 256"
    using u by (intro mod_pos_pos_trivial) (auto simp: pos_imp_zdiv_nonneg_iff)
  finally show "uint (ucast (ucast w :: u8) + 256 * ucast (ucast (drop_bit 8 w) :: u8) :: u16) = uint w"
    using u by simp
qed

lemma u32_halves: "ucast (ucast (w :: u32) :: u16) + 65536 * ucast (ucast (drop_bit 16 w) :: u16) = w"
proof (rule word_uint_eqI)
  have u: "uint w < 4294967296" using uint_lt2p [of w] by simp
  have "uint (ucast (ucast w :: u16) + 65536 * ucast (ucast (drop_bit 16 w) :: u16) :: u32)
    = (uint w mod 65536 + 65536 * (uint w div 65536 mod 65536)) mod 4294967296"
    by (simp add: uint_word_ariths unsigned_ucast_eq unsigned_drop_bit_eq take_bit_eq_mod drop_bit_eq_div
        mod_simps uint_mod_distrib uint_div_distrib)
  also have "uint w div 65536 mod 65536 = uint w div 65536"
    using u by (intro mod_pos_pos_trivial) (auto simp: pos_imp_zdiv_nonneg_iff)
  finally show "uint (ucast (ucast w :: u16) + 65536 * ucast (ucast (drop_bit 16 w) :: u16) :: u32) = uint w"
    using u by simp
qed

lemma get16_put16 [pkt]: "i + 1 < length d \<Longrightarrow> get16 (put16 d i w) i = w"
  by (simp add: get16_def put16_def u16_bytes)

lemma nth_put16 [pkt]: "j \<noteq> i \<Longrightarrow> j \<noteq> i + 1 \<Longrightarrow> put16 d i w ! j = d ! j"
  by (simp add: put16_def)

lemma get16_put16_other [pkt]: "j + 1 < i \<or> i + 1 < j \<Longrightarrow> get16 (put16 d i w) j = get16 d j"
  by (auto simp: get16_def put16_def)

lemma get32_put32 [pkt]: "i + 3 < length d \<Longrightarrow> get32 (put32 d i w) i = w"
  by (simp add: get32_def put32_def get16_put16 get16_put16_other u32_halves)

lemma nth_put32 [pkt]: "j < i \<or> i + 3 < j \<Longrightarrow> put32 d i w ! j = d ! j"
  by (auto simp: put32_def nth_put16)

lemma get16_put32_other [pkt]: "j + 1 < i \<or> i + 3 < j \<Longrightarrow> get16 (put32 d i w) j = get16 d j"
  by (auto simp: put32_def get16_put16_other)

lemma get32_put16_other [pkt]: "j + 3 < i \<or> i + 1 < j \<Longrightarrow> get32 (put16 d i w) j = get32 d j"
  by (auto simp: get32_def get16_put16_other)

lemma get32_put32_other [pkt]: "j + 3 < i \<or> i + 3 < j \<Longrightarrow> get32 (put32 d i w) j = get32 d j"
  by (auto simp: put32_def get32_put16_other)

lemma nth_put_bytes [pkt]: "i + length bs \<le> length d \<Longrightarrow> j < i \<or> i + length bs \<le> j \<Longrightarrow> put_bytes d i bs ! j = d ! j"
  by (auto simp: put_bytes_def nth_append)

lemma get16_put_bytes [pkt]:
  "i + length bs \<le> length d \<Longrightarrow> j + 1 < i \<or> i + length bs \<le> j \<Longrightarrow> get16 (put_bytes d i bs) j = get16 d j"
  by (auto simp: get16_def nth_put_bytes)

lemma get32_put_bytes [pkt]:
  "i + length bs \<le> length d \<Longrightarrow> j + 3 < i \<or> i + length bs \<le> j \<Longrightarrow> get32 (put_bytes d i bs) j = get32 d j"
  by (auto simp: get32_def get16_put_bytes)

lemma ld_in [pkt]:
  "i < length d \<Longrightarrow> ld8 d i = Some (d ! i)"
  "i + 1 < length d \<Longrightarrow> ld16 d i = Some (get16 d i)"
  "i + 3 < length d \<Longrightarrow> ld32 d i = Some (get32 d i)"
  by (simp_all add: ld8_def ld16_def ld32_def)

lemma st_in [pkt]:
  "i + 1 < length d \<Longrightarrow> st16 d i w = Some (put16 d i w)"
  "i + 3 < length d \<Longrightarrow> st32 d i x = Some (put32 d i x)"
  "i + length bs \<le> length d \<Longrightarrow> st_bytes d i bs = Some (put_bytes d i bs)"
  by (simp_all add: st16_def st32_def st_bytes_def)

lemma be16_IPV4 [simp]: "rte_cpu_to_be_16 RTE_ETHER_TYPE_IPV4 = 8"
  by (simp add: rte_cpu_to_be_16_def RTE_ETHER_TYPE_IPV4_def)

lemma ihl_le: "ihl b \<le> 15"
proof -
  have "uint (take_bit 4 b) = uint b mod 16" by (simp add: unsigned_take_bit_eq take_bit_eq_mod uint_mod_distrib)
  then have "uint (take_bit 4 b) \<le> 15" using pos_mod_bound [of 16 "uint b"] by linarith
  then show ?thesis unfolding ihl_def unat_eq_nat_uint by (simp only: nat_le_iff of_nat_numeral)
qed

section \<open>The checksum routine touches only checksum fields\<close>

definition cksum_bytes :: "nat \<Rightarrow> u8 \<Rightarrow> nat set" where
  "cksum_bytes header proto =
     {header + 10, header + 11} \<union>
     (if proto = IPPROTO_TCP then {header + 36, header + 37}
      else if proto = IPPROTO_UDP then {header + 26, header + 27}
      else if proto = IPPROTO_ICMP then {header + 22, header + 23} else {})"

lemma put16_frame: "j \<notin> {i, i + 1} \<Longrightarrow> put16 d i w ! j = d ! j"
  by (simp add: nth_put16)

lemma nf_set_ipv4_checksum_frame:
  assumes "header + 40 \<le> length d"
  shows "\<exists>d'. nf_set_ipv4_checksum lib d header = Some d' \<and> length d' = length d \<and>
    (\<forall>j. j \<notin> cksum_bytes header (d ! (header + 9)) \<longrightarrow> d' ! j = d ! j)"
proof -
  have "put16 d (header + 10) 0 ! (header + 9) = d ! (header + 9)" by (simp add: nth_put16)
  then show ?thesis
    using assms
    by (auto simp: nf_set_ipv4_checksum_def layout pkt cksum_bytes_def Let_def)
qed

section \<open>Replacing the Ethernet addresses\<close>

lemma take_put_bytes: "i + length bs \<le> length d \<Longrightarrow> take (length bs) (drop i (put_bytes d i bs)) = bs"
  by (simp add: put_bytes_def)

lemma take_put_bytes_before:
  "i + n \<le> k \<Longrightarrow> k + length bs \<le> length d \<Longrightarrow> take n (drop i (put_bytes d k bs)) = take n (drop i d)"
  by (auto simp: put_bytes_def drop_take min_def)

section \<open>What the packet handlers read\<close>

text \<open>The fields of a packet as the packet handlers read them.\<close>

definition mbuf_ok :: "mbuf \<Rightarrow> bool" where
  "mbuf_ok mbuf \<longleftrightarrow> 54 \<le> length (mbuf_data mbuf)"

definition is_ipv4 :: "u8 list \<Rightarrow> bool" where
  "is_ipv4 d \<longleftrightarrow> get16 d 12 = 8"

definition is_tcpudp :: "u8 list \<Rightarrow> bool" where
  "is_tcpudp d \<longleftrightarrow> d ! 23 = IPPROTO_TCP \<or> d ! 23 = IPPROTO_UDP"

definition l4_off :: "u8 list \<Rightarrow> nat" where
  "l4_off d = 14 + ihl (d ! 14)"

lemma l4_off_le: "l4_off d \<le> 29"
  using ihl_le [of "d ! 14"] by (simp add: l4_off_def)

lemma rd_mac: "unat dev < length xs \<Longrightarrow> rd xs (uint dev) = Some (xs ! unat dev)"
  using rd_int [of "unat dev" xs] by simp

lemma parsed_headers:
  assumes "mbuf_ok mbuf"
  shows "nf_get_mbuf_ipv4_header mbuf = Some (if is_ipv4 (mbuf_data mbuf) then Some 14 else None)"
    and "nf_get_ipv4_tcpudp_header (mbuf_data mbuf) 14
      = Some (if is_tcpudp (mbuf_data mbuf) then Some (l4_off (mbuf_data mbuf)) else None)"
  using assms
  by (auto simp: mbuf_ok_def nf_get_mbuf_ipv4_header_def nf_get_mbuf_ether_header_def is_ipv4_def
      layout pkt nf_get_ipv4_tcpudp_header_def is_tcpudp_def l4_off_def Let_def)

section \<open>Example packets\<close>

text \<open>A TCP packet over IPv4 without options, received on device \<open>dev\<close>.\<close>

definition example_tcp :: "u16 \<Rightarrow> u16 \<Rightarrow> mbuf" where
  "example_tcp dev dst_port = \<lparr>mbuf_port = dev,
     mbuf_data = put16 (replicate 12 0 @ [8, 0, 69, 0, 0, 40, 0, 0, 0, 0, 64, 6] @ replicate 30 0) 21 dst_port\<rparr>"

definition example_cksum :: cksum_lib where
  "example_cksum = \<lparr>rte_ipv4_udptcp_cksum = \<lambda>_ _ _. 1, rte_raw_cksum = \<lambda>_ _ _. 2, rte_ipv4_cksum = \<lambda>_ _. 3\<rparr>"

lemma example_tcp_ok:
  "mbuf_ok (example_tcp dev p)" "is_ipv4 (mbuf_data (example_tcp dev p))" "is_tcpudp (mbuf_data (example_tcp dev p))"
  "l4_off (mbuf_data (example_tcp dev p)) = 19" "mbuf_port (example_tcp dev p) = dev"
  "get16 (mbuf_data (example_tcp dev p)) 21 = p" "ihl (mbuf_data (example_tcp dev p) ! 14) = 5"
  by (simp_all add: example_tcp_def mbuf_ok_def is_ipv4_def is_tcpudp_def l4_off_def get16_def put16_def ihl_def
      IPPROTO_TCP_def u16_bytes nth_append)

section \<open>Properties\<close>

text \<open>
  \<open>nf_set_ipv4_checksum\<close> succeeds on every buffer that holds the IPv4 header and a minimal TCP
  header, whatever the checksum routines compute, and changes no byte outside the checksum fields of
  the packet's protocol.
\<close>

lemma nf_set_ipv4_checksum_only_checksums:
  assumes "header + 40 \<le> length d"
  shows "\<exists>d'. nf_set_ipv4_checksum lib d header = Some d' \<and> length d' = length d \<and>
    (\<forall>j. j \<notin> cksum_bytes header (d ! (header + 9)) \<longrightarrow> d' ! j = d ! j)"
  by (rule nf_set_ipv4_checksum_frame [OF assms])

text \<open>
  \<open>nf_get_ipv4_tcpudp_header\<close> adds the header length field to the header address without
  multiplying it by four: for an IPv4 header without options the pointer it returns, and the four
  bytes of ports read through it, lie inside the 20 byte IPv4 header and not behind it.
\<close>

lemma nf_get_ipv4_tcpudp_header_inside_ip_header:
  assumes "header + 20 \<le> length d" "ihl (d ! header) = 5"
    "d ! (header + 9) = IPPROTO_TCP \<or> d ! (header + 9) = IPPROTO_UDP"
  shows "nf_get_ipv4_tcpudp_header d header = Some (Some (header + 5)) \<and>
    header + 5 + 4 \<le> header + sizeof_ipv4_hdr"
  using assms by (auto simp: nf_get_ipv4_tcpudp_header_def layout pkt Let_def)

end
