(* ===== verification/Vignat.thy ===== *)
theory Vignat
  imports FlowTable NfUtil
begin

text \<open>
  The network address translator of \<open>dpdk-nfs/nf/vignat\<close>: flow identifiers and their hash
  (\<open>nat-flow.c\<close>), the state and its allocation (\<open>nat-state.c\<close>), the flow manager
  (\<open>nat-flowmanager.c\<close>) and the packet handler (\<open>nat_forward_vignat.c\<close>).

  The invariant and the specification of every operation are over the abstract table of
  \<open>FlowTable\<close>: flow identifiers with their index and time of last use; the external port of a flow
  is its index plus the first port.
\<close>

section \<open>Flow identifiers\<close>

record FlowId =
  id_src_port :: u16
  id_dst_port :: u16
  id_src_ip :: u32
  id_dst_ip :: u32
  id_internal_device :: u16
  id_protocol :: u8

definition sizeof_FlowId :: int where
  "sizeof_FlowId = 16"

definition FlowId_eq :: "FlowId \<Rightarrow> FlowId \<Rightarrow> bool" where
  "FlowId_eq a b \<longleftrightarrow>
     id_src_port a = id_src_port b \<and> id_dst_port a = id_dst_port b \<and>
     id_src_ip a = id_src_ip b \<and> id_dst_ip a = id_dst_ip b \<and>
     id_internal_device a = id_internal_device b \<and> id_protocol a = id_protocol b"

definition FlowId_allocate :: "FlowId \<Rightarrow> FlowId" where
  "FlowId_allocate obj = obj"

definition FlowId_hash :: "FlowId \<Rightarrow> int" where
  "FlowId_hash obj =
     (let hash = 0 :: 64 word;
          hash = hash + ucast (id_src_port obj);
          hash = hash * 31;
          hash = hash + ucast (id_dst_port obj);
          hash = hash * 31;
          hash = hash + ucast (id_src_ip obj);
          hash = hash * 31;
          hash = hash + ucast (id_dst_ip obj);
          hash = hash * 31;
          hash = hash + ucast (id_internal_device obj);
          hash = hash * 31;
          hash = hash + ucast (id_protocol obj)
      in sint hash smod INT_MAX)"

section \<open>State\<close>

record nat_state =
  nst_fm :: "(FlowId keyptr, FlowId) cmap"
  nst_fv :: "FlowId vector"
  nst_heap :: DoubleChain
  nst_max_flows :: int
  nst_start_port :: int
  nst_ext_ip :: u32
  nst_nat_device :: u32

text \<open>
  What freshly allocated memory holds is unknown; \<open>alloc_state\<close> receives it as a parameter. On a
  failed allocation the code returns without freeing what it had allocated before.
\<close>

definition nat_alloc_state ::
  "FlowId uninit \<Rightarrow> nat_state option \<Rightarrow> int \<Rightarrow> int \<Rightarrow> u32 \<Rightarrow> u32 \<Rightarrow> heap
   \<Rightarrow> (nat_state option \<times> nat_state option \<times> heap) option" where
  "nat_alloc_state mem allocated_nf_state max_flows start_port ext_ip nat_device h =
     (case allocated_nf_state of
        Some st \<Rightarrow> Some (Some st, allocated_nf_state, h)
      | None \<Rightarrow>
     (case malloc h of
        (None, h) \<Rightarrow> Some (None, allocated_nf_state, h)
      | (Some ret, h) \<Rightarrow> do {
          (r, fm, h) \<leftarrow> map_allocate FlowId_eq FlowId_hash max_flows None (u_ints mem) (u_ptrs mem) h;
          if r = 0 then Some (None, allocated_nf_state, h) else do {
          (r, fv, h) \<leftarrow> vector_allocate sizeof_FlowId max_flows FlowId_allocate None (u_addr mem) (u_elems mem) h;
          if r = 0 then Some (None, allocated_nf_state, h) else do {
          (r, heap, h) \<leftarrow> dchain_allocate max_flows None (u_cells mem) (u_times mem) h;
          if r = 0 then Some (None, allocated_nf_state, h) else do {
          let st = \<lparr>nst_fm = the fm, nst_fv = the fv, nst_heap = the heap, nst_max_flows = max_flows,
            nst_start_port = start_port, nst_ext_ip = ext_ip, nst_nat_device = nat_device\<rparr>;
          Some (Some st, Some st, h) }}}}))"

section \<open>Flow manager\<close>

record nat_manager =
  nmg_state :: nat_state
  nmg_expiration_time :: u32

definition flow_consistency :: "u16 \<Rightarrow> FlowId \<Rightarrow> nat_state \<Rightarrow> bool" where
  "flow_consistency dev_count flow_id st \<longleftrightarrow>
     id_internal_device flow_id < dev_count \<and> ucast (id_internal_device flow_id) \<noteq> nst_nat_device st"

definition nat_flow_manager_allocate ::
  "FlowId uninit \<Rightarrow> nat_state option \<Rightarrow> u16 \<Rightarrow> u32 \<Rightarrow> u16 \<Rightarrow> u32 \<Rightarrow> u64 \<Rightarrow> heap
   \<Rightarrow> (nat_manager option \<times> nat_state option \<times> heap) option" where
  "nat_flow_manager_allocate mem allocated starting_port nat_ip nat_device expiration_time max_flows h =
     (case malloc h of
        (None, h) \<Rightarrow> Some (None, allocated, h)
      | (Some manager, h) \<Rightarrow> do {
          (st, allocated, h) \<leftarrow> nat_alloc_state mem allocated (sint (ucast max_flows :: 32 word))
            (uint starting_port) nat_ip (ucast nat_device) h;
          case st of
            None \<Rightarrow> Some (None, allocated, h)
          | Some st \<Rightarrow> Some (Some \<lparr>nmg_state = st, nmg_expiration_time = expiration_time\<rparr>, allocated, h)
        })"

definition nat_flow_manager_allocate_flow ::
  "nat_manager \<Rightarrow> FlowId \<Rightarrow> u16 \<Rightarrow> int \<Rightarrow> (nat_manager \<times> u16 option) option" where
  "nat_flow_manager_allocate_flow manager fid internal_device time = do {
     let st = nmg_state manager;
     (r, heap, index) \<leftarrow> dchain_allocate_new_index (nst_heap st) 0 time;
     let st = st\<lparr>nst_heap := heap\<rparr>;
     if r = 0 then Some (manager\<lparr>nmg_state := st\<rparr>, None)
     else do {
       let external_port = word_of_int (nst_start_port st + index);
       let key = vector_borrow (nst_fv st) index;
       fv \<leftarrow> vector_store (nst_fv st) key fid;
       fm \<leftarrow> map_put (key_at fv) (nst_fm st) (At key) index;
       let fv = vector_return fv index key;
       Some (manager\<lparr>nmg_state := st\<lparr>nst_fm := fm, nst_fv := fv\<rparr>\<rparr>, Some external_port)
     }
   }"

definition nat_flow_manager_expire :: "nat_manager \<Rightarrow> int \<Rightarrow> nat_manager option" where
  "nat_flow_manager_expire manager time = do {
     assertion (0 \<le> time);
     let time_u = (word_of_int time :: 64 word);
     let last_time = sint (time_u - ucast (nmg_expiration_time manager));
     let st = nmg_state manager;
     (count, heap, fv, fm) \<leftarrow> expire_items_single_map (key_at (nst_fv st)) (nst_heap st) (nst_fv st) (nst_fm st) last_time;
     Some (manager\<lparr>nmg_state := st\<lparr>nst_heap := heap, nst_fv := fv, nst_fm := fm\<rparr>\<rparr>)
   }"

definition nat_flow_manager_get_internal ::
  "nat_manager \<Rightarrow> FlowId \<Rightarrow> int \<Rightarrow> (nat_manager \<times> u16 option) option" where
  "nat_flow_manager_get_internal manager fid time = do {
     let st = nmg_state manager;
     (found, index) \<leftarrow> map_get (key_at (nst_fv st)) (nst_fm st) (Obj fid) 0;
     if found = 0 then Some (manager, None)
     else do {
       let external_port = word_of_int (index + nst_start_port st);
       (r, heap) \<leftarrow> dchain_rejuvenate_index (nst_heap st) index time;
       Some (manager\<lparr>nmg_state := st\<lparr>nst_heap := heap\<rparr>\<rparr>, Some external_port)
     }
   }"

definition nat_flow_manager_get_external ::
  "nat_manager \<Rightarrow> u16 \<Rightarrow> int \<Rightarrow> (nat_manager \<times> FlowId option) option" where
  "nat_flow_manager_get_external manager external_port time = do {
     let st = nmg_state manager;
     let index = uint external_port - nst_start_port st;
     allocated \<leftarrow> dchain_is_index_allocated (nst_heap st) index;
     if \<not> allocated then Some (manager, None)
     else do {
       let key = vector_borrow (nst_fv st) index;
       out_flow \<leftarrow> vector_load (nst_fv st) key;
       let fv = vector_return (nst_fv st) index key;
       (r, heap) \<leftarrow> dchain_rejuvenate_index (nst_heap st) index time;
       Some (manager\<lparr>nmg_state := st\<lparr>nst_fv := fv, nst_heap := heap\<rparr>\<rparr>, Some out_flow)
     }
   }"

section \<open>The packet handler\<close>

record nat_config =
  ncfg_lan_main_device :: u16
  ncfg_wan_device :: u16
  ncfg_external_addr :: u32
  ncfg_device_macs :: "u8 list list"
  ncfg_endpoint_macs :: "u8 list list"
  ncfg_start_port :: u16
  ncfg_expiration_time :: u32
  ncfg_max_flows :: u32

text \<open>\<open>rte_exit\<close> ends the program: the initialisation then has no state to return.\<close>

definition nat_core_init ::
  "FlowId uninit \<Rightarrow> nat_state option \<Rightarrow> nat_config \<Rightarrow> heap \<Rightarrow> (nat_manager option \<times> heap) option" where
  "nat_core_init mem allocated config h = do {
     (flow_manager, allocated, h) \<leftarrow> nat_flow_manager_allocate mem allocated (ncfg_start_port config)
       (ncfg_external_addr config) (ncfg_wan_device config) (ncfg_expiration_time config)
       (ucast (ncfg_max_flows config)) h;
     Some (flow_manager, h)
   }"

text \<open>The end of the handler: the Ethernet addresses of the outgoing device and the checksums.\<close>

definition nat_send ::
  "cksum_lib \<Rightarrow> nat_config \<Rightarrow> nat_manager \<Rightarrow> mbuf \<Rightarrow> nat \<Rightarrow> nat \<Rightarrow> u8 list \<Rightarrow> u16
   \<Rightarrow> (int \<times> nat_manager \<times> mbuf) option" where
  "nat_send lib config flow_manager mbuf ether_header ipv4_header d dst_device = do {
     s_addr \<leftarrow> rd (ncfg_device_macs config) (uint dst_device);
     d \<leftarrow> st_bytes d (ether_header + ether_s_addr) s_addr;
     d_addr \<leftarrow> rd (ncfg_endpoint_macs config) (uint dst_device);
     d \<leftarrow> st_bytes d (ether_header + ether_d_addr) d_addr;
     d \<leftarrow> nf_set_ipv4_checksum lib d ipv4_header;
     Some (uint dst_device, flow_manager, mbuf\<lparr>mbuf_data := d\<rparr>)
   }"

definition nat_core_process ::
  "cksum_lib \<Rightarrow> nat_config \<Rightarrow> nat_manager \<Rightarrow> mbuf \<Rightarrow> int \<Rightarrow> (int \<times> nat_manager \<times> mbuf) option" where
  "nat_core_process lib config flow_manager mbuf now = do {
     let in_port = uint (mbuf_port mbuf);
     flow_manager \<leftarrow> nat_flow_manager_expire flow_manager now;
     let ether_header = nf_get_mbuf_ether_header mbuf;
     let d = mbuf_data mbuf;
     ip \<leftarrow> nf_get_mbuf_ipv4_header mbuf;
     case ip of None \<Rightarrow> Some (in_port, flow_manager, mbuf) | Some ipv4_header \<Rightarrow> do {
     l4 \<leftarrow> nf_get_ipv4_tcpudp_header d ipv4_header;
     case l4 of None \<Rightarrow> Some (in_port, flow_manager, mbuf) | Some tcpudp_header \<Rightarrow>
     if in_port = uint (ncfg_wan_device config) then do {
       dst_port \<leftarrow> ld16 d (tcpudp_header + tcpudp_dst_port);
       (flow_manager, found) \<leftarrow> nat_flow_manager_get_external flow_manager dst_port now;
       case found of
         Some internal_flow \<Rightarrow> do {
           d \<leftarrow> st32 d (ipv4_header + dst_addr) (id_src_ip internal_flow);
           d \<leftarrow> st16 d (tcpudp_header + tcpudp_dst_port) (id_src_port internal_flow);
           nat_send lib config flow_manager mbuf ether_header ipv4_header d (id_internal_device internal_flow)
         }
       | None \<Rightarrow> Some (in_port, flow_manager, mbuf)
     } else do {
       sp \<leftarrow> ld16 d (tcpudp_header + tcpudp_src_port);
       dp \<leftarrow> ld16 d (tcpudp_header + tcpudp_dst_port);
       sa \<leftarrow> ld32 d (ipv4_header + src_addr);
       da \<leftarrow> ld32 d (ipv4_header + dst_addr);
       proto \<leftarrow> ld8 d (ipv4_header + next_proto_id);
       let fid = \<lparr>id_src_port = sp, id_dst_port = dp, id_src_ip = sa, id_dst_ip = da,
         id_internal_device = word_of_int in_port, id_protocol = proto\<rparr>;
       (flow_manager, known) \<leftarrow> nat_flow_manager_get_internal flow_manager fid now;
       (flow_manager, port) \<leftarrow>
         (case known of
            Some external_port \<Rightarrow> Some (flow_manager, Some external_port)
          | None \<Rightarrow> nat_flow_manager_allocate_flow flow_manager fid (word_of_int in_port) now);
       case port of
         None \<Rightarrow> Some (in_port, flow_manager, mbuf)
       | Some external_port \<Rightarrow> do {
           d \<leftarrow> st32 d (ipv4_header + src_addr) (ncfg_external_addr config);
           d \<leftarrow> st16 d (tcpudp_header + tcpudp_src_port) external_port;
           nat_send lib config flow_manager mbuf ether_header ipv4_header d (ncfg_wan_device config)
         }
     }
     }
   }"

section \<open>Flow identifiers: equality and hash\<close>

lemma FlowId_eq_iff: "FlowId_eq a b \<longleftrightarrow> a = b"
  by (cases a; cases b) (auto simp: FlowId_eq_def)

lemma FlowId_hash_value:
  "FlowId_hash f =
    ((((((uint (id_src_port f) * 31 + uint (id_dst_port f)) * 31 + uint (id_src_ip f)) * 31
      + uint (id_dst_ip f)) * 31 + uint (id_internal_device f)) * 31) + uint (id_protocol f)) mod INT_MAX"
proof -
  let ?a = "uint (id_src_port f)" and ?b = "uint (id_dst_port f)" and ?c = "uint (id_src_ip f)"
    and ?d = "uint (id_dst_ip f)" and ?e = "uint (id_internal_device f)" and ?g = "uint (id_protocol f)"
  have bounds: "0 \<le> ?a" "?a < 65536" "0 \<le> ?b" "?b < 65536" "0 \<le> ?c" "?c < 4294967296"
    "0 \<le> ?d" "?d < 4294967296" "0 \<le> ?e" "?e < 65536" "0 \<le> ?g" "?g < 256"
    using uint_lt2p [of "id_src_port f"] uint_lt2p [of "id_dst_port f"] uint_lt2p [of "id_src_ip f"]
      uint_lt2p [of "id_dst_ip f"] uint_lt2p [of "id_internal_device f"] uint_lt2p [of "id_protocol f"]
    by simp_all
  have "uint (0 + ucast (id_src_port f) :: 64 word) = 0 + ?a"
    by (rule acc_add) (use bounds in simp_all)
  note h = acc_mult [OF this]
  note h = acc_add [OF h, of "id_dst_port f"]
  note h = acc_mult [OF h]
  note h = acc_add [OF h, of "id_src_ip f"]
  note h = acc_mult [OF h]
  note h = acc_add [OF h, of "id_dst_ip f"]
  note h = acc_mult [OF h]
  note h = acc_add [OF h, of "id_internal_device f"]
  note h = acc_mult [OF h]
  note h = acc_add [OF h, of "id_protocol f"]
  note h = acc_result [OF h]
  show ?thesis
    unfolding FlowId_hash_def Let_def
    by (subst h) (use bounds in simp_all)
qed

section \<open>The flow manager implements the abstract table\<close>

definition nat_rep :: "FlowId flows \<Rightarrow> int \<Rightarrow> nat_manager \<Rightarrow> bool" where
  "nat_rep T now mg \<longleftrightarrow>
     flow_rep T now (nst_fm (nmg_state mg)) (nst_fv (nmg_state mg)) (nst_heap (nmg_state mg))"

definition nat_capacity :: "nat_manager \<Rightarrow> int" where
  "nat_capacity mg = v_capacity (nst_fv (nmg_state mg))"

text \<open>The configuration kept in the manager, which no operation changes.\<close>

definition nat_same_config :: "nat_manager \<Rightarrow> nat_manager \<Rightarrow> bool" where
  "nat_same_config mg mg' \<longleftrightarrow>
     nmg_expiration_time mg' = nmg_expiration_time mg \<and> nat_capacity mg' = nat_capacity mg \<and>
     nst_start_port (nmg_state mg') = nst_start_port (nmg_state mg) \<and>
     nst_ext_ip (nmg_state mg') = nst_ext_ip (nmg_state mg) \<and>
     nst_nat_device (nmg_state mg') = nst_nat_device (nmg_state mg)"

definition nat_port :: "nat_manager \<Rightarrow> int \<Rightarrow> u16" where
  "nat_port mg i = word_of_int (nst_start_port (nmg_state mg) + i)"

lemma nat_same_config_refl [simp]: "nat_same_config mg mg"
  by (simp add: nat_same_config_def)

lemma nat_same_config_trans: "nat_same_config a b \<Longrightarrow> nat_same_config b c \<Longrightarrow> nat_same_config a c"
  by (simp add: nat_same_config_def)

lemma nat_expire_correct:
  assumes "nat_rep T t0 mg" "0 \<le> now" "now < 2 ^ 63"
  shows "\<exists>mg'. nat_flow_manager_expire mg now = Some mg' \<and>
    nat_rep (expire_flows T (now - uint (nmg_expiration_time mg))) t0 mg' \<and> nat_same_config mg mg'"
proof -
  let ?st = "nmg_state mg" and ?t = "now - uint (nmg_expiration_time mg)"
  obtain heap' fm' where e: "expire_items_single_map (key_at (nst_fv ?st)) (nst_heap ?st) (nst_fv ?st) (nst_fm ?st) ?t
      = Some (int (length T) - int (length (expire_flows T ?t)), heap', nst_fv ?st, fm')"
    "flow_rep (expire_flows T ?t) t0 fm' (nst_fv ?st) heap'"
    using flow_expire [OF assms(1) [unfolded nat_rep_def]] by blast
  then show ?thesis
    using assms by (simp add: Let_def nat_flow_manager_expire_def time_minus_u32 nat_rep_def nat_same_config_def
        nat_capacity_def)
qed

lemma nat_get_internal_known:
  assumes "nat_rep T t0 mg" "find_flow T fid = Some i" "t0 \<le> now"
  shows "\<exists>mg'. nat_flow_manager_get_internal mg fid now = Some (mg', Some (nat_port mg i)) \<and>
    nat_rep (touch_flow T i now) now mg' \<and> nat_same_config mg mg'"
proof -
  let ?st = "nmg_state mg"
  note rep = assms(1) [unfolded nat_rep_def]
  obtain t where "(fid, i, t) \<in> set T" using assms(2) find_flow_Some [OF flow_rep_wf [OF rep]] by blast
  then obtain heap' where "dchain_rejuvenate_index (nst_heap ?st) i now = Some (1, heap')"
    "flow_rep (touch_flow T i now) now (nst_fm ?st) (nst_fv ?st) heap'"
    using flow_rejuvenate [OF rep _ assms(3)] by blast
  then show ?thesis
    using flow_get [OF rep, of fid 0] assms(2)
    by (simp add: Let_def nat_flow_manager_get_internal_def nat_rep_def nat_same_config_def nat_capacity_def
        nat_port_def add.commute)
qed

lemma nat_get_internal_unknown:
  assumes "nat_rep T t0 mg" "find_flow T fid = None"
  shows "nat_flow_manager_get_internal mg fid now = Some (mg, None)"
  using flow_get [OF assms(1) [unfolded nat_rep_def], of fid 0] assms(2)
  by (simp add: Let_def nat_flow_manager_get_internal_def)

lemma nat_allocate_flow_correct:
  assumes "nat_rep T t0 mg" "find_flow T fid = None" "int (length T) < nat_capacity mg" "t0 \<le> now"
  shows "\<exists>mg' i. nat_flow_manager_allocate_flow mg fid dev now = Some (mg', Some (nat_port mg i)) \<and>
    0 \<le> i \<and> i < nat_capacity mg \<and> (\<forall>k t. (k, i, t) \<notin> set T) \<and>
    nat_rep (add_flow T fid i now) now mg' \<and> nat_same_config mg mg'"
proof -
  let ?st = "nmg_state mg"
  note rep = assms(1) [unfolded nat_rep_def]
  obtain heap' i fv' fm' where "dchain_allocate_new_index (nst_heap ?st) 0 now = Some (1, heap', i)"
    "0 \<le> i" "i < nat_capacity mg" "\<forall>k t. (k, i, t) \<notin> set T"
    "vector_store (nst_fv ?st) (vector_borrow (nst_fv ?st) i) fid = Some fv'"
    "fv' = (nst_fv ?st)\<lparr>v_elems := (v_elems (nst_fv ?st))[nat i := fid]\<rparr>"
    "map_put (key_at fv') (nst_fm ?st) (At (vector_borrow (nst_fv ?st) i)) i = Some fm'"
    "flow_rep (add_flow T fid i now) now fm' fv' heap'"
    using flow_allocate [OF rep assms(3) [unfolded nat_capacity_def] assms(2,4), of 0]
    unfolding nat_capacity_def by blast
  then show ?thesis
    by (auto simp: Let_def nat_flow_manager_allocate_flow_def nat_rep_def nat_same_config_def nat_capacity_def
        nat_port_def vector_return_def)
qed

lemma nat_allocate_flow_full:
  assumes "nat_rep T t0 mg" "int (length T) = nat_capacity mg"
  shows "nat_flow_manager_allocate_flow mg fid dev now = Some (mg, None)"
  using flow_allocate_full [OF assms(1) [unfolded nat_rep_def] assms(2) [unfolded nat_capacity_def], of 0]
  by (simp add: Let_def nat_flow_manager_allocate_flow_def)

lemma nat_get_external_known:
  assumes "nat_rep T t0 mg" "(fid, i, t) \<in> set T" "t0 \<le> now" "uint port = nst_start_port (nmg_state mg) + i"
  shows "\<exists>mg'. nat_flow_manager_get_external mg port now = Some (mg', Some fid) \<and>
    nat_rep (touch_flow T i now) now mg' \<and> nat_same_config mg mg'"
proof -
  let ?st = "nmg_state mg"
  note rep = assms(1) [unfolded nat_rep_def]
  have i: "0 \<le> i" "i < v_capacity (nst_fv ?st)" using flows_wfD [OF flow_rep_wf [OF rep] assms(2)] by auto
  obtain heap' where "dchain_rejuvenate_index (nst_heap ?st) i now = Some (1, heap')"
    "flow_rep (touch_flow T i now) now (nst_fm ?st) (nst_fv ?st) heap'"
    using flow_rejuvenate [OF rep assms(2,3)] by blast
  moreover have "\<exists>k t. (k, i, t) \<in> set T" using assms(2) by blast
  ultimately show ?thesis
    using flow_is_allocated [OF rep i] flow_vector(2) [OF rep] flow_vector(4) [OF rep assms(2)] assms(4)
    by (simp add: Let_def nat_flow_manager_get_external_def nat_rep_def nat_same_config_def nat_capacity_def
        vector_return_def)
qed

lemma nat_get_external_unknown:
  assumes "nat_rep T t0 mg" "uint port = nst_start_port (nmg_state mg) + i" "0 \<le> i" "i < nat_capacity mg"
    "\<forall>k t. (k, i, t) \<notin> set T"
  shows "nat_flow_manager_get_external mg port now = Some (mg, None)"
  using flow_is_allocated [OF assms(1) [unfolded nat_rep_def] assms(3) assms(4) [unfolded nat_capacity_def]]
    assms(2,5)
  by (simp add: Let_def nat_flow_manager_get_external_def)

section \<open>The packet handler\<close>

definition nat_flow_of :: "mbuf \<Rightarrow> FlowId" where
  "nat_flow_of mbuf =
     (let d = mbuf_data mbuf in
      \<lparr>id_src_port = get16 d (l4_off d), id_dst_port = get16 d (l4_off d + 2),
       id_src_ip = get32 d 26, id_dst_ip = get32 d 30,
       id_internal_device = mbuf_port mbuf, id_protocol = d ! 23\<rparr>)"

definition nat_config_ok :: "nat_config \<Rightarrow> u16 \<Rightarrow> bool" where
  "nat_config_ok config dev \<longleftrightarrow>
     unat dev < length (ncfg_device_macs config) \<and> unat dev < length (ncfg_endpoint_macs config) \<and>
     length (ncfg_device_macs config ! unat dev) = 6 \<and> length (ncfg_endpoint_macs config ! unat dev) = 6"

text \<open>
  \<open>d'\<close> is the packet \<open>d\<close> with the Ethernet addresses of device \<open>dev\<close>, and otherwise different from
  \<open>d\<close> at most in its checksums.
\<close>

definition sent_on :: "nat_config \<Rightarrow> u16 \<Rightarrow> u8 list \<Rightarrow> u8 list \<Rightarrow> bool" where
  "sent_on config dev d d' \<longleftrightarrow>
     length d' = length d \<and>
     take 6 d' = ncfg_endpoint_macs config ! unat dev \<and>
     take 6 (drop 6 d') = ncfg_device_macs config ! unat dev \<and>
     (\<forall>j. 12 \<le> j \<longrightarrow> j \<notin> cksum_bytes 14 (d ! 23) \<longrightarrow> d' ! j = d ! j)"

lemma nat_send_correct:
  assumes "54 \<le> length d" "nat_config_ok config dev"
  shows "\<exists>d'. nat_send lib config mg mbuf 0 14 d dev = Some (uint dev, mg, mbuf\<lparr>mbuf_data := d'\<rparr>) \<and>
    sent_on config dev d d'"
proof -
  let ?s = "ncfg_device_macs config ! unat dev" and ?e = "ncfg_endpoint_macs config ! unat dev"
  let ?d = "put_bytes (put_bytes d 6 ?s) 0 ?e"
  have m: "length ?s = 6" "length ?e = 6" using assms(2) by (simp_all add: nat_config_ok_def)
  have len: "length ?d = length d" using assms(1) m by simp
  then obtain d' where d': "nf_set_ipv4_checksum lib ?d 14 = Some d'" "length d' = length ?d"
    "\<forall>j. j \<notin> cksum_bytes 14 (?d ! 23) \<longrightarrow> d' ! j = ?d ! j"
    using nf_set_ipv4_checksum_frame [of 14 ?d lib] assms(1) by auto
  have keep: "?d ! j = d ! j" if "12 \<le> j" for j
    using that assms(1) m by (simp add: nth_put_bytes)
  have low: "d' ! j = ?d ! j" if "j < 12" for j
    using d'(3) that by (auto simp: cksum_bytes_def)
  have "take 6 d' = take 6 ?d" "take 6 (drop 6 d') = take 6 (drop 6 ?d)"
    using d'(2) len assms(1) low by (auto intro!: nth_equalityI)
  moreover have "take 6 ?d = ?e"
    using take_put_bytes [of 0 ?e "put_bytes d 6 ?s"] m assms(1) by simp
  moreover have "take 6 (drop 6 ?d) = ?s"
  proof -
    have "take 6 (drop 6 ?d) = take 6 (drop 6 (put_bytes d 6 ?s))"
      using m by (simp add: put_bytes_def)
    then show ?thesis using take_put_bytes [of 6 ?s d] m assms(1) by simp
  qed
  ultimately have "sent_on config dev d d'"
    using d'(2,3) len keep by (simp add: sent_on_def)
  moreover have "nat_send lib config mg mbuf 0 14 d dev = Some (uint dev, mg, mbuf\<lparr>mbuf_data := d'\<rparr>)"
    using assms m d'(1) by (simp add: nat_send_def nat_config_ok_def layout rd_mac st_bytes_def)
  ultimately show ?thesis by blast
qed

text \<open>Every packet starts with the expiry of old flows; a packet that is not TCP or UDP over IPv4 stops there.\<close>

lemma nat_process_other:
  assumes "nat_rep T t0 mg" "0 \<le> now" "now < 2 ^ 63" "mbuf_ok mbuf"
    "\<not> (is_ipv4 (mbuf_data mbuf) \<and> is_tcpudp (mbuf_data mbuf))"
  shows "\<exists>mg'. nat_core_process lib config mg mbuf now = Some (uint (mbuf_port mbuf), mg', mbuf) \<and>
    nat_rep (expire_flows T (now - uint (nmg_expiration_time mg))) t0 mg' \<and> nat_same_config mg mg'"
  using nat_expire_correct [OF assms(1,2,3)] parsed_headers [OF assms(4)] assms(5)
  by (auto simp: nat_core_process_def Let_def)

lemma nat_process_internal_steps:
  assumes "nat_flow_manager_expire mg now = Some mg1" "mbuf_ok mbuf" "is_ipv4 (mbuf_data mbuf)"
    "is_tcpudp (mbuf_data mbuf)" "mbuf_port mbuf \<noteq> ncfg_wan_device config"
  shows "nat_core_process lib config mg mbuf now = do {
      (mg2, known) \<leftarrow> nat_flow_manager_get_internal mg1 (nat_flow_of mbuf) now;
      (mg3, port) \<leftarrow>
        (case known of
           Some p \<Rightarrow> Some (mg2, Some p)
         | None \<Rightarrow> nat_flow_manager_allocate_flow mg2 (nat_flow_of mbuf) (mbuf_port mbuf) now);
      case port of
        None \<Rightarrow> Some (uint (mbuf_port mbuf), mg3, mbuf)
      | Some p \<Rightarrow>
          nat_send lib config mg3 mbuf 0 14
            (put16 (put32 (mbuf_data mbuf) 26 (ncfg_external_addr config)) (l4_off (mbuf_data mbuf)) p)
            (ncfg_wan_device config)
    }"
proof -
  have len: "54 \<le> length (mbuf_data mbuf)" using assms(2) by (simp add: mbuf_ok_def)
  have l4: "l4_off (mbuf_data mbuf) \<le> 29" by (rule l4_off_le)
  have "uint (mbuf_port mbuf) \<noteq> uint (ncfg_wan_device config)"
    using assms(5) by (simp add: word_uint_eq_iff)
  then show ?thesis
    using assms(1,3,4) len l4
    by (simp add: nat_core_process_def parsed_headers [OF assms(2)] layout pkt nat_flow_of_def
        nf_get_mbuf_ether_header_def Let_def cong: option.case_cong cong del: bind_weak_cong)
qed


lemma nat_process_external_steps:
  assumes "nat_flow_manager_expire mg now = Some mg1" "mbuf_ok mbuf" "is_ipv4 (mbuf_data mbuf)"
    "is_tcpudp (mbuf_data mbuf)" "mbuf_port mbuf = ncfg_wan_device config"
  shows "nat_core_process lib config mg mbuf now = do {
      (mg2, found) \<leftarrow> nat_flow_manager_get_external mg1 (get16 (mbuf_data mbuf) (l4_off (mbuf_data mbuf) + 2)) now;
      case found of
        None \<Rightarrow> Some (uint (mbuf_port mbuf), mg2, mbuf)
      | Some f \<Rightarrow>
          nat_send lib config mg2 mbuf 0 14
            (put16 (put32 (mbuf_data mbuf) 30 (id_src_ip f)) (l4_off (mbuf_data mbuf) + 2) (id_src_port f))
            (id_internal_device f)
    }"
proof -
  have len: "54 \<le> length (mbuf_data mbuf)" using assms(2) by (simp add: mbuf_ok_def)
  have l4: "l4_off (mbuf_data mbuf) \<le> 29" by (rule l4_off_le)
  show ?thesis
    using assms(1,3,4,5) len l4
    by (simp add: nat_core_process_def parsed_headers [OF assms(2)] layout pkt
        nf_get_mbuf_ether_header_def Let_def cong: option.case_cong cong del: bind_weak_cong)
qed

text \<open>The four ways of a TCP or UDP packet.\<close>

lemma nat_process_internal_known:
  assumes "nat_rep T t0 mg" "0 \<le> now" "now < 2 ^ 63" "t0 \<le> now" "mbuf_ok mbuf" "is_ipv4 (mbuf_data mbuf)"
    "is_tcpudp (mbuf_data mbuf)" "mbuf_port mbuf \<noteq> ncfg_wan_device config"
    "nat_config_ok config (ncfg_wan_device config)"
    and T': "T' = expire_flows T (now - uint (nmg_expiration_time mg))"
    and i: "find_flow T' (nat_flow_of mbuf) = Some i"
  shows "\<exists>mg' d'. nat_core_process lib config mg mbuf now
      = Some (uint (ncfg_wan_device config), mg', mbuf\<lparr>mbuf_data := d'\<rparr>) \<and>
    nat_rep (touch_flow T' i now) now mg' \<and> nat_same_config mg mg' \<and>
    sent_on config (ncfg_wan_device config)
      (put16 (put32 (mbuf_data mbuf) 26 (ncfg_external_addr config)) (l4_off (mbuf_data mbuf)) (nat_port mg i)) d'"
proof -
  obtain mg1 where m1: "nat_flow_manager_expire mg now = Some mg1" "nat_rep T' t0 mg1" "nat_same_config mg mg1"
    using nat_expire_correct [OF assms(1-3)] T' by blast
  obtain mg2 where m2: "nat_flow_manager_get_internal mg1 (nat_flow_of mbuf) now = Some (mg2, Some (nat_port mg1 i))"
    "nat_rep (touch_flow T' i now) now mg2" "nat_same_config mg1 mg2"
    using nat_get_internal_known [OF m1(2) i assms(4)] by blast
  have p: "nat_port mg1 i = nat_port mg i" using m1(3) by (simp add: nat_port_def nat_same_config_def)
  let ?d = "put16 (put32 (mbuf_data mbuf) 26 (ncfg_external_addr config)) (l4_off (mbuf_data mbuf)) (nat_port mg i)"
  have len: "54 \<le> length ?d" using assms(5) by (simp add: mbuf_ok_def)
  obtain d' where d': "nat_send lib config mg2 mbuf 0 14 ?d (ncfg_wan_device config)
      = Some (uint (ncfg_wan_device config), mg2, mbuf\<lparr>mbuf_data := d'\<rparr>)"
    "sent_on config (ncfg_wan_device config) ?d d'"
    using nat_send_correct [OF len assms(9)] by blast
  have "nat_core_process lib config mg mbuf now
    = Some (uint (ncfg_wan_device config), mg2, mbuf\<lparr>mbuf_data := d'\<rparr>)"
    using nat_process_internal_steps [OF m1(1) assms(5-8)] m2(1) p d'(1) by simp
  then show ?thesis using m2(2) nat_same_config_trans [OF m1(3) m2(3)] d'(2) by blast
qed

lemma nat_process_internal_new:
  assumes "nat_rep T t0 mg" "0 \<le> now" "now < 2 ^ 63" "t0 \<le> now" "mbuf_ok mbuf" "is_ipv4 (mbuf_data mbuf)"
    "is_tcpudp (mbuf_data mbuf)" "mbuf_port mbuf \<noteq> ncfg_wan_device config"
    "nat_config_ok config (ncfg_wan_device config)"
    and T': "T' = expire_flows T (now - uint (nmg_expiration_time mg))"
    and new: "find_flow T' (nat_flow_of mbuf) = None" and space: "int (length T') < nat_capacity mg"
  shows "\<exists>mg' d' i. nat_core_process lib config mg mbuf now
      = Some (uint (ncfg_wan_device config), mg', mbuf\<lparr>mbuf_data := d'\<rparr>) \<and>
    0 \<le> i \<and> i < nat_capacity mg \<and> (\<forall>k t. (k, i, t) \<notin> set T') \<and>
    nat_rep (add_flow T' (nat_flow_of mbuf) i now) now mg' \<and> nat_same_config mg mg' \<and>
    sent_on config (ncfg_wan_device config)
      (put16 (put32 (mbuf_data mbuf) 26 (ncfg_external_addr config)) (l4_off (mbuf_data mbuf)) (nat_port mg i)) d'"
proof -
  obtain mg1 where m1: "nat_flow_manager_expire mg now = Some mg1" "nat_rep T' t0 mg1" "nat_same_config mg mg1"
    using nat_expire_correct [OF assms(1-3)] T' by blast
  have cap: "nat_capacity mg1 = nat_capacity mg" using m1(3) by (simp add: nat_same_config_def)
  have unk: "nat_flow_manager_get_internal mg1 (nat_flow_of mbuf) now = Some (mg1, None)"
    by (rule nat_get_internal_unknown [OF m1(2) new])
  obtain mg2 i where m2: "nat_flow_manager_allocate_flow mg1 (nat_flow_of mbuf) (mbuf_port mbuf) now
      = Some (mg2, Some (nat_port mg1 i))"
    "0 \<le> i" "i < nat_capacity mg" "\<forall>k t. (k, i, t) \<notin> set T'"
    "nat_rep (add_flow T' (nat_flow_of mbuf) i now) now mg2" "nat_same_config mg1 mg2"
    using nat_allocate_flow_correct [OF m1(2) new space [folded cap] assms(4)] unfolding cap by blast
  have p: "nat_port mg1 i = nat_port mg i" using m1(3) by (simp add: nat_port_def nat_same_config_def)
  let ?d = "put16 (put32 (mbuf_data mbuf) 26 (ncfg_external_addr config)) (l4_off (mbuf_data mbuf)) (nat_port mg i)"
  have len: "54 \<le> length ?d" using assms(5) by (simp add: mbuf_ok_def)
  obtain d' where d': "nat_send lib config mg2 mbuf 0 14 ?d (ncfg_wan_device config)
      = Some (uint (ncfg_wan_device config), mg2, mbuf\<lparr>mbuf_data := d'\<rparr>)"
    "sent_on config (ncfg_wan_device config) ?d d'"
    using nat_send_correct [OF len assms(9)] by blast
  have "nat_core_process lib config mg mbuf now
    = Some (uint (ncfg_wan_device config), mg2, mbuf\<lparr>mbuf_data := d'\<rparr>)"
    using nat_process_internal_steps [OF m1(1) assms(5-8)] unk m2(1) p d'(1) by simp
  then show ?thesis using m2(2-5) nat_same_config_trans [OF m1(3) m2(6)] d'(2) by blast
qed

lemma nat_process_internal_full:
  assumes "nat_rep T t0 mg" "0 \<le> now" "now < 2 ^ 63" "mbuf_ok mbuf" "is_ipv4 (mbuf_data mbuf)"
    "is_tcpudp (mbuf_data mbuf)" "mbuf_port mbuf \<noteq> ncfg_wan_device config"
    and T': "T' = expire_flows T (now - uint (nmg_expiration_time mg))"
    and new: "find_flow T' (nat_flow_of mbuf) = None" and full: "int (length T') = nat_capacity mg"
  shows "\<exists>mg'. nat_core_process lib config mg mbuf now = Some (uint (mbuf_port mbuf), mg', mbuf) \<and>
    nat_rep T' t0 mg' \<and> nat_same_config mg mg'"
proof -
  obtain mg1 where m1: "nat_flow_manager_expire mg now = Some mg1" "nat_rep T' t0 mg1" "nat_same_config mg mg1"
    using nat_expire_correct [OF assms(1-3)] T' by blast
  have "int (length T') = nat_capacity mg1" using m1(3) full by (simp add: nat_same_config_def)
  then show ?thesis
    using nat_process_internal_steps [OF m1(1) assms(4-7)] nat_get_internal_unknown [OF m1(2) new]
      nat_allocate_flow_full [OF m1(2)] m1(2,3) by simp
qed

lemma nat_process_external_known:
  assumes "nat_rep T t0 mg" "0 \<le> now" "now < 2 ^ 63" "t0 \<le> now" "mbuf_ok mbuf" "is_ipv4 (mbuf_data mbuf)"
    "is_tcpudp (mbuf_data mbuf)" "mbuf_port mbuf = ncfg_wan_device config"
    and T': "T' = expire_flows T (now - uint (nmg_expiration_time mg))"
    and flow: "(f, i, t) \<in> set T'"
    and port: "uint (get16 (mbuf_data mbuf) (l4_off (mbuf_data mbuf) + 2)) = nst_start_port (nmg_state mg) + i"
    and dev: "nat_config_ok config (id_internal_device f)"
  shows "\<exists>mg' d'. nat_core_process lib config mg mbuf now
      = Some (uint (id_internal_device f), mg', mbuf\<lparr>mbuf_data := d'\<rparr>) \<and>
    nat_rep (touch_flow T' i now) now mg' \<and> nat_same_config mg mg' \<and>
    sent_on config (id_internal_device f)
      (put16 (put32 (mbuf_data mbuf) 30 (id_src_ip f)) (l4_off (mbuf_data mbuf) + 2) (id_src_port f)) d'"
proof -
  obtain mg1 where m1: "nat_flow_manager_expire mg now = Some mg1" "nat_rep T' t0 mg1" "nat_same_config mg mg1"
    using nat_expire_correct [OF assms(1-3)] T' by blast
  have port1: "uint (get16 (mbuf_data mbuf) (l4_off (mbuf_data mbuf) + 2)) = nst_start_port (nmg_state mg1) + i"
    using port m1(3) by (simp add: nat_same_config_def)
  obtain mg2 where m2: "nat_flow_manager_get_external mg1 (get16 (mbuf_data mbuf) (l4_off (mbuf_data mbuf) + 2)) now
      = Some (mg2, Some f)"
    "nat_rep (touch_flow T' i now) now mg2" "nat_same_config mg1 mg2"
    using nat_get_external_known [OF m1(2) flow assms(4) port1] by blast
  let ?d = "put16 (put32 (mbuf_data mbuf) 30 (id_src_ip f)) (l4_off (mbuf_data mbuf) + 2) (id_src_port f)"
  have len: "54 \<le> length ?d" using assms(5) by (simp add: mbuf_ok_def)
  obtain d' where d': "nat_send lib config mg2 mbuf 0 14 ?d (id_internal_device f)
      = Some (uint (id_internal_device f), mg2, mbuf\<lparr>mbuf_data := d'\<rparr>)"
    "sent_on config (id_internal_device f) ?d d'"
    using nat_send_correct [OF len dev] by blast
  have "nat_core_process lib config mg mbuf now
    = Some (uint (id_internal_device f), mg2, mbuf\<lparr>mbuf_data := d'\<rparr>)"
    using nat_process_external_steps [OF m1(1) assms(5-8)] m2(1) d'(1) by simp
  then show ?thesis using m2(2) nat_same_config_trans [OF m1(3) m2(3)] d'(2) by blast
qed

lemma nat_process_external_unknown:
  assumes "nat_rep T t0 mg" "0 \<le> now" "now < 2 ^ 63" "mbuf_ok mbuf" "is_ipv4 (mbuf_data mbuf)"
    "is_tcpudp (mbuf_data mbuf)" "mbuf_port mbuf = ncfg_wan_device config"
    and T': "T' = expire_flows T (now - uint (nmg_expiration_time mg))"
    and port: "uint (get16 (mbuf_data mbuf) (l4_off (mbuf_data mbuf) + 2)) = nst_start_port (nmg_state mg) + i"
    and i: "0 \<le> i" "i < nat_capacity mg" "\<forall>k t. (k, i, t) \<notin> set T'"
  shows "\<exists>mg'. nat_core_process lib config mg mbuf now = Some (uint (mbuf_port mbuf), mg', mbuf) \<and>
    nat_rep T' t0 mg' \<and> nat_same_config mg mg'"
proof -
  obtain mg1 where m1: "nat_flow_manager_expire mg now = Some mg1" "nat_rep T' t0 mg1" "nat_same_config mg mg1"
    using nat_expire_correct [OF assms(1-3)] T' by blast
  have "nat_flow_manager_get_external mg1 (get16 (mbuf_data mbuf) (l4_off (mbuf_data mbuf) + 2)) now = Some (mg1, None)"
    by (rule nat_get_external_unknown [OF m1(2)]) (use m1(3) port i in \<open>auto simp: nat_same_config_def\<close>)
  then show ?thesis
    using nat_process_external_steps [OF m1(1) assms(4-7)] m1(2,3) by simp
qed

text \<open>
  The handler does not check that the port belongs to the range of the table: outside of it the
  allocator is read out of bounds.
\<close>

lemma is_index_allocated_out_of_range:
  assumes "double_chainp ch chain" "i < - 2 \<or> dchain_index_range_fp ch \<le> i"
  shows "dchain_is_index_allocated chain i = None"
proof -
  obtain dci where "dchainip dci (dc_cells chain)" "dchaini_irange_fp dci = dchain_index_range_fp ch"
    using assms(1) by (rule double_chainpE)
  then have "int (length (dc_cells chain)) = dchain_index_range_fp ch + 2"
    using dchainip_facts(1) by fastforce
  then have "rd (dc_cells chain) (i + 2) = None" using assms(2) by (intro rd_out) auto
  then show ?thesis
    by (simp add: dchain_is_index_allocated_def dchain_impl_is_index_allocated_def get_next_def heads)
qed

lemma nat_process_external_out_of_range:
  assumes "nat_rep T t0 mg" "0 \<le> now" "now < 2 ^ 63" "mbuf_ok mbuf" "is_ipv4 (mbuf_data mbuf)"
    "is_tcpudp (mbuf_data mbuf)" "mbuf_port mbuf = ncfg_wan_device config"
    and port: "uint (get16 (mbuf_data mbuf) (l4_off (mbuf_data mbuf) + 2)) = nst_start_port (nmg_state mg) + i"
    and i: "i < - 2 \<or> nat_capacity mg \<le> i"
  shows "nat_core_process lib config mg mbuf now = None"
proof -
  obtain mg1 T' where m1: "nat_flow_manager_expire mg now = Some mg1" "nat_rep T' t0 mg1" "nat_same_config mg mg1"
    using nat_expire_correct [OF assms(1-3)] by blast
  obtain ch where ch: "double_chainp ch (nst_heap (nmg_state mg1))" "dchain_index_range_fp ch = nat_capacity mg1"
    using m1(2) mvc_coherentD(3) unfolding nat_rep_def flow_rep_via_def nat_capacity_def by blast
  have "dchain_is_index_allocated (nst_heap (nmg_state mg1)) i = None"
    by (rule is_index_allocated_out_of_range [OF ch(1)]) (use ch(2) i m1(3) in \<open>simp add: nat_same_config_def\<close>)
  moreover have "uint (get16 (mbuf_data mbuf) (l4_off (mbuf_data mbuf) + 2)) - nst_start_port (nmg_state mg1) = i"
    using port m1(3) by (simp add: nat_same_config_def)
  ultimately show ?thesis
    using nat_process_external_steps [OF m1(1) assms(4-7)]
    by (simp add: nat_flow_manager_get_external_def Let_def)
qed

section \<open>Allocation of the state\<close>

lemma nat_alloc_state_correct:
  assumes "heap_ok h" "capacity_ok n" "sizeof_FlowId * int n < 2 ^ 32"
    "nat_alloc_state mem None (int n) sp ip dev h = Some (Some st, al, h')"
  shows "flow_rep [] 0 (nst_fm st) (nst_fv st) (nst_heap st) \<and> v_capacity (nst_fv st) = int n \<and>
    nst_start_port st = sp \<and> nst_ext_ip st = ip \<and> nst_nat_device st = dev \<and> nst_max_flows st = int n"
proof -
  obtain ret h1 where h1: "malloc h = (Some ret, h1)"
    using assms(4) by (auto simp: nat_alloc_state_def split: prod.splits option.splits)
  then have ok1: "heap_ok h1" using malloc_Some(3) [OF _ assms(1)] by blast
  obtain r2 fm h2 where h2: "map_allocate FlowId_eq FlowId_hash (int n) None (u_ints mem) (u_ptrs mem) h1
      = Some (r2, fm, h2)" "r2 \<noteq> 0"
    using assms(4) h1 by (auto simp: nat_alloc_state_def bind_eq_Some_conv split: if_splits)
  obtain r3 fv h3 where h3: "vector_allocate sizeof_FlowId (int n) FlowId_allocate None (u_addr mem) (u_elems mem) h2
      = Some (r3, fv, h3)" "r3 \<noteq> 0"
    using assms(4) h1 h2 by (auto simp: nat_alloc_state_def bind_eq_Some_conv split: if_splits)
  obtain r4 heap h4 where h4: "dchain_allocate (int n) None (u_cells mem) (u_times mem) h3 = Some (r4, heap, h4)"
    "r4 \<noteq> 0"
    using assms(4) h1 h2 h3 by (auto simp: nat_alloc_state_def bind_eq_Some_conv split: if_splits)
  obtain m v c where "fm = Some m" "fv = Some v" "heap = Some c" "flow_rep [] 0 m v c" "v_capacity v = int n"
    using containers_allocated [where kv = "\<lambda>k. k", OF ok1 assms(2) FlowId_eq_iff _ assms(3) h2 h3 h4] by (auto simp: sizeof_FlowId_def)
  then show ?thesis
    using assms(4) h1 h2 h3 h4 by (auto simp: nat_alloc_state_def Let_def)
qed

lemma nat_core_init_correct:
  assumes "heap_ok h" "capacity_ok n" "sizeof_FlowId * int n < 2 ^ 32" "uint (ncfg_max_flows config) = int n"
    "nat_core_init mem None config h = Some (Some mg, h')"
  shows "nat_rep [] 0 mg" "nat_capacity mg = int n"
    "nst_start_port (nmg_state mg) = uint (ncfg_start_port config)"
    "nst_nat_device (nmg_state mg) = ucast (ncfg_wan_device config)"
    "nmg_expiration_time mg = ncfg_expiration_time config"
proof -
  have n: "n < 2 ^ 31" using assms(3) by (simp add: sizeof_FlowId_def)
  obtain b h1 where h1: "malloc h = (Some b, h1)"
    using assms(5) by (auto simp: nat_core_init_def nat_flow_manager_allocate_def bind_eq_Some_conv
        split: prod.splits option.splits)
  then have ok1: "heap_ok h1" using malloc_Some(3) [OF _ assms(1)] by blast
  obtain st al h2 where h2: "nat_alloc_state mem None (int n) (uint (ncfg_start_port config))
      (ncfg_external_addr config) (ucast (ncfg_wan_device config)) h1 = Some (Some st, al, h2)"
    and mg: "mg = \<lparr>nmg_state = st, nmg_expiration_time = ncfg_expiration_time config\<rparr>"
    using assms(5) h1 capacity_conversion [OF assms(4) n]
    by (auto simp: nat_core_init_def nat_flow_manager_allocate_def bind_eq_Some_conv split: option.splits)
  from nat_alloc_state_correct [OF ok1 assms(2,3) h2]
  show "nat_rep [] 0 mg" "nat_capacity mg = int n"
    "nst_start_port (nmg_state mg) = uint (ncfg_start_port config)"
    "nst_nat_device (nmg_state mg) = ucast (ncfg_wan_device config)"
    "nmg_expiration_time mg = ncfg_expiration_time config"
    by (simp_all add: mg nat_rep_def nat_capacity_def)
qed

section \<open>Reachable states\<close>

text \<open>
  A run of the translator: after the initialisation, packets arrive on the devices \<open>0 \<dots> devs - 1\<close> at
  times that do not decrease.
\<close>

inductive nat_reachable :: "cksum_lib \<Rightarrow> nat_config \<Rightarrow> u16 \<Rightarrow> nat_manager \<Rightarrow> int \<Rightarrow> bool"
  for lib config devs where
  start: "heap_ok h \<Longrightarrow> nat_core_init mem None config h = Some (Some mg, h') \<Longrightarrow>
    nat_reachable lib config devs mg 0"
| packet: "nat_reachable lib config devs mg t \<Longrightarrow> t \<le> now \<Longrightarrow> now < 2 ^ 63 \<Longrightarrow> mbuf_ok mbuf \<Longrightarrow>
    mbuf_port mbuf < devs \<Longrightarrow> nat_core_process lib config mg mbuf now = Some (out, mg', mbuf') \<Longrightarrow>
    nat_reachable lib config devs mg' now"

definition nat_flows_ok :: "nat_config \<Rightarrow> u16 \<Rightarrow> FlowId flows \<Rightarrow> bool" where
  "nat_flows_ok config devs T \<longleftrightarrow>
     (\<forall>(f, _, _)\<in>set T. id_internal_device f < devs \<and> id_internal_device f \<noteq> ncfg_wan_device config)"

lemma nat_flows_ok_simps:
  "nat_flows_ok config devs T \<Longrightarrow> nat_flows_ok config devs (expire_flows T t)"
  "nat_flows_ok config devs T \<Longrightarrow> nat_flows_ok config devs (touch_flow T i t)"
  "nat_flows_ok config devs (add_flow T f i t) \<longleftrightarrow>
    nat_flows_ok config devs T \<and> id_internal_device f < devs \<and> id_internal_device f \<noteq> ncfg_wan_device config"
  by (auto simp: nat_flows_ok_def expire_flows_def touch_flow_def add_flow_def)

lemma nat_get_external_outside:
  assumes "nat_rep T t0 mg" "uint port = nst_start_port (nmg_state mg) + i" "i < 0 \<or> nat_capacity mg \<le> i"
    "nat_flow_manager_get_external mg port now = Some (mg', found)"
  shows "mg' = mg \<and> found = None"
proof -
  note v = flow_vector(2,3) [OF assms(1) [unfolded nat_rep_def]]
  have "rd (v_elems (nst_fv (nmg_state mg))) i = None"
    using assms(3) v(2) by (intro rd_out) (auto simp: nat_capacity_def)
  then show ?thesis
    using assms(2,4) v(1)
    by (auto simp: nat_flow_manager_get_external_def Let_def bind_eq_Some_conv split: if_splits)
qed

lemma nat_send_manager:
  "nat_send lib config mg mbuf e ip d dev = Some (out, mg', mbuf') \<Longrightarrow> mg' = mg \<and> out = uint dev"
  by (auto simp: nat_send_def bind_eq_Some_conv)

lemma nat_step_internal:
  assumes "nat_rep T t0 mg1" "t0 \<le> now" "nat_flows_ok config devs T" "mbuf_port mbuf < devs"
    "mbuf_port mbuf \<noteq> ncfg_wan_device config"
    "(do {
      (mg2, known) \<leftarrow> nat_flow_manager_get_internal mg1 (nat_flow_of mbuf) now;
      (mg3, port) \<leftarrow>
        (case known of
           Some p \<Rightarrow> Some (mg2, Some p)
         | None \<Rightarrow> nat_flow_manager_allocate_flow mg2 (nat_flow_of mbuf) (mbuf_port mbuf) now);
      case port of
        None \<Rightarrow> Some (uint (mbuf_port mbuf), mg3, mbuf)
      | Some p \<Rightarrow> nat_send lib config mg3 mbuf 0 14 (rewrite p) (ncfg_wan_device config)
    }) = Some (out, mg', mbuf')"
  shows "\<exists>T'. nat_rep T' now mg' \<and> nat_flows_ok config devs T' \<and> nat_same_config mg1 mg'"
proof (cases "find_flow T (nat_flow_of mbuf)")
  case (Some i)
  from nat_get_internal_known [OF assms(1) Some assms(2)] obtain mg2 where
    m2: "nat_flow_manager_get_internal mg1 (nat_flow_of mbuf) now = Some (mg2, Some (nat_port mg1 i))"
    "nat_rep (touch_flow T i now) now mg2" "nat_same_config mg1 mg2" by blast
  then have "mg' = mg2" using assms(6) nat_send_manager by auto
  then show ?thesis using m2 nat_flows_ok_simps(2) [OF assms(3)] by blast
next
  case None
  note unk = nat_get_internal_unknown [OF assms(1) None, of now]
  have len: "int (length T) \<le> nat_capacity mg1"
    using flow_length [OF assms(1) [unfolded nat_rep_def]] by (simp add: nat_capacity_def)
  show ?thesis
  proof (cases "int (length T) < nat_capacity mg1")
    case True
    from nat_allocate_flow_correct [OF assms(1) None True assms(2), of "mbuf_port mbuf"] obtain mg2 i where
      m2: "nat_flow_manager_allocate_flow mg1 (nat_flow_of mbuf) (mbuf_port mbuf) now = Some (mg2, Some (nat_port mg1 i))"
      "nat_rep (add_flow T (nat_flow_of mbuf) i now) now mg2" "nat_same_config mg1 mg2" by blast
    then have "mg' = mg2" using assms(6) unk nat_send_manager by auto
    moreover have "nat_flows_ok config devs (add_flow T (nat_flow_of mbuf) i now)"
      using assms(3,4,5) by (simp add: nat_flows_ok_simps(3) nat_flow_of_def Let_def)
    ultimately show ?thesis using m2 by blast
  next
    case False
    then have "mg' = mg1" using assms(6) unk nat_allocate_flow_full [OF assms(1)] len by auto
    then show ?thesis
      using flow_rep_later [OF assms(1) [unfolded nat_rep_def] assms(2)] assms(3) by (auto simp: nat_rep_def)
  qed
qed

lemma nat_step_external:
  assumes "nat_rep T t0 mg1" "t0 \<le> now" "nat_flows_ok config devs T"
    "(do {
      (mg2, found) \<leftarrow> nat_flow_manager_get_external mg1 port now;
      case found of
        None \<Rightarrow> Some (uint (mbuf_port mbuf), mg2, mbuf)
      | Some f \<Rightarrow> nat_send lib config mg2 mbuf 0 14 (rewrite f) (id_internal_device f)
    }) = Some (out, mg', mbuf')"
  shows "\<exists>T'. nat_rep T' now mg' \<and> nat_flows_ok config devs T' \<and> nat_same_config mg1 mg'"
proof -
  define i where "i = uint port - nst_start_port (nmg_state mg1)"
  have port: "uint port = nst_start_port (nmg_state mg1) + i" by (simp add: i_def)
  have later: "nat_rep T now mg1"
    using flow_rep_later [OF assms(1) [unfolded nat_rep_def] assms(2)] by (simp add: nat_rep_def)
  consider (out) "i < 0 \<or> nat_capacity mg1 \<le> i" | (free) "0 \<le> i" "i < nat_capacity mg1" "\<forall>k t. (k, i, t) \<notin> set T"
    | (used) f t where "(f, i, t) \<in> set T" by fastforce
  then show ?thesis
  proof cases
    case out
    have "mg' = mg1"
      using assms(4) nat_get_external_outside [OF assms(1) port out]
      by (auto simp: bind_eq_Some_conv split: option.splits)
    then show ?thesis using later assms(3) by auto
  next
    case free
    then have "mg' = mg1" using assms(4) nat_get_external_unknown [OF assms(1) port free] by auto
    then show ?thesis using later assms(3) by auto
  next
    case used
    from nat_get_external_known [OF assms(1) used assms(2) port] obtain mg2 where
      m2: "nat_flow_manager_get_external mg1 port now = Some (mg2, Some f)"
      "nat_rep (touch_flow T i now) now mg2" "nat_same_config mg1 mg2" by blast
    then have "mg' = mg2" using assms(4) nat_send_manager by auto
    then show ?thesis using m2 nat_flows_ok_simps(2) [OF assms(3)] by blast
  qed
qed

lemma nat_step_preserves:
  assumes rep: "nat_rep T t0 mg" and time: "0 \<le> now" "now < 2 ^ 63" "t0 \<le> now" and mbuf: "mbuf_ok mbuf"
    and ok: "nat_flows_ok config devs T" and dev: "mbuf_port mbuf < devs"
    and run: "nat_core_process lib config mg mbuf now = Some (out, mg', mbuf')"
  shows "\<exists>T'. nat_rep T' now mg' \<and> nat_flows_ok config devs T' \<and> nat_same_config mg mg'"
proof -
  let ?T = "expire_flows T (now - uint (nmg_expiration_time mg))"
  obtain mg1 where m1: "nat_flow_manager_expire mg now = Some mg1" "nat_rep ?T t0 mg1" "nat_same_config mg mg1"
    using nat_expire_correct [OF rep time(1,2)] by blast
  note ok1 = nat_flows_ok_simps(1) [OF ok, of "now - uint (nmg_expiration_time mg)"]
  have "\<exists>T'. nat_rep T' now mg' \<and> nat_flows_ok config devs T' \<and> nat_same_config mg1 mg'"
  proof (cases "is_ipv4 (mbuf_data mbuf) \<and> is_tcpudp (mbuf_data mbuf)")
    case False
    then have "mg' = mg1"
      using run m1(1) parsed_headers [OF mbuf] by (auto simp: nat_core_process_def Let_def split: if_splits)
    moreover have "nat_rep ?T now mg1"
      using flow_rep_later [OF m1(2) [unfolded nat_rep_def] time(3)] by (simp add: nat_rep_def)
    ultimately show ?thesis using ok1 by auto
  next
    case True
    then have h: "is_ipv4 (mbuf_data mbuf)" "is_tcpudp (mbuf_data mbuf)" by auto
    show ?thesis
    proof (cases "mbuf_port mbuf = ncfg_wan_device config")
      case True
      from run [unfolded nat_process_external_steps [OF m1(1) mbuf h True]] show ?thesis
        by (rule nat_step_external [OF m1(2) time(3) ok1])
    next
      case False
      from run [unfolded nat_process_internal_steps [OF m1(1) mbuf h False]] show ?thesis
        by (rule nat_step_internal [OF m1(2) time(3) ok1 dev False])
    qed
  qed
  then show ?thesis using nat_same_config_trans [OF m1(3)] by blast
qed

text \<open>What holds in every reachable state.\<close>

lemma nat_reachable_inv:
  assumes "nat_reachable lib config devs mg t" "capacity_ok n" "sizeof_FlowId * int n < 2 ^ 32"
    "uint (ncfg_max_flows config) = int n"
  shows "0 \<le> t \<and> nat_capacity mg = int n \<and> nst_start_port (nmg_state mg) = uint (ncfg_start_port config) \<and>
    (\<exists>T. nat_rep T t mg \<and> nat_flows_ok config devs T)"
  using assms(1)
proof (induction rule: nat_reachable.induct)
  case (start h mem mg h')
  from nat_core_init_correct [OF start(1) assms(2-4) start(2)] show ?case
    by (auto simp: nat_flows_ok_def)
next
  case (packet mg t now mbuf out mg' mbuf')
  then obtain T where T: "nat_rep T t mg" "nat_flows_ok config devs T" by blast
  from nat_step_preserves [OF T(1) _ packet(3,2,4) T(2) packet(5,6)] packet show ?case
    by (auto simp: nat_same_config_def)
qed

section \<open>Example state\<close>

definition example_nat :: nat_manager where
  "example_nat = \<lparr>nmg_state = \<lparr>nst_fm = small_flow_map,
       nst_fv = small_flow_vector \<lparr>id_src_port = 0, id_dst_port = 0, id_src_ip = 0, id_dst_ip = 0,
         id_internal_device = 0, id_protocol = 0\<rparr>,
       nst_heap = small_flow_chain, nst_max_flows = 2, nst_start_port = 1000, nst_ext_ip = 9, nst_nat_device = 1\<rparr>,
     nmg_expiration_time = 100\<rparr>"

definition example_nat_config :: nat_config where
  "example_nat_config = \<lparr>ncfg_lan_main_device = 0, ncfg_wan_device = 1, ncfg_external_addr = 9,
     ncfg_device_macs = [[1, 1, 1, 1, 1, 1], [2, 2, 2, 2, 2, 2]],
     ncfg_endpoint_macs = [[3, 3, 3, 3, 3, 3], [4, 4, 4, 4, 4, 4]],
     ncfg_start_port = 1000, ncfg_expiration_time = 100, ncfg_max_flows = 2\<rparr>"

lemma example_nat_rep: "nat_rep [] 0 example_nat" "nat_capacity example_nat = 2"
  using small_flow_rep by (simp_all add: nat_rep_def example_nat_def nat_capacity_def small_flow_vector_def)

lemma example_nat_config_ok: "nat_config_ok example_nat_config 0" "nat_config_ok example_nat_config 1"
  by (simp_all add: nat_config_ok_def example_nat_config_def)


section \<open>Properties\<close>

text \<open>
  The hash of a flow identifier never overflows its 64 bit accumulator: it equals the polynomial
  in 31 over the fields, reduced modulo \<open>INT_MAX\<close>, and so fits into a non-negative \<open>int\<close>.
\<close>

lemma FlowId_hash_no_overflow:
  "FlowId_hash f =
    ((((((uint (id_src_port f) * 31 + uint (id_dst_port f)) * 31 + uint (id_src_ip f)) * 31
      + uint (id_dst_ip f)) * 31 + uint (id_internal_device f)) * 31) + uint (id_protocol f)) mod INT_MAX \<and>
   0 \<le> FlowId_hash f \<and> FlowId_hash f < INT_MAX"
  unfolding FlowId_hash_value by (simp add: INT_MAX_def)

text \<open>
  A packet of a flow that the translator knows (and that has not expired) leaves on the external
  device with the external address and the flow's port as its source; the flow is refreshed, nothing
  else of the packet but Ethernet addresses and checksums changes.
\<close>

lemma nat_outgoing_known_flow:
  assumes "nat_rep T t0 mg" "0 \<le> now" "now < 2 ^ 63" "t0 \<le> now" "mbuf_ok mbuf" "is_ipv4 (mbuf_data mbuf)"
    "is_tcpudp (mbuf_data mbuf)" "mbuf_port mbuf \<noteq> ncfg_wan_device config"
    "nat_config_ok config (ncfg_wan_device config)"
    "find_flow (expire_flows T (now - uint (nmg_expiration_time mg))) (nat_flow_of mbuf) = Some i"
  shows "\<exists>mg' d'. nat_core_process lib config mg mbuf now
      = Some (uint (ncfg_wan_device config), mg', mbuf\<lparr>mbuf_data := d'\<rparr>) \<and>
    nat_rep (touch_flow (expire_flows T (now - uint (nmg_expiration_time mg))) i now) now mg' \<and>
    nat_same_config mg mg' \<and>
    sent_on config (ncfg_wan_device config)
      (put16 (put32 (mbuf_data mbuf) 26 (ncfg_external_addr config)) (l4_off (mbuf_data mbuf)) (nat_port mg i)) d'"
  by (rule nat_process_internal_known [OF assms(1-9) refl assms(10)])

lemma example_one_flow:
  obtains mg i where "nat_rep [(f, i, 5)] 5 mg" "nat_capacity mg = 2" "0 \<le> i" "i < 2"
    "nmg_expiration_time mg = 100" "nst_start_port (nmg_state mg) = 1000"
proof -
  obtain m v c i where r: "flow_rep [(f, i, 5)] 5 m v c" "v_capacity v = 2" "0 \<le> i" "i < 2"
    by (rule one_flow_rep [of 5 f]) auto
  show thesis
    by (rule that [of i "example_nat\<lparr>nmg_state := (nmg_state example_nat)\<lparr>nst_fm := m, nst_fv := v, nst_heap := c\<rparr>\<rparr>"])
      (use r in \<open>simp_all add: nat_rep_def nat_capacity_def example_nat_def\<close>)
qed

text \<open>
  The first packet of a flow, while the table has room, enters the flow with a port that no other
  flow uses and leaves on the external device with that port as its source.
\<close>

lemma nat_outgoing_new_flow:
  assumes "nat_rep T t0 mg" "0 \<le> now" "now < 2 ^ 63" "t0 \<le> now" "mbuf_ok mbuf" "is_ipv4 (mbuf_data mbuf)"
    "is_tcpudp (mbuf_data mbuf)" "mbuf_port mbuf \<noteq> ncfg_wan_device config"
    "nat_config_ok config (ncfg_wan_device config)"
    "find_flow (expire_flows T (now - uint (nmg_expiration_time mg))) (nat_flow_of mbuf) = None"
    "int (length (expire_flows T (now - uint (nmg_expiration_time mg)))) < nat_capacity mg"
  shows "\<exists>mg' d' i. nat_core_process lib config mg mbuf now
      = Some (uint (ncfg_wan_device config), mg', mbuf\<lparr>mbuf_data := d'\<rparr>) \<and>
    0 \<le> i \<and> i < nat_capacity mg \<and>
    (\<forall>k t. (k, i, t) \<notin> set (expire_flows T (now - uint (nmg_expiration_time mg)))) \<and>
    nat_rep (add_flow (expire_flows T (now - uint (nmg_expiration_time mg))) (nat_flow_of mbuf) i now) now mg' \<and>
    sent_on config (ncfg_wan_device config)
      (put16 (put32 (mbuf_data mbuf) 26 (ncfg_external_addr config)) (l4_off (mbuf_data mbuf)) (nat_port mg i)) d'"
  using nat_process_internal_new [OF assms(1-9) refl assms(10,11), of lib] by blast

text \<open>
  With a full table the packet of an unknown flow is dropped (the device it came from is
  returned) and neither the packet nor the remaining flows change.
\<close>

lemma nat_outgoing_table_full:
  assumes "nat_rep T t0 mg" "0 \<le> now" "now < 2 ^ 63" "mbuf_ok mbuf" "is_ipv4 (mbuf_data mbuf)"
    "is_tcpudp (mbuf_data mbuf)" "mbuf_port mbuf \<noteq> ncfg_wan_device config"
    "find_flow (expire_flows T (now - uint (nmg_expiration_time mg))) (nat_flow_of mbuf) = None"
    "int (length (expire_flows T (now - uint (nmg_expiration_time mg)))) = nat_capacity mg"
  shows "\<exists>mg'. nat_core_process lib config mg mbuf now = Some (uint (mbuf_port mbuf), mg', mbuf) \<and>
    nat_rep (expire_flows T (now - uint (nmg_expiration_time mg))) t0 mg'"
  using nat_process_internal_full [OF assms(1-7) refl assms(8,9), of lib] by blast

text \<open>
  A packet from the external device whose destination port belongs to a live flow is forwarded to
  that flow's internal device with the flow's source address and port as its destination.
\<close>

lemma nat_incoming_known_port:
  assumes "nat_rep T t0 mg" "0 \<le> now" "now < 2 ^ 63" "t0 \<le> now" "mbuf_ok mbuf" "is_ipv4 (mbuf_data mbuf)"
    "is_tcpudp (mbuf_data mbuf)" "mbuf_port mbuf = ncfg_wan_device config"
    "(f, i, t) \<in> set (expire_flows T (now - uint (nmg_expiration_time mg)))"
    "uint (get16 (mbuf_data mbuf) (l4_off (mbuf_data mbuf) + 2)) = nst_start_port (nmg_state mg) + i"
    "nat_config_ok config (id_internal_device f)"
  shows "\<exists>mg' d'. nat_core_process lib config mg mbuf now
      = Some (uint (id_internal_device f), mg', mbuf\<lparr>mbuf_data := d'\<rparr>) \<and>
    nat_rep (touch_flow (expire_flows T (now - uint (nmg_expiration_time mg))) i now) now mg' \<and>
    sent_on config (id_internal_device f)
      (put16 (put32 (mbuf_data mbuf) 30 (id_src_ip f)) (l4_off (mbuf_data mbuf) + 2) (id_src_port f)) d'"
  using nat_process_external_known [OF assms(1-8) refl assms(9-11), of lib] by blast

text \<open>
  A packet from the external device to a port of the table's range that no live flow uses is
  dropped, and nothing but the expiry of old flows happens.
\<close>

lemma nat_incoming_unknown_port:
  assumes "nat_rep T t0 mg" "0 \<le> now" "now < 2 ^ 63" "mbuf_ok mbuf" "is_ipv4 (mbuf_data mbuf)"
    "is_tcpudp (mbuf_data mbuf)" "mbuf_port mbuf = ncfg_wan_device config"
    "uint (get16 (mbuf_data mbuf) (l4_off (mbuf_data mbuf) + 2)) = nst_start_port (nmg_state mg) + i"
    "0 \<le> i" "i < nat_capacity mg" "\<forall>k t. (k, i, t) \<notin> set (expire_flows T (now - uint (nmg_expiration_time mg)))"
  shows "\<exists>mg'. nat_core_process lib config mg mbuf now = Some (uint (mbuf_port mbuf), mg', mbuf) \<and>
    nat_rep (expire_flows T (now - uint (nmg_expiration_time mg))) t0 mg'"
  using nat_process_external_unknown [OF assms(1-7) refl assms(8-11), of lib] by blast

text \<open>
  C37. The port of an external packet is not checked against the range of the table: a destination port
  more than two below the first port, or behind the last one, makes the translator read the
  allocator's cells out of bounds.
\<close>

theorem nat_incoming_port_unchecked:
  assumes "nat_rep T t0 mg" "0 \<le> now" "now < 2 ^ 63" "mbuf_ok mbuf" "is_ipv4 (mbuf_data mbuf)"
    "is_tcpudp (mbuf_data mbuf)" "mbuf_port mbuf = ncfg_wan_device config"
    "uint (get16 (mbuf_data mbuf) (l4_off (mbuf_data mbuf) + 2)) = nst_start_port (nmg_state mg) + i"
    "i < - 2 \<or> nat_capacity mg \<le> i"
  shows "nat_core_process lib config mg mbuf now = None"
  by (rule nat_process_external_out_of_range [OF assms])

theorem nat_incoming_port_unchecked_witness:
  "nat_core_process example_cksum example_nat_config example_nat (example_tcp 1 80) 7 = None"
  using nat_incoming_port_unchecked [OF example_nat_rep(1), of 7 "example_tcp 1 80" example_nat_config "- 920"]
  by (simp add: example_tcp_ok example_nat_config_def) (simp add: example_nat_def)



text \<open>The initialisation of the example configuration, with memory for all blocks.\<close>

definition example_nat_memory :: "FlowId uninit" where
  "example_nat_memory = \<lparr>u_ints = \<lambda>_ _. 0, u_ptrs = \<lambda>_ _. At 0, u_cells = \<lambda>_ _. \<lparr>cell_prev = 0, cell_next = 0\<rparr>,
     u_times = \<lambda>_ _. 0, u_addr = \<lambda>_. 4096,
     u_elems = \<lambda>_ _. \<lparr>id_src_port = 0, id_dst_port = 0, id_src_ip = 0, id_dst_ip = 0,
       id_internal_device = 0, id_protocol = 0\<rparr>\<rparr>"

definition example_heap :: heap where
  "example_heap = \<lparr>outcomes = [True, True, True, True, True, True, True, True, True, True, True, True, True], live = [], fresh = 0\<rparr>"

lemma example_nat_init:
  obtains mg h' where "nat_core_init example_nat_memory None example_nat_config example_heap = Some (Some mg, h')"
proof -
  let ?mem = example_nat_memory
  obtain h1 where h1: "malloc example_heap = (Some 0, h1)" "outcomes h1 = replicate 12 True"
    by (simp add: malloc_def example_heap_def numeral_eq_Suc)
  obtain b h2 where h2: "malloc h1 = (Some b, h2)" "outcomes h2 = replicate 6 True @ replicate 5 True"
    using h1(2) by (simp add: malloc_def numeral_eq_Suc)
  obtain m h3 where h3: "map_allocate FlowId_eq FlowId_hash (int 2) None (u_ints ?mem) (u_ptrs ?mem) h2 = Some (1, Some m, h3)"
    "outcomes h3 = True # True # replicate 3 True"
    using map_allocate_plenty [OF h2(2)] by (fastforce simp: numeral_eq_Suc)
  obtain v h4 where h4: "vector_allocate sizeof_FlowId (int 2) FlowId_allocate None (u_addr ?mem) (u_elems ?mem) h3
      = Some (1, Some v, h4)" "outcomes h4 = True # True # True # []"
    using vector_allocate_plenty [OF h3(2), of sizeof_FlowId 2] by (fastforce simp: sizeof_FlowId_def numeral_eq_Suc)
  obtain c h5 where h5: "dchain_allocate (int 2) None (u_cells ?mem) (u_times ?mem) h4 = Some (1, Some c, h5)"
    using dchain_allocate_plenty [OF h4(2), of 2] by fastforce
  have "\<exists>mg h'. nat_core_init ?mem None example_nat_config example_heap = Some (Some mg, h')"
    using h1(1) h2(1) h3(1) h4(1) h5
    by (simp add: nat_core_init_def nat_flow_manager_allocate_def nat_alloc_state_def example_nat_config_def Let_def)
  then show thesis using that by blast
qed


lemma sent_on_get16:
  assumes "sent_on config dev d d'" "12 \<le> j" "j \<notin> cksum_bytes 14 (d ! 23)" "j + 1 \<notin> cksum_bytes 14 (d ! 23)"
  shows "get16 d' j = get16 d j"
  using assms by (simp add: sent_on_def get16_def)

lemma sent_on_get32:
  assumes "sent_on config dev d d'" "12 \<le> j" "j \<notin> cksum_bytes 14 (d ! 23)" "j + 1 \<notin> cksum_bytes 14 (d ! 23)"
    "j + 2 \<notin> cksum_bytes 14 (d ! 23)" "j + 3 \<notin> cksum_bytes 14 (d ! 23)"
  shows "get32 d' j = get32 d j"
  using assms by (simp add: sent_on_def get32_def get16_def numeral_2_eq_2 numeral_3_eq_3)

lemma nat_sent_out:
  assumes rep: "nat_rep T t0 mg" and time: "0 \<le> now" "now < 2 ^ 63" "t0 \<le> now"
    and out: "mbuf_ok out" "is_ipv4 (mbuf_data out)" "is_tcpudp (mbuf_data out)" "mbuf_port out \<noteq> ncfg_wan_device config"
    and config: "nat_config_ok config (ncfg_wan_device config)" and l4: "l4_off (mbuf_data out) = 19"
    and run: "nat_core_process lib config mg out now = Some (uint (ncfg_wan_device config), mg1, out')"
  shows "\<exists>T1 i. nat_rep T1 now mg1 \<and> (nat_flow_of out, i, now) \<in> set T1 \<and> nat_same_config mg mg1 \<and>
    get16 (mbuf_data out') 19 = nat_port mg i"
proof -
  let ?T = "expire_flows T (now - uint (nmg_expiration_time mg))"
  let ?d = "\<lambda>i. put16 (put32 (mbuf_data out) 26 (ncfg_external_addr config)) (l4_off (mbuf_data out)) (nat_port mg i)"
  have written: "get16 d' 19 = nat_port mg i" if "sent_on config (ncfg_wan_device config) (?d i) d'" for i d'
    using sent_on_get16 [OF that, of 19] out(1,3) l4
    by (auto simp: pkt cksum_bytes_def is_tcpudp_def mbuf_ok_def IPPROTO_TCP_def IPPROTO_UDP_def)
  have cap: "int (length ?T) \<le> nat_capacity mg"
    using flow_length [OF rep [unfolded nat_rep_def]]
    by (simp add: nat_capacity_def expire_flows_def) (metis length_filter_le of_nat_mono order_trans)
  have ne: "uint (mbuf_port out) \<noteq> uint (ncfg_wan_device config)" using out(4) by (simp add: word_uint_eq_iff)
  consider (known) i where "find_flow ?T (nat_flow_of out) = Some i"
    | (new) "find_flow ?T (nat_flow_of out) = None" "int (length ?T) < nat_capacity mg"
    | (full) "find_flow ?T (nat_flow_of out) = None" "int (length ?T) = nat_capacity mg"
    using cap by fastforce
  then show ?thesis
  proof cases
    case known
    obtain mg' d' where r: "nat_core_process lib config mg out now
        = Some (uint (ncfg_wan_device config), mg', out\<lparr>mbuf_data := d'\<rparr>)"
      "nat_rep (touch_flow ?T i now) now mg'" "nat_same_config mg mg'"
      "sent_on config (ncfg_wan_device config) (?d i) d'"
      using nat_process_internal_known [OF rep time out config refl known, of lib] by blast
    have wf: "flows_wf ?T (nat_capacity mg) t0"
      using flows_wf_expire [OF flow_rep_wf [OF rep [unfolded nat_rep_def]]] by (simp add: nat_capacity_def)
    obtain t where "(nat_flow_of out, i, t) \<in> set ?T" using known unfolding find_flow_Some [OF wf] by blast
    then have "(nat_flow_of out, i, now) \<in> set (touch_flow ?T i now)" by (auto simp: touch_flow_member)
    then show ?thesis using r run written [OF r(4)] by auto
  next
    case new
    obtain mg' d' i where r: "nat_core_process lib config mg out now
        = Some (uint (ncfg_wan_device config), mg', out\<lparr>mbuf_data := d'\<rparr>)"
      "nat_rep (add_flow ?T (nat_flow_of out) i now) now mg'" "nat_same_config mg mg'"
      "sent_on config (ncfg_wan_device config) (?d i) d'"
      using nat_process_internal_new [OF rep time out config refl new, of lib] by blast
    moreover have "(nat_flow_of out, i, now) \<in> set (add_flow ?T (nat_flow_of out) i now)" by (simp add: add_flow_def)
    ultimately show ?thesis using run written [OF r(4)] by auto
  next
    case full
    from nat_process_internal_full [OF rep time(1,2) out refl full, of lib] run ne show ?thesis by auto
  qed
qed



end
