(* ===== verification/Vigpol.thy ===== *)
theory Vigpol
  imports FlowTable NfUtil
begin

text \<open>
  The policer of \<open>dpdk-nfs/nf/vigpol\<close>: destination addresses with a token bucket each
  (\<open>policer_flow.c\<close>, \<open>policer_state.c\<close>), the bucket update, the expiry and the packet handler
  (\<open>policer_main.c\<close>).

  The bucket update is shown to keep every destination within the configured rate and burst over any
  sequence of packets. The expiry hands the vector of buckets to the expirator, which needs the
  vector of keys; what this does to the table is shown as well.
\<close>

section \<open>Destinations and buckets\<close>

record Bucket =
  bucket_size :: u64
  bucket_time :: int

definition sizeof_Bucket :: int where
  "sizeof_Bucket = 16"

definition policer_flow_eq :: "u32 \<Rightarrow> u32 \<Rightarrow> bool" where
  "policer_flow_eq a b \<longleftrightarrow> a = b"

definition policer_flow_hash :: "u32 \<Rightarrow> int" where
  "policer_flow_hash ip =
     (let hash = 0 :: 64 word;
          hash = hash + ucast ip;
          hash = hash * 31
      in sint hash smod INT_MAX)"

definition policer_flow_allocate :: "'a \<Rightarrow> 'a" where
  "policer_flow_allocate obj = obj"

definition policer_bucket_sanity_check :: "Bucket \<Rightarrow> bool" where
  "policer_bucket_sanity_check b \<longleftrightarrow> 0 \<le> bucket_time b"

section \<open>State\<close>

record policer_config =
  pcfg_lan_device :: u16
  pcfg_wan_device :: u16
  pcfg_rate :: u64
  pcfg_burst :: u64
  pcfg_dyn_capacity :: u32

record policer_state =
  pst_fm :: "(u32 keyptr, u32) cmap"
  pst_fk :: "u32 vector"
  pst_fv :: "Bucket vector"
  pst_heap :: DoubleChain
  pst_max_flows :: int

text \<open>
  The map reads a 32 bit key through its pointers: inside the vector of keys that is a key, inside
  the vector of buckets it is the low half of a bucket size.
\<close>

definition policer_key :: "u32 vector \<Rightarrow> Bucket vector \<Rightarrow> u32 keyptr \<Rightarrow> u32" where
  "policer_key fk fv p =
     (case p of
        Obj k \<Rightarrow> k
      | At a \<Rightarrow>
          (if v_data fk \<le> a \<and> a < v_data fk + v_elem_size fk * v_capacity fk
           then v_elems fk ! nat (vector_index fk a)
           else ucast (bucket_size (v_elems fv ! nat (vector_index fv a)))))"

definition policer_alloc_state ::
  "u32 uninit \<Rightarrow> (nat \<Rightarrow> nat \<Rightarrow> Bucket) \<Rightarrow> policer_state option \<Rightarrow> int \<Rightarrow> heap
   \<Rightarrow> (policer_state option \<times> policer_state option \<times> heap) option" where
  "policer_alloc_state mem buckets allocated_nf_state max_flows h =
     (case allocated_nf_state of
        Some st \<Rightarrow> Some (Some st, allocated_nf_state, h)
      | None \<Rightarrow>
     (case malloc h of
        (None, h) \<Rightarrow> Some (None, allocated_nf_state, h)
      | (Some ret, h) \<Rightarrow> do {
          (r, fm, h) \<leftarrow> map_allocate policer_flow_eq policer_flow_hash max_flows None (u_ints mem) (u_ptrs mem) h;
          if r = 0 then Some (None, allocated_nf_state, h) else do {
          (r, fk, h) \<leftarrow> vector_allocate sizeof_Bucket max_flows policer_flow_allocate None (u_addr mem) (u_elems mem) h;
          if r = 0 then Some (None, allocated_nf_state, h) else do {
          (r, fv, h) \<leftarrow> vector_allocate sizeof_Bucket max_flows policer_flow_allocate None (u_addr mem) buckets h;
          if r = 0 then Some (None, allocated_nf_state, h) else do {
          (r, heap, h) \<leftarrow> dchain_allocate max_flows None (u_cells mem) (u_times mem) h;
          if r = 0 then Some (None, allocated_nf_state, h) else do {
          let st = \<lparr>pst_fm = the fm, pst_fk = the fk, pst_fv = the fv, pst_heap = the heap, pst_max_flows = max_flows\<rparr>;
          Some (Some st, Some st, h) }}}}}))"

definition policer_core_init ::
  "u32 uninit \<Rightarrow> (nat \<Rightarrow> nat \<Rightarrow> Bucket) \<Rightarrow> policer_state option \<Rightarrow> policer_config \<Rightarrow> heap
   \<Rightarrow> (policer_state option \<times> heap) option" where
  "policer_core_init mem buckets allocated config h = do {
     let capacity = pcfg_dyn_capacity config;
     (flowtable, allocated, h) \<leftarrow> policer_alloc_state mem buckets allocated (sint capacity) h;
     Some (flowtable, h)
   }"

section \<open>Expiry\<close>

definition policer_expire_entries :: "policer_config \<Rightarrow> policer_state \<Rightarrow> int \<Rightarrow> (int \<times> policer_state) option" where
  "policer_expire_entries config st time = do {
     assertion (0 \<le> time);
     let time_u = (word_of_int time :: u64);
     assertion (pcfg_rate config \<noteq> 0);
     let last_time = sint (time_u - pcfg_burst config div pcfg_rate config);
     (count, heap, fv, fm) \<leftarrow>
       expire_items_single_map (policer_key (pst_fk st) (pst_fv st)) (pst_heap st) (pst_fv st) (pst_fm st) last_time;
     Some (count, st\<lparr>pst_heap := heap, pst_fv := fv, pst_fm := fm\<rparr>)
   }"

section \<open>The token bucket\<close>

definition VIGOR_TIME_SECONDS_MULTIPLIER :: u64 where
  "VIGOR_TIME_SECONDS_MULTIPLIER = 1000000000"

definition policer_refill :: "policer_config \<Rightarrow> Bucket \<Rightarrow> int \<Rightarrow> Bucket option" where
  "policer_refill config value time = do {
     assertion (0 \<le> time);
     let time_u = (word_of_int time :: u64);
     assertion (0 \<le> bucket_time value);
     let time_diff = time_u - word_of_int (bucket_time value);
     assertion (pcfg_rate config \<noteq> 0);
     let value =
       (if time_diff < pcfg_burst config * VIGOR_TIME_SECONDS_MULTIPLIER div pcfg_rate config
        then let added_tokens = (time_diff * pcfg_rate config) div VIGOR_TIME_SECONDS_MULTIPLIER;
                 value = value\<lparr>bucket_size := bucket_size value + added_tokens\<rparr>
             in if bucket_size value > pcfg_burst config then value\<lparr>bucket_size := pcfg_burst config\<rparr> else value
        else value\<lparr>bucket_size := pcfg_burst config\<rparr>);
     Some (value\<lparr>bucket_time := sint time_u\<rparr>)
   }"

definition policer_take :: "Bucket \<Rightarrow> u16 \<Rightarrow> bool \<times> Bucket" where
  "policer_take value sz =
     (if bucket_size value > ucast sz
      then (True, value\<lparr>bucket_size := bucket_size value - ucast sz\<rparr>)
      else (False, value))"

definition policer_check_tb ::
  "policer_config \<Rightarrow> policer_state \<Rightarrow> u32 \<Rightarrow> u16 \<Rightarrow> int \<Rightarrow> (bool \<times> policer_state) option" where
  "policer_check_tb config st dst sz time = do {
     (present, index) \<leftarrow> map_get (policer_key (pst_fk st) (pst_fv st)) (pst_fm st) (Obj dst) (- 1);
     if present \<noteq> 0 then do {
       (r, heap) \<leftarrow> dchain_rejuvenate_index (pst_heap st) index time;
       let p = vector_borrow (pst_fv st) index;
       value \<leftarrow> vector_load (pst_fv st) p;
       value \<leftarrow> policer_refill config value time;
       let (fwd, value) = policer_take value sz;
       fv \<leftarrow> vector_store (pst_fv st) p value;
       let fv = vector_return fv index p;
       Some (fwd, st\<lparr>pst_heap := heap, pst_fv := fv\<rparr>)
     } else if ucast sz > pcfg_burst config then Some (False, st)
     else do {
       (allocated, heap, index) \<leftarrow> dchain_allocate_new_index (pst_heap st) index time;
       let st = st\<lparr>pst_heap := heap\<rparr>;
       if allocated = 0 then Some (False, st)
       else do {
         let key = vector_borrow (pst_fk st) index;
         let p = vector_borrow (pst_fv st) index;
         fk \<leftarrow> vector_store (pst_fk st) key dst;
         value \<leftarrow> vector_load (pst_fv st) p;
         let value = value\<lparr>bucket_size := pcfg_burst config - ucast sz, bucket_time := time\<rparr>;
         fv \<leftarrow> vector_store (pst_fv st) p value;
         fm \<leftarrow> map_put (policer_key fk fv) (pst_fm st) (At key) index;
         let fk = vector_return fk index key;
         let fv = vector_return fv index p;
         Some (True, st\<lparr>pst_fm := fm, pst_fk := fk, pst_fv := fv\<rparr>)
       }
     }
   }"

section \<open>The packet handler\<close>

text \<open>The packet length is a field of the buffer descriptor; passing it as a \<open>uint16_t\<close> keeps its low half.\<close>

definition policer_core_process ::
  "policer_config \<Rightarrow> policer_state \<Rightarrow> mbuf \<Rightarrow> u32 \<Rightarrow> int \<Rightarrow> (int \<times> policer_state) option" where
  "policer_core_process config st mbuf pkt_len now = do {
     let in_port = uint (mbuf_port mbuf);
     ip \<leftarrow> nf_get_mbuf_ipv4_header mbuf;
     case ip of None \<Rightarrow> Some (in_port, st) | Some ipv4_header \<Rightarrow> do {
     (count, st) \<leftarrow> policer_expire_entries config st now;
     if in_port = uint (pcfg_lan_device config) then Some (uint (pcfg_wan_device config), st)
     else if in_port = uint (pcfg_wan_device config) then do {
       dst \<leftarrow> ld32 (mbuf_data mbuf) (ipv4_header + dst_addr);
       (fwd, st) \<leftarrow> policer_check_tb config st dst (ucast pkt_len) now;
       if fwd then Some (uint (pcfg_lan_device config), st)
       else Some (uint (pcfg_wan_device config), st)
     }
     else Some (in_port, st)
     }
   }"

section \<open>The bucket update\<close>

text \<open>
  \<open>bucket_ok\<close> says that a bucket never holds more than the burst size and is not from the future.
  The units of the bounds below are \<open>10\<^sup>-\<^sup>9\<close> bytes.
\<close>

definition policer_config_ok :: "policer_config \<Rightarrow> bool" where
  "policer_config_ok config \<longleftrightarrow>
     0 < uint (pcfg_rate config) \<and> uint (pcfg_burst config) * 1000000000 < 2 ^ 64"

definition bucket_ok :: "policer_config \<Rightarrow> int \<Rightarrow> Bucket \<Rightarrow> bool" where
  "bucket_ok config now b \<longleftrightarrow> bucket_size b \<le> pcfg_burst config \<and> 0 \<le> bucket_time b \<and> bucket_time b \<le> now"

lemma policer_rate_nonzero: "policer_config_ok config \<Longrightarrow> pcfg_rate config \<noteq> 0"
  by (auto simp: policer_config_ok_def)

lemma time_difference:
  assumes "0 \<le> t0" "t0 \<le> t" "t < 2 ^ 63"
  shows "uint (word_of_int t - word_of_int t0 :: u64) = t - t0"
  unfolding of_int_diff [symmetric] uint_word_of_int using assms by simp

lemma policer_refill_spec:
  assumes config: "policer_config_ok config" and b: "bucket_ok config now b" "bucket_time b \<le> time"
    and t: "0 \<le> time" "time < 2 ^ 63"
  shows "\<exists>b'. policer_refill config b time = Some b' \<and> bucket_ok config time b' \<and> bucket_time b' = time \<and>
    uint (bucket_size b') * 1000000000
      < uint (bucket_size b) * 1000000000 + uint (pcfg_rate config) * (time - bucket_time b + 1)"
proof -
  let ?R = "uint (pcfg_rate config)" and ?B = "uint (pcfg_burst config)" and ?s = "uint (bucket_size b)"
  let ?d = "word_of_int time - word_of_int (bucket_time b) :: u64" and ?M = "VIGOR_TIME_SECONDS_MULTIPLIER"
  let ?q = "pcfg_burst config * ?M div pcfg_rate config"
  have R: "0 < ?R" "pcfg_rate config \<noteq> 0" and BM: "?B * 1000000000 < 2 ^ 64"
    using config by (auto simp: policer_config_ok_def)
  have B: "?s \<le> ?B" "0 \<le> bucket_time b" using b by (auto simp: bucket_ok_def word_le_def)
  have d: "uint ?d = time - bucket_time b" using time_difference [OF B(2) b(2) t(2)] .
  have M: "uint ?M = 1000000000" by (simp add: VIGOR_TIME_SECONDS_MULTIPLIER_def)
  have bm: "uint (pcfg_burst config * ?M) = ?B * 1000000000"
    using BM by (simp add: uint_word_ariths M)
  have q: "uint ?q = ?B * 1000000000 div ?R" by (simp add: uint_div bm)
  have st: "sint (word_of_int time :: u64) = time"
    using t by (simp add: sint_uint uint_word_of_int signed_take_bit_int_eq_self)
  show ?thesis
  proof (cases "?d < ?q")
    case True
    then have "uint ?d < ?B * 1000000000 div ?R" by (simp only: word_less_def q)
    then have "uint ?d * ?R \<le> (?B * 1000000000 div ?R) * ?R" using R(1) by simp
    also have "\<dots> \<le> ?B * 1000000000"
      using div_mult_mod_eq [of "?B * 1000000000" ?R] pos_mod_sign [OF R(1), of "?B * 1000000000"] by linarith
    finally have dr: "uint ?d * ?R \<le> ?B * 1000000000" .
    then have m: "uint (?d * pcfg_rate config) = uint ?d * ?R" using BM by (simp add: uint_word_ariths)
    let ?a = "(?d * pcfg_rate config) div ?M"
    have a: "uint ?a = uint ?d * ?R div 1000000000" by (simp add: uint_div m M)
    have a1: "uint ?a * 1000000000 \<le> uint ?d * ?R"
      unfolding a using div_mult_mod_eq [of "uint ?d * ?R" 1000000000] pos_mod_sign [of 1000000000 "uint ?d * ?R"]
      by linarith
    have "uint ?a \<le> ?B" using a1 dr by linarith
    then have s: "uint (bucket_size b + ?a) = ?s + uint ?a"
      using B(1) BM by (simp add: uint_word_ariths)
    have main: "(?s + uint ?a) * 1000000000 < ?s * 1000000000 + ?R * (time - bucket_time b + 1)"
      using a1 R(1) d by (simp add: algebra_simps)
    show ?thesis
    proof (cases "bucket_size b + ?a > pcfg_burst config")
      case gt: True
      then have "?B < ?s + uint ?a" by (simp add: word_less_def s)
      then have "?B * 1000000000 < (?s + uint ?a) * 1000000000" by (rule mult_strict_right_mono) simp
      from order.strict_trans [OF this main]
      have "?B * 1000000000 < ?s * 1000000000 + ?R * (time - bucket_time b + 1)" .
      then show ?thesis
        using True gt t B R(2) st by (simp add: policer_refill_def Let_def bucket_ok_def)
    next
      case False
      then show ?thesis
        using True t B R(2) st main s by (auto simp: policer_refill_def Let_def bucket_ok_def)
    qed
  next
    case False
    then have "?B * 1000000000 div ?R \<le> uint ?d" by (simp only: word_less_def q not_less)
    then have "(?B * 1000000000 div ?R) * ?R \<le> uint ?d * ?R" using R(1) by simp
    then have "?B * 1000000000 < uint ?d * ?R + ?R"
      using div_mult_mod_eq [of "?B * 1000000000" ?R] pos_mod_bound [OF R(1), of "?B * 1000000000"] by linarith
    moreover have "uint ?d * ?R + ?R = ?R * (time - bucket_time b + 1)"
      unfolding d by (simp add: algebra_simps)
    ultimately have "?B * 1000000000 < ?s * 1000000000 + ?R * (time - bucket_time b + 1)"
      using uint_ge_0 [of "bucket_size b"] by linarith
    then show ?thesis
      using False t B R(2) st by (simp add: policer_refill_def Let_def bucket_ok_def)
  qed
qed

lemma policer_take_spec:
  assumes "policer_take b sz = (fwd, b')"
  shows "bucket_time b' = bucket_time b"
    "uint (bucket_size b') = uint (bucket_size b) - (if fwd then uint sz else 0)"
    "bucket_ok config now b \<Longrightarrow> bucket_ok config now b'"
proof -
  have u: "uint (ucast sz :: u64) = uint sz"
    using uint_lt2p [of sz] by (simp add: unsigned_ucast_eq take_bit_int_eq_self)
  show t: "bucket_time b' = bucket_time b" using assms by (auto simp: policer_take_def split: if_splits)
  have "uint (bucket_size b - ucast sz) = uint (bucket_size b) - uint sz" if "ucast sz < bucket_size b"
    using that uint_sub_lem [of "ucast sz" "bucket_size b"] by (simp add: word_less_def u)
  then show s: "uint (bucket_size b') = uint (bucket_size b) - (if fwd then uint sz else 0)"
    using assms by (auto simp: policer_take_def split: if_splits)
  show "bucket_ok config now b'" if "bucket_ok config now b"
  proof -
    have "uint (bucket_size b') \<le> uint (bucket_size b)" using s uint_ge_0 [of sz] by (auto split: if_splits)
    then show ?thesis using that t by (auto simp: bucket_ok_def word_le_def)
  qed
qed

section \<open>The table of buckets\<close>

definition bucket_of :: "policer_state \<Rightarrow> int \<Rightarrow> Bucket" where
  "bucket_of st i = v_elems (pst_fv st) ! nat i"

definition policer_rep :: "policer_config \<Rightarrow> u32 flows \<Rightarrow> int \<Rightarrow> policer_state \<Rightarrow> bool" where
  "policer_rep config T now st \<longleftrightarrow>
     flow_rep T now (pst_fm st) (pst_fk st) (pst_heap st) \<and>
     vector_inv (pst_fv st) \<and> v_capacity (pst_fv st) = v_capacity (pst_fk st) \<and>
     (\<forall>(k, i, t)\<in>set T. bucket_ok config now (bucket_of st i))"

lemma policer_key_slot:
  assumes "vector_inv fk" "0 \<le> i" "i < v_capacity fk"
  shows "policer_key fk fv (At (vector_borrow fk i)) = v_elems fk ! nat i"
proof -
  have es: "0 < v_elem_size fk" using assms(1) by (simp add: vector_inv_def)
  have "0 \<le> i * v_elem_size fk" using assms(2) es by simp
  moreover have "i * v_elem_size fk < v_capacity fk * v_elem_size fk" using assms(3) es by simp
  ultimately show ?thesis
    using es by (simp add: policer_key_def vector_borrow_def vector_index_def mult.commute)
qed

lemma policer_key_Obj [simp]: "policer_key fk fv (Obj k) = k"
  by (simp add: policer_key_def)

lemma policer_lookup:
  assumes "policer_rep config T now st"
  shows "map_get (policer_key (pst_fk st) (pst_fv st)) (pst_fm st) (Obj dst) x
    = Some (case find_flow T dst of None \<Rightarrow> (0, x) | Some i \<Rightarrow> (1, i))"
proof -
  have rep: "flow_rep T now (pst_fm st) (pst_fk st) (pst_heap st)" using assms by (simp add: policer_rep_def)
  show ?thesis
    by (rule flow_get_via [OF rep]) (simp_all add: policer_key_slot [OF flow_vector(1) [OF rep]])
qed

lemma policer_bucket_access:
  assumes "policer_rep config T now st" "0 \<le> i" "i < v_capacity (pst_fk st)"
  shows "vector_load (pst_fv st) (vector_borrow (pst_fv st) i) = Some (bucket_of st i)"
    "vector_store (pst_fv st) (vector_borrow (pst_fv st) i) b
      = Some ((pst_fv st)\<lparr>v_elems := (v_elems (pst_fv st))[nat i := b]\<rparr>)"
  using assms by (simp_all add: policer_rep_def vector_inv_def bucket_of_def)

lemma policer_rep_bucket:
  assumes "policer_rep config T now st" "(k, i, t) \<in> set T"
  shows "0 \<le> i" "i < v_capacity (pst_fk st)" "nat i < length (v_elems (pst_fv st))" "bucket_ok config now (bucket_of st i)"
proof -
  have rep: "flow_rep T now (pst_fm st) (pst_fk st) (pst_heap st)" using assms by (simp add: policer_rep_def)
  show "0 \<le> i" "i < v_capacity (pst_fk st)" using flows_wfD [OF flow_rep_wf [OF rep] assms(2)] by auto
  then show "nat i < length (v_elems (pst_fv st))" using assms(1) by (auto simp: policer_rep_def vector_inv_def)
  show "bucket_ok config now (bucket_of st i)" using assms by (auto simp: policer_rep_def)
qed

lemma bucket_ok_later: "bucket_ok config now b \<Longrightarrow> now \<le> t \<Longrightarrow> bucket_ok config t b"
  by (simp add: bucket_ok_def)

lemma policer_check_known:
  assumes config: "policer_config_ok config" and rep: "policer_rep config T now st" and found: "find_flow T dst = Some i"
    and t: "now \<le> time" "0 \<le> time" "time < 2 ^ 63"
  shows "\<exists>b st'. policer_refill config (bucket_of st i) time = Some b \<and>
    policer_check_tb config st dst sz time = Some (fst (policer_take b sz), st') \<and>
    policer_rep config (touch_flow T i time) time st' \<and>
    bucket_of st' i = snd (policer_take b sz) \<and> (\<forall>j. 0 \<le> j \<longrightarrow> j \<noteq> i \<longrightarrow> bucket_of st' j = bucket_of st j)"
proof -
  have frep: "flow_rep T now (pst_fm st) (pst_fk st) (pst_heap st)" using rep by (simp add: policer_rep_def)
  obtain u where u: "(dst, i, u) \<in> set T" using found find_flow_Some [OF flow_rep_wf [OF frep]] by blast
  note i = policer_rep_bucket [OF rep u]
  have bt: "bucket_time (bucket_of st i) \<le> time" using i(4) t(1) by (simp add: bucket_ok_def)
  obtain b where b: "policer_refill config (bucket_of st i) time = Some b" "bucket_ok config time b"
    using policer_refill_spec [OF config i(4) bt t(2,3)] by blast
  obtain heap' where h: "dchain_rejuvenate_index (pst_heap st) i time = Some (1, heap')"
    "flow_rep (touch_flow T i time) time (pst_fm st) (pst_fk st) heap'"
    using flow_rejuvenate [OF frep u t(1)] by blast
  obtain fwd b' where tk: "policer_take b sz = (fwd, b')" by (cases "policer_take b sz")
  let ?fv = "(pst_fv st)\<lparr>v_elems := (v_elems (pst_fv st))[nat i := b']\<rparr>"
  let ?st = "st\<lparr>pst_heap := heap', pst_fv := ?fv\<rparr>"
  have run: "policer_check_tb config st dst sz time = Some (fwd, ?st)"
    using policer_lookup [OF rep, of dst "- 1"] found h(1) b(1) tk policer_bucket_access [OF rep i(1,2)]
    by (simp add: policer_check_tb_def Let_def vector_return_def)
  have at: "bucket_of ?st i = b'" using i(3) by (simp add: bucket_of_def)
  have other: "bucket_of ?st j = bucket_of st j" if "0 \<le> j" "j \<noteq> i" for j
    using that i(1) by (simp add: bucket_of_def nat_eq_iff)
  have "bucket_ok config time (bucket_of ?st j)" if "(k, j, s) \<in> set (touch_flow T i time)" for k j s
  proof (cases "j = i")
    case True
    then show ?thesis using at policer_take_spec(3) [OF tk b(2)] by simp
  next
    case False
    then have j: "(k, j, s) \<in> set T" using that by (simp add: touch_flow_member)
    from policer_rep_bucket(1,4) [OF rep j] show ?thesis
      using other False bucket_ok_later [OF _ t(1)] by simp
  qed
  then have "policer_rep config (touch_flow T i time) time ?st"
    using rep h(2) by (auto simp: policer_rep_def vector_inv_def)
  then show ?thesis using run b(1) tk at other by auto
qed

lemma bucket_overwritten: "b\<lparr>bucket_size := x, bucket_time := y\<rparr> = \<lparr>bucket_size = x, bucket_time = y\<rparr>"
  by (cases b) simp

lemma policer_check_new:
  assumes config: "policer_config_ok config" and rep: "policer_rep config T now st" and new: "find_flow T dst = None"
    and t: "now \<le> time" "0 \<le> time" and fits: "ucast sz \<le> pcfg_burst config"
    and space: "int (length T) < v_capacity (pst_fk st)"
  shows "\<exists>i st'. policer_check_tb config st dst sz time = Some (True, st') \<and>
    policer_rep config (add_flow T dst i time) time st' \<and> 0 \<le> i \<and> i < v_capacity (pst_fk st) \<and> (\<forall>k s. (k, i, s) \<notin> set T) \<and>
    bucket_of st' i = \<lparr>bucket_size = pcfg_burst config - ucast sz, bucket_time = time\<rparr> \<and>
    (\<forall>j. 0 \<le> j \<longrightarrow> j \<noteq> i \<longrightarrow> bucket_of st' j = bucket_of st j)"
proof -
  have frep: "flow_rep T now (pst_fm st) (pst_fk st) (pst_heap st)" using rep by (simp add: policer_rep_def)
  obtain heap' i fk' fm' where a: "dchain_allocate_new_index (pst_heap st) (- 1) time = Some (1, heap', i)"
    and i: "0 \<le> i" "i < v_capacity (pst_fk st)" "\<forall>k s. (k, i, s) \<notin> set T"
    and fk: "vector_store (pst_fk st) (vector_borrow (pst_fk st) i) dst = Some fk'"
      "fk' = (pst_fk st)\<lparr>v_elems := (v_elems (pst_fk st))[nat i := dst]\<rparr>"
    and fm: "map_put (key_at fk') (pst_fm st) (At (vector_borrow (pst_fk st) i)) i = Some fm'"
    and frep': "flow_rep (add_flow T dst i time) time fm' fk' heap'"
    using flow_allocate [OF frep space new t(1), of "- 1"] by blast
  let ?b = "\<lparr>bucket_size = pcfg_burst config - ucast sz, bucket_time = time\<rparr>"
  let ?fv = "(pst_fv st)\<lparr>v_elems := (v_elems (pst_fv st))[nat i := ?b]\<rparr>"
  let ?st = "st\<lparr>pst_heap := heap', pst_fm := fm', pst_fk := fk', pst_fv := ?fv\<rparr>"
  have fk_inv: "vector_inv fk'" "v_capacity fk' = v_capacity (pst_fk st)" "vector_borrow fk' i = vector_borrow (pst_fk st) i"
    using flow_vector(1) [OF frep'] fk(2) by simp_all
  have "policer_key fk' ?fv (At (vector_borrow (pst_fk st) i)) = key_at fk' (At (vector_borrow (pst_fk st) i))"
    using policer_key_slot [OF fk_inv(1) i(1), of ?fv] key_at_slot [OF fk_inv(1), of "\<lambda>k. k" i] i(2) fk_inv(2,3) by simp
  then have put: "map_put (policer_key fk' ?fv) (pst_fm st) (At (vector_borrow (pst_fk st) i)) i = Some fm'"
    using fm by (simp add: map_put_def)
  have nb: "\<not> pcfg_burst config < ucast sz" using fits by simp
  have run: "policer_check_tb config st dst sz time = Some (True, ?st)"
    using policer_lookup [OF rep, of dst "- 1"] new a fk(1) put nb policer_bucket_access [OF rep i(1,2)]
    by (simp add: policer_check_tb_def Let_def vector_return_def bucket_overwritten)
  have len: "nat i < length (v_elems (pst_fv st))" using rep i by (auto simp: policer_rep_def vector_inv_def)
  have at: "bucket_of ?st i = ?b" using len by (simp add: bucket_of_def)
  have other: "bucket_of ?st j = bucket_of st j" if "0 \<le> j" "j \<noteq> i" for j
    using that i(1) by (simp add: bucket_of_def nat_eq_iff)
  have "pcfg_burst config - ucast sz \<le> pcfg_burst config" using fits by (simp add: word_sub_le)
  then have okb: "bucket_ok config time ?b" using t(2) by (simp add: bucket_ok_def)
  have "bucket_ok config time (bucket_of ?st j)" if j: "(k, j, s) \<in> set T" for k j s
    using policer_rep_bucket(1,4) [OF rep j] other [of j] i(3) j bucket_ok_later [OF _ t(1)] by (cases "j = i") auto
  then have "policer_rep config (add_flow T dst i time) time ?st"
    using rep frep' at okb fk_inv(2) by (auto simp: policer_rep_def vector_inv_def add_flow_def)
  then show ?thesis using run i at other by blast
qed

lemma policer_check_refused:
  assumes rep: "policer_rep config T now st" and new: "find_flow T dst = None"
    and "pcfg_burst config < ucast sz \<or> int (length T) = v_capacity (pst_fk st)"
  shows "policer_check_tb config st dst sz time = Some (False, st)"
proof -
  have frep: "flow_rep T now (pst_fm st) (pst_fk st) (pst_heap st)" using rep by (simp add: policer_rep_def)
  show ?thesis
    using policer_lookup [OF rep, of dst "- 1"] new assms(3) flow_allocate_full [OF frep, of "- 1" time]
    by (auto simp: policer_check_tb_def Let_def)
qed

section \<open>Sequences of packets\<close>

text \<open>The bucket of a destination, if it has one.\<close>

definition bucket_for :: "policer_state \<Rightarrow> u32 flows \<Rightarrow> u32 \<Rightarrow> Bucket option" where
  "bucket_for st T d = map_option (bucket_of st) (find_flow T d)"

lemma find_flow_touch:
  assumes "flows_wf T cap now" "flows_wf (touch_flow T i t) cap' t"
  shows "find_flow (touch_flow T i t) d = find_flow T d"
proof -
  have "find_flow (touch_flow T i t) d = Some j \<longleftrightarrow> find_flow T d = Some j" for j
    unfolding find_flow_Some [OF assms(1)] find_flow_Some [OF assms(2)] by (auto simp: touch_flow_member)
  then show ?thesis by (metis not_Some_eq)
qed

lemma find_flow_add: "find_flow (add_flow T k i t) d = (case find_flow T d of Some j \<Rightarrow> Some j | None \<Rightarrow> if d = k then Some i else None)"
  by (induction T) (auto simp: find_flow_def add_flow_def)

lemma policer_step_known:
  assumes config: "policer_config_ok config" and rep: "policer_rep config T now st" and b: "bucket_for st T dst = Some b"
    and t: "now \<le> time" "0 \<le> time" "time < 2 ^ 63"
  shows "\<exists>fwd st' T' b'. policer_check_tb config st dst sz time = Some (fwd, st') \<and> policer_rep config T' time st' \<and>
    (\<forall>d. d \<noteq> dst \<longrightarrow> bucket_for st' T' d = bucket_for st T d) \<and> bucket_for st' T' dst = Some b' \<and> bucket_time b' = time \<and>
    uint (bucket_size b') + (if fwd then uint sz else 0) \<le> uint (pcfg_burst config) \<and>
    (uint (bucket_size b') + (if fwd then uint sz else 0)) * 1000000000
      \<le> uint (bucket_size b) * 1000000000 + uint (pcfg_rate config) * (time - bucket_time b + 1)"
proof -
  obtain i where i: "find_flow T dst = Some i" "b = bucket_of st i" using b by (auto simp: bucket_for_def)
  obtain b1 st' where r: "policer_refill config (bucket_of st i) time = Some b1"
    "policer_check_tb config st dst sz time = Some (fst (policer_take b1 sz), st')"
    "policer_rep config (touch_flow T i time) time st'" "bucket_of st' i = snd (policer_take b1 sz)"
    "\<forall>j. 0 \<le> j \<longrightarrow> j \<noteq> i \<longrightarrow> bucket_of st' j = bucket_of st j"
    using policer_check_known [OF config rep i(1) t] by blast
  obtain fwd b' where tk: "policer_take b1 sz = (fwd, b')" by (cases "policer_take b1 sz")
  have wf: "flows_wf T (v_capacity (pst_fk st)) now" "flows_wf (touch_flow T i time) (v_capacity (pst_fk st')) time"
    using rep r(3) flow_rep_wf by (auto simp: policer_rep_def)
  have ff: "find_flow (touch_flow T i time) d = find_flow T d" for d
    by (rule find_flow_touch [OF wf])
  have wi: "(dst, i, u) \<in> set T \<Longrightarrow> bucket_ok config now b \<and> bucket_time b \<le> time" for u
    using policer_rep_bucket(4) [OF rep] i(2) t(1) by (fastforce simp: bucket_ok_def)
  obtain u where u: "(dst, i, u) \<in> set T" using i(1) find_flow_Some [OF wf(1)] by blast
  note refill = policer_refill_spec [OF config wi [OF u, THEN conjunct1] wi [OF u, THEN conjunct2] t(2,3)]
  have b1: "bucket_ok config time b1" "bucket_time b1 = time"
    "uint (bucket_size b1) * 1000000000
      < uint (bucket_size b) * 1000000000 + uint (pcfg_rate config) * (time - bucket_time b + 1)"
    using refill r(1) i(2) by auto
  note take = policer_take_spec(1,2) [OF tk]
  have other: "bucket_for st' (touch_flow T i time) d = bucket_for st T d" if "d \<noteq> dst" for d
  proof (cases "find_flow T d")
    case (Some j)
    then obtain s where j: "(d, j, s) \<in> set T" using find_flow_Some [OF wf(1)] by blast
    then have "j \<noteq> i" using flows_wf_same_index [OF wf(1) _ u] that by blast
    then show ?thesis using Some r(5) policer_rep_bucket(1) [OF rep j] by (simp add: bucket_for_def ff)
  qed (simp add: bucket_for_def ff)
  have "bucket_for st' (touch_flow T i time) dst = Some b'" using r(4) tk by (simp add: bucket_for_def ff i(1))
  moreover have "uint (bucket_size b') + (if fwd then uint sz else 0) = uint (bucket_size b1)" using take by simp
  moreover have "uint (bucket_size b1) \<le> uint (pcfg_burst config)" using b1(1) by (simp add: bucket_ok_def word_le_def)
  ultimately show ?thesis
    using r(2,3) tk other take b1
    by (intro exI [of _ fwd] exI [of _ st'] exI [of _ "touch_flow T i time"] exI [of _ b']) simp
qed

lemma policer_step_unknown:
  assumes config: "policer_config_ok config" and rep: "policer_rep config T now st" and b: "bucket_for st T dst = None"
    and t: "now \<le> time" "0 \<le> time"
  shows "\<exists>fwd st' T'. policer_check_tb config st dst sz time = Some (fwd, st') \<and> policer_rep config T' time st' \<and>
    (\<forall>d. d \<noteq> dst \<longrightarrow> bucket_for st' T' d = bucket_for st T d) \<and>
    (if fwd then uint sz \<le> uint (pcfg_burst config) \<and>
       (\<exists>b'. bucket_for st' T' dst = Some b' \<and> bucket_time b' = time \<and>
         uint (bucket_size b') = uint (pcfg_burst config) - uint sz)
     else bucket_for st' T' dst = None)"
proof -
  have new: "find_flow T dst = None" using b by (simp add: bucket_for_def)
  have frep: "flow_rep T now (pst_fm st) (pst_fk st) (pst_heap st)" using rep by (simp add: policer_rep_def)
  have u: "uint (ucast sz :: u64) = uint sz"
    using uint_lt2p [of sz] by (simp add: unsigned_ucast_eq take_bit_int_eq_self)
  show ?thesis
  proof (cases "pcfg_burst config < ucast sz \<or> int (length T) = v_capacity (pst_fk st)")
    case True
    have "policer_rep config T time st"
      using rep flow_rep_later [OF frep t(1)] t(1) by (auto simp: policer_rep_def intro: bucket_ok_later)
    then show ?thesis using policer_check_refused [OF rep new True] b by fastforce
  next
    case False
    then have fits: "ucast sz \<le> pcfg_burst config" and space: "int (length T) < v_capacity (pst_fk st)"
      using flow_length [OF frep] by auto
    obtain i st' where r: "policer_check_tb config st dst sz time = Some (True, st')"
      "policer_rep config (add_flow T dst i time) time st'"
      "bucket_of st' i = \<lparr>bucket_size = pcfg_burst config - ucast sz, bucket_time = time\<rparr>"
      "\<forall>k s. (k, i, s) \<notin> set T" "\<forall>j. 0 \<le> j \<longrightarrow> j \<noteq> i \<longrightarrow> bucket_of st' j = bucket_of st j"
      using policer_check_new [OF config rep new t fits space] by blast
    have other: "bucket_for st' (add_flow T dst i time) d = bucket_for st T d" if "d \<noteq> dst" for d
    proof (cases "find_flow T d")
      case (Some j)
      then obtain s where j: "(d, j, s) \<in> set T" using find_flow_Some [OF flow_rep_wf [OF frep]] by blast
      then have "j \<noteq> i" using r(4) by blast
      then show ?thesis using Some r(5) policer_rep_bucket(1) [OF rep j] by (simp add: bucket_for_def find_flow_add)
    qed (use that in \<open>simp add: bucket_for_def find_flow_add\<close>)
    have "uint (pcfg_burst config - ucast sz) = uint (pcfg_burst config) - uint sz"
      using fits uint_sub_lem [of "ucast sz" "pcfg_burst config"] by (simp add: word_le_def u)
    moreover have "bucket_for st' (add_flow T dst i time) dst = Some (bucket_of st' i)"
      using new by (simp add: bucket_for_def find_flow_add)
    moreover have "uint sz \<le> uint (pcfg_burst config)" using fits by (simp add: word_le_def u)
    ultimately show ?thesis
      using r(1,2,3) other
      by (intro exI [of _ True] exI [of _ st'] exI [of _ "add_flow T dst i time"]) simp
  qed
qed

text \<open>Calls with destination, size and time; the answers say which packets are let through.\<close>

fun policer_calls ::
  "policer_config \<Rightarrow> policer_state \<Rightarrow> (u32 \<times> u16 \<times> int) list \<Rightarrow> (bool list \<times> policer_state) option" where
  "policer_calls config st [] = Some ([], st)"
| "policer_calls config st ((dst, sz, time) # cs) = do {
     (fwd, st) \<leftarrow> policer_check_tb config st dst sz time;
     (res, st) \<leftarrow> policer_calls config st cs;
     Some (fwd # res, st)
   }"

fun bytes_to :: "u32 \<Rightarrow> (u32 \<times> u16 \<times> int) list \<Rightarrow> bool list \<Rightarrow> int" where
  "bytes_to d ((dst, sz, time) # cs) (fwd # res) = (if dst = d \<and> fwd then uint sz else 0) + bytes_to d cs res"
| "bytes_to d _ _ = 0"

definition packets_to :: "u32 \<Rightarrow> (u32 \<times> u16 \<times> int) list \<Rightarrow> int" where
  "packets_to d cs = int (length (filter (\<lambda>(dst, _). dst = d) cs))"

definition in_time_order :: "int \<Rightarrow> int \<Rightarrow> (u32 \<times> u16 \<times> int) list \<Rightarrow> bool" where
  "in_time_order lo hi cs \<longleftrightarrow>
     sorted (map (snd \<circ> snd) cs) \<and> (\<forall>(_, _, t)\<in>set cs. lo \<le> t \<and> t \<le> hi) \<and> lo \<le> hi"

lemma in_time_order_Cons:
  "in_time_order lo hi ((d, sz, t) # cs) \<Longrightarrow> lo \<le> t \<and> t \<le> hi \<and> in_time_order t hi cs"
  by (auto simp: in_time_order_def)

lemma packets_to_Cons: "packets_to d ((dst, sz, t) # cs) = (if dst = d then packets_to d cs + 1 else packets_to d cs)"
  by (simp add: packets_to_def)

lemma policer_calls_bound:
  assumes "policer_config_ok config" "policer_rep config T now st" "in_time_order now hi cs" "0 \<le> now" "hi < 2 ^ 63"
  shows "\<exists>res st'. policer_calls config st cs = Some (res, st') \<and> length res = length cs \<and>
    bytes_to d cs res * 1000000000
      \<le> uint (pcfg_burst config) * 1000000000 + uint (pcfg_rate config) * (hi - now + packets_to d cs) \<and>
    (\<forall>b. bucket_for st T d = Some b \<longrightarrow> bytes_to d cs res * 1000000000
      \<le> uint (bucket_size b) * 1000000000 + uint (pcfg_rate config) * (hi - bucket_time b + packets_to d cs))"
  using assms(2,3,4)
proof (induction cs arbitrary: T now st)
  case Nil
  have now: "now \<le> hi" using Nil(2) by (simp add: in_time_order_def)
  have "bucket_time b \<le> hi" if b: "bucket_for st T d = Some b" for b
  proof -
    have frep: "flow_rep T now (pst_fm st) (pst_fk st) (pst_heap st)" using Nil(1) by (simp add: policer_rep_def)
    obtain i where i: "find_flow T d = Some i" "b = bucket_of st i" using b by (auto simp: bucket_for_def)
    then obtain u where "(d, i, u) \<in> set T" using find_flow_Some [OF flow_rep_wf [OF frep]] by blast
    then show ?thesis using policer_rep_bucket(4) [OF Nil(1)] i(2) now by (fastforce simp: bucket_ok_def)
  qed
  then show ?case using now by (simp add: packets_to_def)
next
  case (Cons c cs)
  obtain dst sz t where c [simp]: "c = (dst, sz, t)" by (cases c)
  let ?R = "uint (pcfg_rate config)" and ?B = "uint (pcfg_burst config)" and ?n = "packets_to d cs"
  have R: "0 \<le> ?R" by simp
  have t: "now \<le> t" "t \<le> hi" "in_time_order t hi cs" "0 \<le> t" "t < 2 ^ 63"
    using in_time_order_Cons [OF Cons.prems(2) [unfolded c]] Cons.prems(3) assms(5) by auto
  have later: "?R * (hi - t + ?n) \<le> ?R * (hi - now + ?n)" "?R * (hi - t + ?n) \<le> ?R * (hi - now + (?n + 1))"
    using t(1) by (auto intro: mult_left_mono)
  show ?case
  proof (cases "bucket_for st T dst")
    case (Some b)
    obtain fwd st1 T1 b1 where s: "policer_check_tb config st dst sz t = Some (fwd, st1)" "policer_rep config T1 t st1"
      "\<forall>d. d \<noteq> dst \<longrightarrow> bucket_for st1 T1 d = bucket_for st T d" "bucket_for st1 T1 dst = Some b1" "bucket_time b1 = t"
      "uint (bucket_size b1) + (if fwd then uint sz else 0) \<le> ?B"
      "(uint (bucket_size b1) + (if fwd then uint sz else 0)) * 1000000000
        \<le> uint (bucket_size b) * 1000000000 + ?R * (t - bucket_time b + 1)"
      using policer_step_known [OF assms(1) Cons.prems(1) Some t(1,4,5)] by blast
    obtain res st2 where r: "policer_calls config st1 cs = Some (res, st2)" "length res = length cs"
      "bytes_to d cs res * 1000000000 \<le> ?B * 1000000000 + ?R * (hi - t + ?n)"
      "\<And>b. bucket_for st1 T1 d = Some b \<Longrightarrow> bytes_to d cs res * 1000000000
        \<le> uint (bucket_size b) * 1000000000 + ?R * (hi - bucket_time b + ?n)"
      using Cons.IH [OF s(2) t(3,4)] by blast
    show ?thesis
    proof (cases "dst = d")
      case True
      then have "bytes_to d cs res * 1000000000 \<le> uint (bucket_size b1) * 1000000000 + ?R * (hi - t + ?n)"
        using r(4) [of b1] s(4,5) by simp
      moreover have "?R * (hi - t + ?n) + ?R * (t - bucket_time b + 1) = ?R * (hi - bucket_time b + (?n + 1))"
        by (simp add: algebra_simps)
      moreover have "(uint (bucket_size b1) + (if fwd then uint sz else 0)) * 1000000000 \<le> ?B * 1000000000"
        using s(6) by simp
      ultimately show ?thesis
        using r(1,2) s(1,7) later(2) True Some by (auto simp: packets_to_Cons distrib_right)
    next
      case False
      then show ?thesis using r s(1,3) later(1) by (auto simp: packets_to_Cons)
    qed
  next
    case None
    obtain fwd st1 T1 where s: "policer_check_tb config st dst sz t = Some (fwd, st1)" "policer_rep config T1 t st1"
      "\<forall>d. d \<noteq> dst \<longrightarrow> bucket_for st1 T1 d = bucket_for st T d"
      "if fwd then uint sz \<le> ?B \<and> (\<exists>b'. bucket_for st1 T1 dst = Some b' \<and> bucket_time b' = t \<and> uint (bucket_size b') = ?B - uint sz)
       else bucket_for st1 T1 dst = None"
      using policer_step_unknown [OF assms(1) Cons.prems(1) None t(1,4)] by blast
    obtain res st2 where r: "policer_calls config st1 cs = Some (res, st2)" "length res = length cs"
      "bytes_to d cs res * 1000000000 \<le> ?B * 1000000000 + ?R * (hi - t + ?n)"
      "\<And>b. bucket_for st1 T1 d = Some b \<Longrightarrow> bytes_to d cs res * 1000000000
        \<le> uint (bucket_size b) * 1000000000 + ?R * (hi - bucket_time b + ?n)"
      using Cons.IH [OF s(2) t(3,4)] by blast
    show ?thesis
    proof (cases "dst = d \<and> fwd")
      case True
      then obtain b1 where "bucket_for st1 T1 d = Some b1" "bucket_time b1 = t" "uint (bucket_size b1) = ?B - uint sz"
        using s(4) by auto
      then have "bytes_to d cs res * 1000000000 \<le> (?B - uint sz) * 1000000000 + ?R * (hi - t + ?n)"
        using r(4) by force
      then show ?thesis
        using r(1,2) s(1) later(2) True None by (auto simp: packets_to_Cons distrib_right left_diff_distrib)
    next
      case False
      then show ?thesis using r s(1,3) later None by (cases "dst = d") (auto simp: packets_to_Cons)
    qed
  qed
qed

section \<open>Initialisation\<close>

lemma policer_core_init_correct:
  assumes "heap_ok h" "capacity_ok n" "sizeof_Bucket * int n < 2 ^ 32" "uint (pcfg_dyn_capacity config) = int n"
    "policer_core_init mem buckets None config h = Some (Some st, h')"
  shows "policer_rep config [] 0 st \<and> v_capacity (pst_fk st) = int n"
proof -
  have n: "n < 2 ^ 31" "0 < n" using assms(2,3) by (auto simp: sizeof_Bucket_def capacity_ok_def)
  have cap: "sint (pcfg_dyn_capacity config) = int n"
    using assms(4) n by (simp add: sint_uint signed_take_bit_int_eq_self)
  obtain al where alloc: "policer_alloc_state mem buckets None (int n) h = Some (Some st, al, h')"
    using assms(5) cap by (auto simp: policer_core_init_def bind_eq_Some_conv)
  then obtain b h1 where h1: "malloc h = (Some b, h1)"
    by (auto simp: policer_alloc_state_def split: prod.splits option.splits)
  then have ok1: "heap_ok h1" using malloc_Some(3) [OF _ assms(1)] by blast
  have eq: "\<And>a b. policer_flow_eq a b \<longleftrightarrow> a = b" by (simp add: policer_flow_eq_def)
  obtain r2 fm h2 where h2: "map_allocate policer_flow_eq policer_flow_hash (int n) None (u_ints mem) (u_ptrs mem) h1
      = Some (r2, fm, h2)" "r2 \<noteq> 0"
    using alloc h1 by (auto simp: policer_alloc_state_def bind_eq_Some_conv split: if_splits)
  note m = map_allocate_success [OF ok1 assms(2) eq h2]
  then have ok2: "heap_ok h2" by blast
  obtain m' where m': "fm = Some m'" using m by blast
  obtain r3 fk h3 where h3: "vector_allocate sizeof_Bucket (int n) policer_flow_allocate None (u_addr mem) (u_elems mem) h2
      = Some (r3, fk, h3)" "r3 \<noteq> 0"
    using alloc h1 h2 by (auto simp: policer_alloc_state_def bind_eq_Some_conv split: if_splits)
  obtain k where k: "fk = Some k" "heap_ok h3" "vector_inv k" "v_capacity k = int n"
    using vector_allocate_success [OF ok2 _ assms(3) h3] by (auto simp: sizeof_Bucket_def)
  obtain r4 fv h4 where h4: "vector_allocate sizeof_Bucket (int n) policer_flow_allocate None (u_addr mem) buckets h3
      = Some (r4, fv, h4)" "r4 \<noteq> 0"
    using alloc h1 h2 h3 by (auto simp: policer_alloc_state_def bind_eq_Some_conv split: if_splits)
  obtain v where v: "fv = Some v" "heap_ok h4" "vector_inv v" "v_capacity v = int n"
    using vector_allocate_success [OF k(2) _ assms(3) h4] by (auto simp: sizeof_Bucket_def)
  obtain r5 heap h5 where h5: "dchain_allocate (int n) None (u_cells mem) (u_times mem) h4 = Some (r5, heap, h5)" "r5 \<noteq> 0"
    using alloc h1 h2 h3 h4 by (auto simp: policer_alloc_state_def bind_eq_Some_conv split: if_splits)
  obtain c where c: "heap = Some c" "double_chainp (empty_dchain_fp (int n) 0) c"
    using dchain_allocate_success [OF v(2) n(2) h5] by blast
  have "map_inv (key_at k) m'" "map_abs (key_at k) m' = Map.empty" "map_cap m' = n" using m m' by auto
  then have "flow_rep [] 0 m' k c" by (intro flow_rep_empty [of _ k m' n]) (use k c in auto)
  moreover have "st = \<lparr>pst_fm = m', pst_fk = k, pst_fv = v, pst_heap = c, pst_max_flows = int n\<rparr>"
    using alloc h1 h2 h3 h4 h5 m' k(1) v(1) c(1)
    by (simp add: policer_alloc_state_def Let_def)
  ultimately show ?thesis using k(4) v(3,4) by (simp add: policer_rep_def)
qed

section \<open>Expiry\<close>

definition expiry_bound :: "policer_config \<Rightarrow> int \<Rightarrow> int" where
  "expiry_bound config time = time - uint (pcfg_burst config) div uint (pcfg_rate config)"

lemma expiry_bound_word:
  assumes "policer_config_ok config" "0 \<le> time" "time < 2 ^ 63"
  shows "sint ((word_of_int time :: u64) - pcfg_burst config div pcfg_rate config) = expiry_bound config time"
proof -
  let ?q = "pcfg_burst config div pcfg_rate config"
  have "uint ?q = uint (pcfg_burst config) div uint (pcfg_rate config)" by (rule uint_div)
  moreover have "unat ?q \<le> unat (pcfg_burst config)" by (simp add: unat_div)
  then have "uint ?q \<le> uint (pcfg_burst config)" by (simp only: word_le_nat_alt [symmetric] word_le_def)
  ultimately have q: "uint ?q < 2 ^ 63" "expiry_bound config time = time - uint ?q"
    using assms(1) by (simp_all add: policer_config_ok_def expiry_bound_def)
  have q0: "0 \<le> uint ?q" by (rule uint_ge_0)
  have "(word_of_int time :: u64) - ?q = word_of_int (time - uint ?q)" by simp
  then have "sint ((word_of_int time :: u64) - ?q) = signed_take_bit 63 (time - uint ?q)"
    by (simp only: sint_sbintrunc') simp
  also have "\<dots> = time - uint ?q"
    by (rule signed_take_bit_int_eq_self) (use q(1) q0 assms(2,3) in linarith)+
  finally show ?thesis using q(2) by simp
qed

lemma policer_expire_nothing:
  assumes config: "policer_config_ok config" and rep: "policer_rep config T now st" and t: "0 \<le> time" "time < 2 ^ 63"
    and young: "\<forall>(k, i, s)\<in>set T. expiry_bound config time \<le> s"
  shows "policer_expire_entries config st time = Some (0, st)"
proof -
  obtain ch where ch: "double_chainp ch (pst_heap st)" "T = flows_of (\<lambda>k. k) (pst_fk st) ch"
    using rep by (auto simp: policer_rep_def flow_rep_via_def)
  have "\<forall>(i, s)\<in>set (dchain_alist_fp ch). expiry_bound config time \<le> s"
    using young by (force simp: ch(2) flows_of_def)
  then have "dchain_get_expired_indexes_fp ch (expiry_bound config time) = []"
    by (auto simp: dchain_get_expired_indexes_fp_def get_expired_indexes_fp_def is_cell_expired_def filter_empty_conv)
  from dc.expire_one_nothing [OF ch(1) this] obtain i where
    "dchain_expire_one_index (pst_heap st) (- 1) (expiry_bound config time) = Some (0, pst_heap st, i)" by blast
  then have "expire_items_single_map d (pst_heap st) v m (expiry_bound config time) = Some (0, pst_heap st, v, m)"
    for d and v :: "Bucket vector" and m :: "(u32 keyptr, u32) cmap"
    unfolding expire_items_single_map_def by (subst expire_items_single_map_loop.simps) simp
  then show ?thesis
    using policer_rate_nonzero [OF config] t expiry_bound_word [OF config t]
    by (simp add: policer_expire_entries_def Let_def)
qed

text \<open>
  When one flow has become too old, and the low half of its bucket size is not by chance a
  destination in the table, the expiry frees its index and leaves its entry in the map.
\<close>

definition separate :: "'a vector \<Rightarrow> 'b vector \<Rightarrow> bool" where
  "separate v w \<longleftrightarrow>
     v_data v + v_elem_size v * v_capacity v \<le> v_data w \<or> v_data w + v_elem_size w * v_capacity w \<le> v_data v"

lemma policer_key_bucket:
  assumes "vector_inv fk" "vector_inv fv" "separate fk fv" "0 \<le> i" "i < v_capacity fv"
  shows "policer_key fk fv (At (vector_borrow fv i)) = ucast (bucket_size (v_elems fv ! nat i))"
proof -
  have es: "0 < v_elem_size fv" using assms(2) by (simp add: vector_inv_def)
  have "0 \<le> i * v_elem_size fv" using assms(4) es by simp
  moreover have "i * v_elem_size fv < v_capacity fv * v_elem_size fv" using assms(5) es by simp
  ultimately have "\<not> (v_data fk \<le> vector_borrow fv i \<and> vector_borrow fv i < v_data fk + v_elem_size fk * v_capacity fk)"
    using assms(3) by (auto simp: separate_def vector_borrow_def mult.commute)
  then show ?thesis using es by (auto simp: policer_key_def)
qed

lemma policer_expire_stale:
  assumes config: "policer_config_ok config" and rep: "policer_rep config ((k, i, s) # T) now st"
    and vectors: "separate (pst_fk st) (pst_fv st)" and t: "0 \<le> time" "time < 2 ^ 63"
    and old: "s < expiry_bound config time" and young: "\<forall>(k, i, s)\<in>set T. expiry_bound config time \<le> s"
    and absent: "ucast (bucket_size (bucket_of st i)) \<notin> fst ` set ((k, i, s) # T)"
  shows "\<exists>st'. policer_expire_entries config st time = Some (1, st') \<and>
    map_entries (pst_fm st') = map_entries (pst_fm st) \<and> pst_fk st' = pst_fk st \<and>
    (At (vector_borrow (pst_fk st) i), i) \<in> map_entries (pst_fm st) \<and>
    dchain_is_index_allocated (pst_heap st') i = Some False"
proof -
  let ?d = "policer_key (pst_fk st) (pst_fv st)" and ?b = "expiry_bound config time"
  have frep: "flow_rep ((k, i, s) # T) now (pst_fm st) (pst_fk st) (pst_heap st)" using rep by (simp add: policer_rep_def)
  note i = policer_rep_bucket(1,2) [OF rep, of k i s, simplified]
  obtain ch where ch: "double_chainp ch (pst_heap st)" "map_vec_chain_coherent (\<lambda>k. k) (pst_fm st) (pst_fk st) ch"
    "(k, i, s) # T = flows_of (\<lambda>k. k) (pst_fk st) ch"
    using frep by (auto simp: flow_rep_via_def)
  note co = mvc_coherentD(1-3) [OF ch(2)]
  have mem: "i \<in> set (dchain_indexes_fp ch)"
    using ch(3) flows_of_indexes [of "\<lambda>k. k" "pst_fk st" ch] by (metis comp_apply fst_conv list.set_intros(1) list.simps(9) snd_conv)
  obtain al where al: "dchain_alist_fp ch = (i, s) # al" "T = map (\<lambda>(i, t). (v_elems (pst_fk st) ! nat i, i, t)) al"
    using ch(3) by (cases "dchain_alist_fp ch") (auto simp: flows_of_def)
  have "\<forall>(j, u)\<in>set al. ?b \<le> u" using young by (force simp: al(2))
  then have "filter (is_cell_expired ?b) al = []" by (auto simp: filter_empty_conv is_cell_expired_def)
  then have e: "dchain_get_expired_indexes_fp ch ?b = [i]"
    using old by (simp add: dchain_get_expired_indexes_fp_def get_expired_indexes_fp_def al(1) is_cell_expired_def)
  obtain c1 where c1: "dchain_expire_one_index (pst_heap st) (- 1) ?b = Some (1, c1, i)"
    "double_chainp (dchain_remove_index_fp ch i) c1"
    "dchain_get_expired_indexes_fp (dchain_remove_index_fp ch i) ?b = []"
    using dc.expire_one_something [OF ch(1) e] by blast
  obtain i2 where c2: "dchain_expire_one_index c1 i ?b = Some (0, c1, i2)"
    using dc.expire_one_nothing [OF c1(2,3)] by blast
  have entries: "map_entries (pst_fm st) = slot (pst_fk st) ` set (dchain_indexes_fp ch)"
    using ch(2) by (simp add: map_vec_chain_coherent_def coherent_over_def)
  have agree: "?d q = key_at (pst_fk st) q" if "(q, j) \<in> map_entries (pst_fm st)" for q j
    using that dc.rep_range [OF ch(1), of j] co policer_key_slot [OF co(2), of j "pst_fv st"]
    unfolding entries by (simp add: key_at_slot)
  have inv: "map_inv ?d (pst_fm st)" by (rule hm.inv_frame [OF co(1) agree])
  let ?p = "At (vector_borrow (pst_fv st) i)"
  have p: "?d ?p = ucast (bucket_size (bucket_of st i))"
    using policer_key_bucket [OF co(2) _ vectors i(1)] i(2) rep by (simp add: bucket_of_def policer_rep_def)
  have "map_abs ?d (pst_fm st) (?d ?p) = None"
  proof (rule ccontr)
    assume "map_abs ?d (pst_fm st) (?d ?p) \<noteq> None"
    then obtain j q where q: "(q, j) \<in> map_entries (pst_fm st)" "?d q = ?d ?p"
      using hm.lookup_Some [OF inv] by blast
    then have "key_at (pst_fk st) q = ucast (bucket_size (bucket_of st i))" using agree [OF q(1)] p by simp
    moreover have "key_at (pst_fk st) q \<in> fst ` set ((k, i, s) # T)"
    proof -
      have "q = At (vector_borrow (pst_fk st) j)" "j \<in> set (dchain_indexes_fp ch)" using q(1) unfolding entries by auto
      moreover from this(2) obtain u where "(v_elems (pst_fk st) ! nat j, j, u) \<in> set (flows_of (\<lambda>k. k) (pst_fk st) ch)"
        by (auto simp: index_member flows_of_member)
      ultimately show ?thesis unfolding ch(3) key_at_slot [OF co(2)] by (metis fst_conv image_eqI key_at_slot [OF co(2)])
    qed
    ultimately show False using absent by simp
  qed
  then obtain m' where m': "map_erase ?d (pst_fm st) ?p ?p = Some (m', ?p)" "map_entries m' = map_entries (pst_fm st)"
    using map_erase_absent [OF inv] by blast
  have "expire_items_single_map ?d (pst_heap st) (pst_fv st) (pst_fm st) ?b = Some (1, c1, pst_fv st, m')"
    unfolding expire_items_single_map_def
    by (subst expire_items_single_map_loop.simps, simp add: c1(1) m'(1) vector_return_def,
        subst expire_items_single_map_loop.simps, simp add: c2)
  then have "policer_expire_entries config st time = Some (1, st\<lparr>pst_heap := c1, pst_fm := m'\<rparr>)"
    using policer_rate_nonzero [OF config] t expiry_bound_word [OF config t] by (simp add: policer_expire_entries_def Let_def)
  moreover have "dchain_is_index_allocated c1 i = Some False"
    using dc.is_allocated [OF c1(2) i(1)] i(2) co(3) dc.rep_distinct [OF ch(1)] by simp
  ultimately show ?thesis using m'(2) entries mem by auto
qed

section \<open>Example state\<close>

definition example_policer_config :: policer_config where
  "example_policer_config = \<lparr>pcfg_lan_device = 1, pcfg_wan_device = 0, pcfg_rate = 1000000, pcfg_burst = 100000,
     pcfg_dyn_capacity = 2\<rparr>"

definition example_policer_memory :: "u32 uninit" where
  "example_policer_memory = \<lparr>u_ints = \<lambda>_ _. 0, u_ptrs = \<lambda>_ _. At 0, u_cells = \<lambda>_ _. \<lparr>cell_prev = 0, cell_next = 0\<rparr>,
     u_times = \<lambda>_ _. 0, u_addr = \<lambda>b. 4096 * int b, u_elems = \<lambda>_ _. 0\<rparr>"

definition example_bucket :: Bucket where
  "example_bucket = \<lparr>bucket_size = 99900, bucket_time = 5\<rparr>"

lemma example_policer_config_ok: "policer_config_ok example_policer_config"
  by (simp add: policer_config_ok_def example_policer_config_def)

lemma example_policer_init:
  obtains st h' where "policer_core_init example_policer_memory (\<lambda>_ _. example_bucket) None example_policer_config
    \<lparr>outcomes = replicate 14 True, live = [], fresh = 0\<rparr> = Some (Some st, h')"
proof -
  let ?mem = example_policer_memory and ?h = "\<lparr>outcomes = replicate 14 True, live = [], fresh = 0\<rparr> :: heap"
  have es: "sizeof_Bucket * int 2 < 2 ^ 32" "0 < sizeof_Bucket" by (simp_all add: sizeof_Bucket_def)
  obtain h1 where h1: "malloc ?h = (Some 0, h1)" "outcomes h1 = replicate 6 True @ replicate 7 True"
    by (simp add: malloc_def numeral_eq_Suc)
  obtain m h2 where h2: "map_allocate policer_flow_eq policer_flow_hash (int 2) None (u_ints ?mem) (u_ptrs ?mem) h1
      = Some (1, Some m, h2)" "outcomes h2 = True # True # replicate 5 True"
    using map_allocate_plenty [OF h1(2)] by (fastforce simp: numeral_eq_Suc)
  obtain k h3 where h3: "vector_allocate sizeof_Bucket (int 2) policer_flow_allocate None (u_addr ?mem) (u_elems ?mem) h2
      = Some (1, Some k, h3)" "outcomes h3 = True # True # replicate 3 True"
    using vector_allocate_plenty [OF h2(2) es(2,1)] by (fastforce simp: numeral_eq_Suc)
  obtain v h4 where h4: "vector_allocate sizeof_Bucket (int 2) policer_flow_allocate None (u_addr ?mem) (\<lambda>_ _. example_bucket) h3
      = Some (1, Some v, h4)" "outcomes h4 = True # True # True # []"
    using vector_allocate_plenty [OF h3(2) es(2,1)] by (fastforce simp: numeral_eq_Suc)
  obtain c h5 where h5: "dchain_allocate (int 2) None (u_cells ?mem) (u_times ?mem) h4 = Some (1, Some c, h5)"
    using dchain_allocate_plenty [OF h4(2), of 2] by fastforce
  have "\<exists>st h'. policer_core_init ?mem (\<lambda>_ _. example_bucket) None example_policer_config ?h = Some (Some st, h')"
    using h1(1) h2(1) h3(1) h4(1) h5
    by (simp add: policer_core_init_def policer_alloc_state_def example_policer_config_def Let_def)
  then show thesis using that by blast
qed

lemma example_policed:
  obtains st i where "policer_rep example_policer_config [(9, i, 5)] 5 st" "separate (pst_fk st) (pst_fv st)"
    "bucket_of st i = example_bucket"
proof -
  obtain m v c i where r: "flow_rep [(9 :: u32, i, 5)] 5 m v c" "v_capacity v = 2" "0 \<le> i" "i < 2"
    by (rule one_flow_rep [of 5 9]) auto
  let ?st = "\<lparr>pst_fm = m, pst_fk = v,
    pst_fv = \<lparr>v_data = v_data v + v_elem_size v * 2, v_elem_size = 16, v_capacity = 2, v_elems = [example_bucket, example_bucket]\<rparr>,
    pst_heap = c, pst_max_flows = 2\<rparr>"
  have b: "bucket_of ?st i = example_bucket" using r(3,4) by (cases "i = 0") (auto simp: bucket_of_def nth_Cons')
  have "policer_rep example_policer_config [(9, i, 5)] 5 ?st"
    using r b by (simp add: policer_rep_def vector_inv_def bucket_ok_def example_bucket_def example_policer_config_def)
  then show thesis using that b r(2) by (simp add: separate_def)
qed

section \<open>Properties\<close>



text \<open>
  C36. The expiry works on the vector of buckets where the expirator needs the vector of keys: when
  the oldest destination has become too old, its index is freed but its entry stays in the map (unless
  the low half of its bucket size happens to be a destination in the table), so that no table is
  represented any more.
\<close>

theorem policer_expiry_leaves_stale_entry:
  assumes "policer_config_ok config" "policer_rep config ((k, i, s) # T) now st"
    "separate (pst_fk st) (pst_fv st)" "0 \<le> time" "time < 2 ^ 63"
    "s < expiry_bound config time" "\<forall>(k, i, s)\<in>set T. expiry_bound config time \<le> s"
    "ucast (bucket_size (bucket_of st i)) \<notin> fst ` set ((k, i, s) # T)"
  shows "\<exists>st'. policer_expire_entries config st time = Some (1, st') \<and>
    (At (vector_borrow (pst_fk st') i), i) \<in> map_entries (pst_fm st') \<and>
    dchain_is_index_allocated (pst_heap st') i = Some False \<and> (\<forall>T' t'. \<not> policer_rep config T' t' st')"
proof -
  obtain st' where st': "policer_expire_entries config st time = Some (1, st')"
    "map_entries (pst_fm st') = map_entries (pst_fm st)" "pst_fk st' = pst_fk st"
    "(At (vector_borrow (pst_fk st) i), i) \<in> map_entries (pst_fm st)"
    "dchain_is_index_allocated (pst_heap st') i = Some False"
    using policer_expire_stale [OF assms] by blast
  have "\<not> policer_rep config T' t' st'" for T' t'
  proof
    assume "policer_rep config T' t' st'"
    then obtain ch where ch: "double_chainp ch (pst_heap st')" "map_vec_chain_coherent (\<lambda>k. k) (pst_fm st') (pst_fk st') ch"
      by (auto simp: policer_rep_def flow_rep_via_def)
    then have "i \<in> set (dchain_indexes_fp ch)"
      using st'(2,4) by (simp add: map_vec_chain_coherent_def coherent_over_def)
    then show False using dc.is_allocated [OF ch(1), of i] dc.rep_range [OF ch(1)] st'(5) by auto
  qed
  then show ?thesis using st' by auto
qed

theorem policer_expiry_leaves_stale_entry_witness:
  "\<exists>st i st'. policer_rep example_policer_config [(9, i, 5)] 5 st \<and>
    policer_expire_entries example_policer_config st 7 = Some (1, st') \<and>
    dchain_is_index_allocated (pst_heap st') i = Some False \<and> (\<forall>T' t'. \<not> policer_rep example_policer_config T' t' st')"
proof -
  obtain st i where st: "policer_rep example_policer_config [(9, i, 5)] 5 st" "separate (pst_fk st) (pst_fv st)"
    "bucket_of st i = example_bucket"
    by (rule example_policed)
  have "5 < expiry_bound example_policer_config 7" by (simp add: expiry_bound_def example_policer_config_def)
  with policer_expiry_leaves_stale_entry [OF example_policer_config_ok st(1,2), of 7] st show ?thesis
    by (fastforce simp: example_bucket_def)
qed

text \<open>
  While no destination is too old, the packet handler forwards every IPv4 packet from the LAN device
  to the WAN device without touching the state, forwards an IPv4 packet from the WAN device to the LAN
  device exactly when the token bucket of its destination admits its length, and drops the rest.
\<close>

lemma policer_core_process_functional:
  assumes "policer_config_ok config" "policer_rep config T t0 st" "0 \<le> now" "now < 2 ^ 63" "mbuf_ok mbuf"
    "\<forall>(k, i, s)\<in>set T. expiry_bound config now \<le> s"
  shows "policer_core_process config st mbuf pkt_len now =
    (if \<not> is_ipv4 (mbuf_data mbuf) then Some (uint (mbuf_port mbuf), st)
     else if mbuf_port mbuf = pcfg_lan_device config then Some (uint (pcfg_wan_device config), st)
     else if mbuf_port mbuf = pcfg_wan_device config then
       map_option (\<lambda>(fwd, st'). (uint (if fwd then pcfg_lan_device config else pcfg_wan_device config), st'))
         (policer_check_tb config st (get32 (mbuf_data mbuf) 30) (ucast pkt_len) now)
     else Some (uint (mbuf_port mbuf), st))"
proof -
  have "54 \<le> length (mbuf_data mbuf)" using assms(5) by (simp add: mbuf_ok_def)
  then show ?thesis
    using policer_expire_nothing [OF assms(1-4,6)] parsed_headers(1) [OF assms(5)]
    by (cases "policer_check_tb config st (get32 (mbuf_data mbuf) 30) (ucast pkt_len) now")
      (auto simp: policer_core_process_def Let_def word_uint_eq_iff layout pkt)
qed

end
