(* ===== verification/Runs.thy ===== *)
theory Runs
  imports FlowTable
begin

text \<open>
  Runs of a network function: packets that arrive one after the other, at times that do not
  decrease, each handled by the packet handler in the state the previous one left. A handler that
  refines a step relation on flow tables never gets stuck, and what the step relation preserves holds
  after every run.
\<close>

section \<open>Runs\<close>

text \<open>
  \<open>nf_run step ok s t ps s' t'\<close>: handling the packets \<open>ps\<close>, paired with the times of their arrival, leads
  from state \<open>s\<close> at time \<open>t\<close> to state \<open>s'\<close> at time \<open>t'\<close>; \<open>ok\<close> says which packets the device can deliver.
\<close>

inductive nf_run ::
  "('s \<Rightarrow> 'p \<Rightarrow> int \<Rightarrow> ('o \<times> 's) option) \<Rightarrow> ('p \<Rightarrow> bool) \<Rightarrow> 's \<Rightarrow> int \<Rightarrow> ('p \<times> int) list \<Rightarrow> 's \<Rightarrow> int \<Rightarrow> bool"
  for step ok s t where
  none: "nf_run step ok s t [] s t"
| packet: "nf_run step ok s t ps s1 t1 \<Longrightarrow> t1 \<le> now \<Longrightarrow> now < 2 ^ 63 \<Longrightarrow> ok p \<Longrightarrow>
    step s1 p now = Some (res, s2) \<Longrightarrow> nf_run step ok s t (ps @ [(p, now)]) s2 now"

lemma nf_run_time: "nf_run step ok s t ps s' t' \<Longrightarrow> t \<le> t'"
  by (induction rule: nf_run.induct) auto

inductive_simps nf_run_nil [simp]: "nf_run step ok s t [] s' t'"

lemma nf_run_one:
  "t \<le> now \<Longrightarrow> now < 2 ^ 63 \<Longrightarrow> ok p \<Longrightarrow> step s p now = Some (res, s2) \<Longrightarrow> nf_run step ok s t [(p, now)] s2 now"
  using nf_run.packet [OF nf_run.none, of t now ok p step s res s2] by simp

text \<open>Packets with times from \<open>t\<close> on, in order.\<close>

fun arrivals :: "('p \<Rightarrow> bool) \<Rightarrow> int \<Rightarrow> ('p \<times> int) list \<Rightarrow> bool" where
  "arrivals ok t [] \<longleftrightarrow> True"
| "arrivals ok t ((p, now) # ps) \<longleftrightarrow> t \<le> now \<and> now < 2 ^ 63 \<and> ok p \<and> arrivals ok now ps"

lemma arrivals_snoc:
  "arrivals ok t (ps @ [(p, now)]) \<longleftrightarrow>
    arrivals ok t ps \<and> (if ps = [] then t else snd (last ps)) \<le> now \<and> now < 2 ^ 63 \<and> ok p"
  by (induction ok t ps rule: arrivals.induct) auto

section \<open>Handlers that refine a relation on flow tables\<close>

locale refined_by_table =
  fixes step :: "'s \<Rightarrow> 'p \<Rightarrow> int \<Rightarrow> ('o \<times> 's) option"
    and ok :: "'p \<Rightarrow> bool"
    and spec :: "'t \<Rightarrow> 'p \<Rightarrow> int \<Rightarrow> 'o \<Rightarrow> 't \<Rightarrow> bool"
    and rep :: "'t \<Rightarrow> int \<Rightarrow> 's \<Rightarrow> bool"
  assumes refine: "rep T t s \<Longrightarrow> 0 \<le> t \<Longrightarrow> t \<le> now \<Longrightarrow> now < 2 ^ 63 \<Longrightarrow> ok p \<Longrightarrow>
    \<exists>res s' T'. step s p now = Some (res, s') \<and> spec T p now res T' \<and> rep T' now s'"
begin

lemma refine_step:
  assumes "rep T t s" "0 \<le> t" "t \<le> now" "now < 2 ^ 63" "ok p" "step s p now = Some (res, s')"
  obtains T' where "spec T p now res T'" "rep T' now s'"
  using refine [OF assms(1-5)] assms(6) by auto

text \<open>No sequence of packets makes the handler go wrong.\<close>

lemma run_total:
  assumes "rep T t s" "0 \<le> t" "arrivals ok t ps"
  shows "\<exists>s' t' T'. nf_run step ok s t ps s' t' \<and> rep T' t' s' \<and> t' = (if ps = [] then t else snd (last ps))"
  using assms(3)
proof (induction ps rule: rev_induct)
  case Nil
  then show ?case using assms(1) nf_run.none by fastforce
next
  case (snoc x ps)
  obtain p now where x [simp]: "x = (p, now)" by (cases x)
  have a: "arrivals ok t ps" "(if ps = [] then t else snd (last ps)) \<le> now" "now < 2 ^ 63" "ok p"
    using snoc.prems by (simp_all add: arrivals_snoc)
  obtain s1 t1 T1 where 1: "nf_run step ok s t ps s1 t1" "rep T1 t1 s1" "t1 \<le> now"
    using snoc.IH [OF a(1)] a(2) by auto
  obtain res s2 T2 where 2: "step s1 p now = Some (res, s2)" "rep T2 now s2"
    using refine [OF 1(2) _ 1(3) a(3,4)] nf_run_time [OF 1(1)] assms(2) by force
  show ?case using nf_run.packet [OF 1(1,3) a(3,4) 2(1)] 2(2) by fastforce
qed

text \<open>What every step of the relation preserves holds after every run; \<open>Q\<close> may depend on the packets so far.\<close>

lemma run_invariant:
  assumes run: "nf_run step ok s t ps s' t'" and rep: "rep T t s" and t: "0 \<le> t" and start: "Q T [] t"
    and keep: "\<And>T t1 s1 ps p now res T'. rep T t1 s1 \<Longrightarrow> Q T ps t1 \<Longrightarrow> t1 \<le> now \<Longrightarrow> now \<le> t' \<Longrightarrow>
      spec T p now res T' \<Longrightarrow> Q T' (ps @ [(p, now)]) now"
  shows "\<exists>T'. rep T' t' s' \<and> Q T' ps t'"
proof -
  have "t1 \<le> t' \<Longrightarrow> \<exists>T'. rep T' t1 s1 \<and> Q T' ps t1" if "nf_run step ok s t ps s1 t1" for ps s1 t1
    using that
  proof (induction rule: nf_run.induct)
    case none
    then show ?case using rep start by blast
  next
    case (packet ps s1 t1 now p res s2)
    obtain T1 where T1: "rep T1 t1 s1" "Q T1 ps t1" using packet by force
    obtain T2 where "spec T1 p now res T2" "rep T2 now s2"
      by (rule refine_step [OF T1(1) _ packet(2-5)]) (use t nf_run_time [OF packet(1)] in auto)
    then show ?case using keep [OF T1 packet(2,7)] by blast
  qed
  then show ?thesis using run by blast
qed

end

end
