(* ===== verification/Bridge.thy ===== *)
theory Bridge
  imports Runs NfUtil
begin

text \<open>
  The learning bridge of \<open>dpdk-nfs/nf/bridge\<close>: the dynamic table of Ethernet addresses
  (\<open>bridge_data.c\<close>), its expiry, lookup and learning, the initialisation and the packet handler
  (\<open>bridge_forward.c\<close>). The file is compiled with \<open>NO_STATIC_MAPPING\<close>, so the static table is never
  read.

  The handler refines a step relation on a table of addresses, each with the device it was learnt on.
\<close>

section \<open>Addresses and entries\<close>

text \<open>An Ethernet address: its six bytes, the first one lowest.\<close>

type_synonym rte_ether_addr = "48 word"

definition get48 :: "u8 list \<Rightarrow> nat \<Rightarrow> rte_ether_addr" where
  "get48 d k = ucast (get32 d k) OR push_bit 32 (ucast (get16 d (k + 4)))"

definition ld48 :: "u8 list \<Rightarrow> nat \<Rightarrow> rte_ether_addr option" where
  "ld48 d k = (if k + 6 \<le> length d then Some (get48 d k) else None)"

definition ether_addr_eq :: "rte_ether_addr \<Rightarrow> rte_ether_addr \<Rightarrow> bool" where
  "ether_addr_eq a b \<longleftrightarrow> a = b"

definition ether_addr_hash :: "rte_ether_addr \<Rightarrow> int" where
  "ether_addr_hash addr = sint ((ucast addr :: u32) XOR ucast (drop_bit 16 addr))"

record StaticKey =
  sk_addr :: rte_ether_addr
  sk_device :: u16

definition static_key_eq :: "StaticKey \<Rightarrow> StaticKey \<Rightarrow> bool" where
  "static_key_eq a b \<longleftrightarrow> sk_device a = sk_device b \<and> ether_addr_eq (sk_addr a) (sk_addr b)"

definition static_key_hash :: "StaticKey \<Rightarrow> int" where
  "static_key_hash k =
     sint (push_bit 2 (word_of_int (ether_addr_hash (sk_addr k)) :: u32) XOR ucast (sk_device k))"

record DynamicValue =
  dv_device :: u16

definition init_nothing_ea :: "rte_ether_addr \<Rightarrow> rte_ether_addr" where
  "init_nothing_ea entry = entry"

definition init_nothing_dv :: "DynamicValue \<Rightarrow> DynamicValue" where
  "init_nothing_dv entry = entry"

definition init_nothing_st :: "StaticKey \<Rightarrow> StaticKey" where
  "init_nothing_st entry = entry"

record DynamicFilterTable =
  dft_map :: "(rte_ether_addr keyptr, rte_ether_addr) cmap"
  dft_heap :: DoubleChain
  dft_keys :: "rte_ether_addr vector"
  dft_values :: "DynamicValue vector"

record bridge_config =
  bcfg_expiration_time :: u32
  bcfg_dyn_capacity :: u32
  bcfg_static_config_fname :: string

definition sizeof_ether_addr :: int where
  "sizeof_ether_addr = 6"

definition sizeof_DynamicValue :: int where
  "sizeof_DynamicValue = 2"

section \<open>Operations\<close>

definition bridge_expire_entries :: "bridge_config \<Rightarrow> DynamicFilterTable \<Rightarrow> int \<Rightarrow> (int \<times> DynamicFilterTable) option" where
  "bridge_expire_entries config ft time = do {
     assertion (0 \<le> time);
     let time_u = (word_of_int time :: u64);
     let min_time_u = time_u - ucast (bcfg_expiration_time config);
     let min_time = sint min_time_u;
     (count, heap, keys, m) \<leftarrow>
       expire_items_single_map (key_at (dft_keys ft)) (dft_heap ft) (dft_keys ft) (dft_map ft) min_time;
     Some (count, ft\<lparr>dft_heap := heap, dft_keys := keys, dft_map := m\<rparr>)
   }"

definition bridge_get_device :: "DynamicFilterTable \<Rightarrow> rte_ether_addr \<Rightarrow> u16 \<Rightarrow> (int \<times> DynamicFilterTable) option" where
  "bridge_get_device ft dst src_device = do {
     (present, index) \<leftarrow> map_get (key_at (dft_keys ft)) (dft_map ft) (Obj dst) (- 1);
     if present \<noteq> 0 then do {
       let p = vector_borrow (dft_values ft) index;
       value \<leftarrow> vector_load (dft_values ft) p;
       let device = uint (dv_device value);
       let values = vector_return (dft_values ft) index p;
       Some (device, ft\<lparr>dft_values := values\<rparr>)
     }
     else Some (- 1, ft)
   }"

definition bridge_put_update_entry ::
  "DynamicFilterTable \<Rightarrow> rte_ether_addr \<Rightarrow> u16 \<Rightarrow> int \<Rightarrow> DynamicFilterTable option" where
  "bridge_put_update_entry ft src src_device time = do {
     (present, index) \<leftarrow> map_get (key_at (dft_keys ft)) (dft_map ft) (Obj src) (- 1);
     if present \<noteq> 0 then do {
       (r, heap) \<leftarrow> dchain_rejuvenate_index (dft_heap ft) index time;
       Some (ft\<lparr>dft_heap := heap\<rparr>)
     } else do {
       (allocated, heap, index) \<leftarrow> dchain_allocate_new_index (dft_heap ft) index time;
       let ft = ft\<lparr>dft_heap := heap\<rparr>;
       if allocated = 0 then Some ft
       else do {
         let key = vector_borrow (dft_keys ft) index;
         let p = vector_borrow (dft_values ft) index;
         keys \<leftarrow> vector_store (dft_keys ft) key src;
         value \<leftarrow> vector_load (dft_values ft) p;
         values \<leftarrow> vector_store (dft_values ft) p (value\<lparr>dv_device := src_device\<rparr>);
         m \<leftarrow> map_put (key_at keys) (dft_map ft) (At key) index;
         let keys = vector_return keys index key;
         let values = vector_return values index p;
         Some (ft\<lparr>dft_map := m, dft_keys := keys, dft_values := values\<rparr>)
       }
     }
   }"

text \<open>\<open>rte_exit\<close> ends the program; the value \<open>None\<close> then stands for the missing table.\<close>

definition bridge_core_init ::
  "rte_ether_addr uninit \<Rightarrow> (nat \<Rightarrow> nat \<Rightarrow> DynamicValue) \<Rightarrow> bridge_config \<Rightarrow> heap
   \<Rightarrow> (DynamicFilterTable option \<times> heap) option" where
  "bridge_core_init mem junk config h = do {
     let capacity = sint (bcfg_dyn_capacity config);
     (happy, m, h) \<leftarrow> map_allocate ether_addr_eq ether_addr_hash capacity None (u_ints mem) (u_ptrs mem) h;
     if happy = 0 then Some (None, h) else do {
     (happy, keys, h) \<leftarrow> vector_allocate sizeof_ether_addr capacity init_nothing_ea None (u_addr mem) (u_elems mem) h;
     if happy = 0 then Some (None, h) else do {
     (happy, values, h) \<leftarrow> vector_allocate sizeof_DynamicValue capacity init_nothing_dv None (u_addr mem) junk h;
     if happy = 0 then Some (None, h) else do {
     (happy, heap, h) \<leftarrow> dchain_allocate capacity None (u_cells mem) (u_times mem) h;
     if happy = 0 then Some (None, h)
     else Some (Some \<lparr>dft_map = the m, dft_heap = the heap, dft_keys = the keys, dft_values = the values\<rparr>, h) }}}
   }"

text \<open>The static table is allocated in the same way; the program aborts when an assertion fails.\<close>

record StaticFilterTable =
  sft_map :: "(StaticKey keyptr, StaticKey) cmap"
  sft_keys :: "StaticKey vector"

definition CAPACITY_UPPER_LIMIT :: int where
  "CAPACITY_UPPER_LIMIT = 140000"

definition sizeof_StaticKey :: int where
  "sizeof_StaticKey = 8"

definition allocate_static_ft ::
  "StaticKey uninit \<Rightarrow> int \<Rightarrow> heap \<Rightarrow> (StaticFilterTable option \<times> heap) option" where
  "allocate_static_ft mem capacity h = do {
     assertion (0 < capacity);
     assertion (capacity < CAPACITY_UPPER_LIMIT);
     (happy, m, h) \<leftarrow> map_allocate static_key_eq static_key_hash capacity None (u_ints mem) (u_ptrs mem) h;
     if happy = 0 then Some (None, h) else do {
     (happy, keys, h) \<leftarrow> vector_allocate sizeof_StaticKey capacity init_nothing_st None (u_addr mem) (u_elems mem) h;
     if happy = 0 then Some (None, h)
     else Some (Some \<lparr>sft_map = the m, sft_keys = the keys\<rparr>, h) }
   }"

definition FLOOD_FRAME :: u16 where
  "FLOOD_FRAME = - 1"

definition bridge_core_process ::
  "bridge_config \<Rightarrow> DynamicFilterTable \<Rightarrow> mbuf \<Rightarrow> int \<Rightarrow> (int \<times> DynamicFilterTable) option" where
  "bridge_core_process config ft mbuf now = do {
     let ether_header = nf_get_mbuf_ether_header mbuf;
     (count, ft) \<leftarrow> bridge_expire_entries config ft now;
     s_addr \<leftarrow> ld48 (mbuf_data mbuf) (ether_header + ether_s_addr);
     ft \<leftarrow> bridge_put_update_entry ft s_addr (mbuf_port mbuf) now;
     d_addr \<leftarrow> ld48 (mbuf_data mbuf) (ether_header + ether_d_addr);
     (dst_device, ft) \<leftarrow> bridge_get_device ft d_addr (mbuf_port mbuf);
     if dst_device = - 1 then Some (uint FLOOD_FRAME, ft)
     else if dst_device = - 2 then Some (uint (mbuf_port mbuf), ft)
     else Some (dst_device, ft)
   }"

section \<open>The table of learnt addresses\<close>

text \<open>
  An abstract table: addresses with index and time of last use, and the device of each index in use.
\<close>

type_synonym learnt = "rte_ether_addr flows \<times> (int \<Rightarrow> u16)"

definition bridge_rep :: "learnt \<Rightarrow> int \<Rightarrow> DynamicFilterTable \<Rightarrow> bool" where
  "bridge_rep L now ft \<longleftrightarrow> (case L of (T, D) \<Rightarrow>
     flow_rep T now (dft_map ft) (dft_keys ft) (dft_heap ft) \<and>
     vector_inv (dft_values ft) \<and> v_capacity (dft_values ft) = v_capacity (dft_keys ft) \<and>
     (\<forall>(k, i, t)\<in>set T. dv_device (v_elems (dft_values ft) ! nat i) = D i))"

definition device_for :: "learnt \<Rightarrow> rte_ether_addr \<Rightarrow> u16 option" where
  "device_for L k = (case L of (T, D) \<Rightarrow> map_option D (find_flow T k))"

definition learn_expire :: "learnt \<Rightarrow> int \<Rightarrow> learnt" where
  "learn_expire L time = (case L of (T, D) \<Rightarrow> (expire_flows T time, D))"

text \<open>Learning the source of a frame: refresh it, enter it on a free index, or give up when the table is full.\<close>

inductive learn :: "int \<Rightarrow> learnt \<Rightarrow> rte_ether_addr \<Rightarrow> u16 \<Rightarrow> int \<Rightarrow> learnt \<Rightarrow> bool" for cap where
  seen: "find_flow T src = Some i \<Longrightarrow> learn cap (T, D) src port now (touch_flow T i now, D)"
| new: "find_flow T src = None \<Longrightarrow> 0 \<le> i \<Longrightarrow> i < cap \<Longrightarrow> (\<forall>k t. (k, i, t) \<notin> set T) \<Longrightarrow>
    learn cap (T, D) src port now (add_flow T src i now, D(i := port))"
| full: "find_flow T src = None \<Longrightarrow> int (length T) = cap \<Longrightarrow> learn cap (T, D) src port now (T, D)"

inductive_cases learnE: "learn cap L src port now L'"

definition frame_src :: "mbuf \<Rightarrow> rte_ether_addr" where
  "frame_src mbuf = get48 (mbuf_data mbuf) 6"

definition frame_dst :: "mbuf \<Rightarrow> rte_ether_addr" where
  "frame_dst mbuf = get48 (mbuf_data mbuf) 0"

definition bridge_table_step :: "bridge_config \<Rightarrow> learnt \<Rightarrow> mbuf \<Rightarrow> int \<Rightarrow> int \<Rightarrow> learnt \<Rightarrow> bool" where
  "bridge_table_step config L mbuf now out_device L' \<longleftrightarrow>
     learn (uint (bcfg_dyn_capacity config)) (learn_expire L (now - uint (bcfg_expiration_time config)))
       (frame_src mbuf) (mbuf_port mbuf) now L' \<and>
     out_device = (case device_for L' (frame_dst mbuf) of None \<Rightarrow> uint FLOOD_FRAME | Some dev \<Rightarrow> uint dev)"

definition bridge_holds :: "bridge_config \<Rightarrow> learnt \<Rightarrow> int \<Rightarrow> DynamicFilterTable \<Rightarrow> bool" where
  "bridge_holds config L t ft \<longleftrightarrow>
     bridge_rep L t ft \<and> v_capacity (dft_keys ft) = uint (bcfg_dyn_capacity config)"

section \<open>The operations implement it\<close>

lemma bridge_expire_correct:
  assumes "bridge_holds config L t ft" "0 \<le> now" "now < 2 ^ 63"
  shows "\<exists>count ft'. bridge_expire_entries config ft now = Some (count, ft') \<and>
    bridge_holds config (learn_expire L (now - uint (bcfg_expiration_time config))) t ft'"
proof -
  obtain T D where L: "L = (T, D)" by (cases L)
  let ?t = "now - uint (bcfg_expiration_time config)"
  have rep: "flow_rep T t (dft_map ft) (dft_keys ft) (dft_heap ft)"
    using assms(1) by (simp add: bridge_holds_def bridge_rep_def L)
  obtain heap' m' where e: "expire_items_single_map (key_at (dft_keys ft)) (dft_heap ft) (dft_keys ft) (dft_map ft) ?t
      = Some (int (length T) - int (length (expire_flows T ?t)), heap', dft_keys ft, m')"
    "flow_rep (expire_flows T ?t) t m' (dft_keys ft) heap'"
    using flow_expire [OF rep] by blast
  then show ?thesis
    using assms by (auto simp: bridge_expire_entries_def Let_def time_minus_u32 bridge_holds_def bridge_rep_def L
        learn_expire_def expire_flows_def)
qed

lemma bridge_put_known:
  assumes "bridge_holds config (T, D) t ft" "find_flow T src = Some i" "t \<le> now"
  shows "\<exists>ft'. bridge_put_update_entry ft src port now = Some ft' \<and> bridge_holds config (touch_flow T i now, D) now ft'"
proof -
  have rep: "flow_rep T t (dft_map ft) (dft_keys ft) (dft_heap ft)"
    using assms(1) by (simp add: bridge_holds_def bridge_rep_def)
  obtain u where u: "(src, i, u) \<in> set T" using assms(2) find_flow_Some [OF flow_rep_wf [OF rep]] by blast
  obtain heap' where "dchain_rejuvenate_index (dft_heap ft) i now = Some (1, heap')"
    "flow_rep (touch_flow T i now) now (dft_map ft) (dft_keys ft) heap'"
    using flow_rejuvenate [OF rep u assms(3)] by blast
  moreover have "\<forall>(k, j, s)\<in>set (touch_flow T i now). dv_device (v_elems (dft_values ft) ! nat j) = D j"
  proof safe
    fix k j s assume "(k, j, s) \<in> set (touch_flow T i now)"
    then have "\<exists>s. (k, j, s) \<in> set T" by (auto simp: touch_flow_member split: if_splits)
    then show "dv_device (v_elems (dft_values ft) ! nat j) = D j"
      using assms(1) by (auto simp: bridge_holds_def bridge_rep_def)
  qed
  ultimately show ?thesis
    using flow_get [OF rep, of src "- 1"] assms(1,2)
    by (simp add: bridge_put_update_entry_def bridge_holds_def bridge_rep_def)
qed

lemma bridge_put_new:
  assumes "bridge_holds config (T, D) t ft" "find_flow T src = None" "t \<le> now"
    "int (length T) < uint (bcfg_dyn_capacity config)"
  shows "\<exists>i ft'. bridge_put_update_entry ft src port now = Some ft' \<and> 0 \<le> i \<and> i < uint (bcfg_dyn_capacity config) \<and>
    (\<forall>k s. (k, i, s) \<notin> set T) \<and> bridge_holds config (add_flow T src i now, D(i := port)) now ft'"
proof -
  have rep: "flow_rep T t (dft_map ft) (dft_keys ft) (dft_heap ft)" and cap: "v_capacity (dft_keys ft) = uint (bcfg_dyn_capacity config)"
    and val: "vector_inv (dft_values ft)" "v_capacity (dft_values ft) = v_capacity (dft_keys ft)"
    "\<forall>(k, i, t)\<in>set T. dv_device (v_elems (dft_values ft) ! nat i) = D i"
    using assms(1) by (simp_all add: bridge_holds_def bridge_rep_def)
  obtain heap' i keys' m' where a: "dchain_allocate_new_index (dft_heap ft) (- 1) now = Some (1, heap', i)"
    and i: "0 \<le> i" "i < v_capacity (dft_keys ft)" "\<forall>k s. (k, i, s) \<notin> set T"
    and k: "vector_store (dft_keys ft) (vector_borrow (dft_keys ft) i) src = Some keys'"
      "keys' = (dft_keys ft)\<lparr>v_elems := (v_elems (dft_keys ft))[nat i := src]\<rparr>"
    and m: "map_put (key_at keys') (dft_map ft) (At (vector_borrow (dft_keys ft) i)) i = Some m'"
    and rep': "flow_rep (add_flow T src i now) now m' keys' heap'"
    using flow_allocate [OF rep _ assms(2,3), of "- 1"] assms(4) cap by auto
  let ?old = "v_elems (dft_values ft) ! nat i"
  let ?vals = "(dft_values ft)\<lparr>v_elems := (v_elems (dft_values ft))[nat i := ?old\<lparr>dv_device := port\<rparr>]\<rparr>"
  let ?ft = "ft\<lparr>dft_heap := heap', dft_map := m', dft_keys := keys', dft_values := ?vals\<rparr>"
  have len: "nat i < length (v_elems (dft_values ft))" using val i by (auto simp: vector_inv_def)
  have "vector_load (dft_values ft) (vector_borrow (dft_values ft) i) = Some ?old"
    "vector_store (dft_values ft) (vector_borrow (dft_values ft) i) (?old\<lparr>dv_device := port\<rparr>) = Some ?vals"
    using val i len by (simp_all add: vector_inv_def)
  then have run: "bridge_put_update_entry ft src port now = Some ?ft"
    using flow_get [OF rep, of src "- 1"] assms(2) a k(1) m
    by (simp add: bridge_put_update_entry_def Let_def vector_return_def)
  have "dv_device (v_elems ?vals ! nat j) = (D(i := port)) j" if j: "(k, j, s) \<in> set (add_flow T src i now)" for k j s
  proof (cases "j = i")
    case True
    then show ?thesis using len by simp
  next
    case False
    then have "(k, j, s) \<in> set T" using j by (auto simp: add_flow_def)
    moreover from this have "0 \<le> j" using flows_wfD [OF flow_rep_wf [OF rep]] by blast
    ultimately show ?thesis using False i(1) val(3) by (auto simp: nat_eq_iff)
  qed
  then have "bridge_holds config (add_flow T src i now, D(i := port)) now ?ft"
    using rep' val(1,2) cap k(2) by (auto simp: bridge_holds_def bridge_rep_def vector_inv_def)
  then show ?thesis using run i cap by auto
qed

lemma bridge_learn_correct:
  assumes "bridge_holds config L t ft" "t \<le> now"
  shows "\<exists>ft' L'. bridge_put_update_entry ft src port now = Some ft' \<and>
    learn (uint (bcfg_dyn_capacity config)) L src port now L' \<and> bridge_holds config L' now ft'"
proof -
  obtain T D where L: "L = (T, D)" by (cases L)
  have rep: "flow_rep T t (dft_map ft) (dft_keys ft) (dft_heap ft)" and cap: "v_capacity (dft_keys ft) = uint (bcfg_dyn_capacity config)"
    using assms(1) by (simp_all add: bridge_holds_def bridge_rep_def L)
  show ?thesis
  proof (cases "find_flow T src")
    case (Some i)
    then show ?thesis using bridge_put_known [OF assms(1) [unfolded L] Some assms(2)] learn.seen L by blast
  next
    case None
    show ?thesis
    proof (cases "int (length T) = uint (bcfg_dyn_capacity config)")
      case True
      have "bridge_put_update_entry ft src port now = Some ft"
        using flow_get [OF rep, of src "- 1"] None flow_allocate_full [OF rep, of "- 1" now] True cap
        by (simp add: bridge_put_update_entry_def Let_def)
      moreover have "bridge_holds config L now ft"
        using assms flow_rep_later [OF rep assms(2)] by (simp add: bridge_holds_def bridge_rep_def L)
      ultimately show ?thesis using learn.full [OF None True] L by blast
    next
      case False
      then have "int (length T) < uint (bcfg_dyn_capacity config)" using flow_length [OF rep] cap by simp
      from bridge_put_new [OF assms(1) [unfolded L] None assms(2) this]
      show ?thesis using learn.new [OF None] unfolding L by blast
    qed
  qed
qed

lemma bridge_get_correct:
  assumes "bridge_holds config L t ft"
  shows "bridge_get_device ft dst port = Some (case device_for L dst of None \<Rightarrow> - 1 | Some dev \<Rightarrow> uint dev, ft)"
proof -
  obtain T D where L: "L = (T, D)" by (cases L)
  have rep: "flow_rep T t (dft_map ft) (dft_keys ft) (dft_heap ft)"
    and val: "vector_inv (dft_values ft)" "v_capacity (dft_values ft) = v_capacity (dft_keys ft)"
    "\<forall>(k, i, t)\<in>set T. dv_device (v_elems (dft_values ft) ! nat i) = D i"
    using assms(1) by (simp_all add: bridge_holds_def bridge_rep_def L)
  show ?thesis
  proof (cases "find_flow T dst")
    case None
    then show ?thesis using flow_get [OF rep, of dst "- 1"] by (simp add: bridge_get_device_def device_for_def L)
  next
    case (Some i)
    then obtain u where u: "(dst, i, u) \<in> set T" using find_flow_Some [OF flow_rep_wf [OF rep]] by blast
    then have i: "0 \<le> i" "i < v_capacity (dft_keys ft)" using flows_wfD [OF flow_rep_wf [OF rep]] by auto
    have "vector_load (dft_values ft) (vector_borrow (dft_values ft) i) = Some (v_elems (dft_values ft) ! nat i)"
      using val i by (simp add: vector_inv_def)
    moreover have "dv_device (v_elems (dft_values ft) ! nat i) = D i" using val(3) u by auto
    ultimately show ?thesis
      using Some flow_get [OF rep, of dst "- 1"]
      by (simp add: bridge_get_device_def device_for_def L Let_def vector_return_def)
  qed
qed

lemma bridge_process_refines:
  assumes "bridge_holds config L t ft" "0 \<le> t" "t \<le> now" "now < 2 ^ 63" "mbuf_ok mbuf"
  shows "\<exists>dev ft' L'. bridge_core_process config ft mbuf now = Some (dev, ft') \<and>
    bridge_table_step config L mbuf now dev L' \<and> bridge_holds config L' now ft'"
proof -
  obtain count ft1 where 1: "bridge_expire_entries config ft now = Some (count, ft1)"
    "bridge_holds config (learn_expire L (now - uint (bcfg_expiration_time config))) t ft1"
    using bridge_expire_correct [OF assms(1) _ assms(4)] assms(2,3) by auto
  obtain ft2 L' where 2: "bridge_put_update_entry ft1 (frame_src mbuf) (mbuf_port mbuf) now = Some ft2"
    "learn (uint (bcfg_dyn_capacity config)) (learn_expire L (now - uint (bcfg_expiration_time config)))
       (frame_src mbuf) (mbuf_port mbuf) now L'" "bridge_holds config L' now ft2"
    using bridge_learn_correct [OF 1(2) assms(3)] by blast
  note 3 = bridge_get_correct [OF 2(3), of "frame_dst mbuf" "mbuf_port mbuf"]
  let ?r = "case device_for L' (frame_dst mbuf) of None \<Rightarrow> uint FLOOD_FRAME | Some dev \<Rightarrow> uint dev"
  have nn: "uint dev \<noteq> - 1" "uint dev \<noteq> - 2" for dev :: u16
    using uint_ge_0 [of dev] by linarith+
  have "bridge_core_process config ft mbuf now = Some (?r, ft2)"
    using 1(1) 2(1) 3 assms(5) nn
    by (cases "device_for L' (frame_dst mbuf)")
      (simp_all add: bridge_core_process_def Let_def nf_get_mbuf_ether_header_def layout ld48_def mbuf_ok_def
        frame_src_def frame_dst_def)
  moreover have "bridge_table_step config L mbuf now ?r L'" using 2(2) by (simp add: bridge_table_step_def)
  ultimately show ?thesis using 2(3) by blast
qed

interpretation br: refined_by_table "bridge_core_process config" mbuf_ok "bridge_table_step config" "bridge_holds config"
  for config
  using bridge_process_refines by unfold_locales


section \<open>Initialisation\<close>

definition bridge_started :: "bridge_config \<Rightarrow> DynamicFilterTable \<Rightarrow> bool" where
  "bridge_started config ft \<longleftrightarrow>
     (\<exists>mem junk h h'. heap_ok h \<and> bridge_core_init mem junk config h = Some (Some ft, h'))"

lemma bridge_core_init_correct:
  assumes "heap_ok h" "capacity_ok n" "sizeof_ether_addr * int n < 2 ^ 32" "uint (bcfg_dyn_capacity config) = int n"
    "bridge_core_init mem junk config h = Some (Some ft, h')"
  shows "bridge_holds config ([], D) 0 ft"
proof -
  have n: "n < 2 ^ 31" "0 < n" using assms(2,3) by (auto simp: sizeof_ether_addr_def capacity_ok_def)
  have cap: "sint (bcfg_dyn_capacity config) = int n"
    using assms(4) n by (simp add: sint_uint signed_take_bit_int_eq_self)
  have eq: "\<And>a b. ether_addr_eq a b \<longleftrightarrow> a = b" by (simp add: ether_addr_eq_def)
  obtain r1 m h1 where h1: "map_allocate ether_addr_eq ether_addr_hash (int n) None (u_ints mem) (u_ptrs mem) h
      = Some (r1, m, h1)" "r1 \<noteq> 0"
    using assms(5) cap by (auto simp: bridge_core_init_def Let_def bind_eq_Some_conv split: if_splits)
  note m = map_allocate_success [OF assms(1,2) eq h1]
  obtain r2 ks h2 where h2: "vector_allocate sizeof_ether_addr (int n) init_nothing_ea None (u_addr mem) (u_elems mem) h1
      = Some (r2, ks, h2)" "r2 \<noteq> 0"
    using assms(5) cap h1 by (auto simp: bridge_core_init_def Let_def bind_eq_Some_conv split: if_splits)
  obtain k where k: "ks = Some k" "heap_ok h2" "vector_inv k" "v_capacity k = int n"
    using vector_allocate_success [OF _ _ assms(3) h2] m by (auto simp: sizeof_ether_addr_def)
  obtain r3 vs h3 where h3: "vector_allocate sizeof_DynamicValue (int n) init_nothing_dv None (u_addr mem) junk h2
      = Some (r3, vs, h3)" "r3 \<noteq> 0"
    using assms(5) cap h1 h2 by (auto simp: bridge_core_init_def Let_def bind_eq_Some_conv split: if_splits)
  have "sizeof_DynamicValue * int n < 2 ^ 32" using assms(3) by (simp add: sizeof_DynamicValue_def sizeof_ether_addr_def)
  then obtain v where v: "vs = Some v" "heap_ok h3" "vector_inv v" "v_capacity v = int n"
    using vector_allocate_success [OF k(2) _ _ h3] by (auto simp: sizeof_DynamicValue_def)
  obtain r4 c h4 where h4: "dchain_allocate (int n) None (u_cells mem) (u_times mem) h3 = Some (r4, c, h4)" "r4 \<noteq> 0"
    and ft: "ft = \<lparr>dft_map = the m, dft_heap = the c, dft_keys = the ks, dft_values = the vs\<rparr>"
    using assms(5) cap h1 h2 h3 by (auto simp: bridge_core_init_def Let_def bind_eq_Some_conv split: if_splits)
  have "double_chainp (empty_dchain_fp (int n) 0) (the c)"
    using dchain_allocate_success [OF v(2) n(2) h4] by auto
  moreover obtain m' where m': "m = Some m'" using m by blast
  then have "map_inv d m' \<and> map_cap m' = n \<and> map_abs d m' = Map.empty" for d using m by auto
  ultimately have "flow_rep [] 0 m' k (the c)" by (intro flow_rep_empty [of _ k m' n]) (use k in auto)
  then show ?thesis using k v m' assms(4) by (simp add: bridge_holds_def bridge_rep_def ft)
qed

lemma bridge_started_holds:
  assumes "bridge_started config ft" "capacity_ok n" "sizeof_ether_addr * int n < 2 ^ 32"
    "uint (bcfg_dyn_capacity config) = int n"
  shows "bridge_holds config ([], D) 0 ft"
  using assms bridge_core_init_correct unfolding bridge_started_def by blast

section \<open>Runs\<close>

lemma bridge_holds_wf:
  "bridge_holds config (T, D) t ft \<Longrightarrow> flows_wf (expire_flows T time) (uint (bcfg_dyn_capacity config)) t"
  unfolding bridge_holds_def bridge_rep_def split_conv by (metis flows_wf_expire flow_rep_wf)

text \<open>A learnt address keeps its index and its device until it expires.\<close>

lemma learn_keeps:
  assumes "learn cap (T, D) src port now (T', D')" "(k, i, u) \<in> set T" "u \<le> now"
  shows "\<exists>u'. (k, i, u') \<in> set T' \<and> u \<le> u' \<and> D' i = D i"
proof -
  have "\<exists>u'. (k, i, u') \<in> set (touch_flow T j now) \<and> u \<le> u'" for j
    using assms(2,3) by (cases "i = j") (auto simp: touch_flow_member)
  then show ?thesis using assms(1,2) by (auto elim!: learnE simp: add_flow_def)
qed

definition keeps_device :: "rte_ether_addr \<Rightarrow> int \<Rightarrow> u16 \<Rightarrow> int \<Rightarrow> learnt \<Rightarrow> bool" where
  "keeps_device k i dev u L \<longleftrightarrow> (\<exists>u'. (k, i, u') \<in> set (fst L) \<and> u \<le> u') \<and> snd L i = dev"

lemma bridge_step_keeps:
  assumes "bridge_holds config L t ft" "t \<le> now" "keeps_device k i dev u L" "now - uint (bcfg_expiration_time config) \<le> u"
    "bridge_table_step config L mbuf now out_device L'"
  shows "keeps_device k i dev u L'"
proof -
  obtain T D T' D' where L: "L = (T, D)" "L' = (T', D')" by (cases L, cases L')
  let ?T = "expire_flows T (now - uint (bcfg_expiration_time config))"
  obtain u' where u': "(k, i, u') \<in> set ?T" "u \<le> u'" "D i = dev"
    using assms(3,4) by (auto simp: keeps_device_def L expire_flows_member)
  moreover have "u' \<le> now" using flows_wfD [OF bridge_holds_wf u'(1)] assms(1,2) unfolding L by fastforce
  moreover have "learn (uint (bcfg_dyn_capacity config)) (?T, D) (frame_src mbuf) (mbuf_port mbuf) now (T', D')"
    using assms(5) by (simp add: bridge_table_step_def learn_expire_def L)
  ultimately obtain u'' where "(k, i, u'') \<in> set T'" "u' \<le> u''" "D' i = dev"
    using learn_keeps by blast
  then show ?thesis using u'(2) by (auto simp: keeps_device_def L)
qed

lemma bridge_run_keeps:
  assumes "nf_run (bridge_core_process config) mbuf_ok ft t ps ft' t'" "bridge_holds config L t ft" "0 \<le> t"
    "keeps_device k i dev u L" "t' - uint (bcfg_expiration_time config) \<le> u"
  shows "\<exists>L'. bridge_holds config L' t' ft' \<and> keeps_device k i dev u L'"
  by (rule br.run_invariant [OF assms(1-3), where Q = "\<lambda>L ps t. keeps_device k i dev u L"])
    (use assms(4,5) bridge_step_keeps in auto)

lemma device_for_kept:
  assumes "bridge_holds config L t ft" "keeps_device k i dev u L"
  shows "device_for L k = Some dev"
proof -
  obtain T D where L: "L = (T, D)" by (cases L)
  then show ?thesis
    using assms find_flow_Some [OF flow_rep_wf, of "\<lambda>k. k" T t "dft_map ft" "dft_keys ft" "dft_heap ft" k i]
    by (auto simp: bridge_holds_def bridge_rep_def keeps_device_def device_for_def)
qed

text \<open>Every entry comes from a frame seen on its device, and its time is that of a frame with its address.\<close>

definition bridge_seen :: "(mbuf \<times> int) list \<Rightarrow> (int \<Rightarrow> u16) \<Rightarrow> rte_ether_addr \<Rightarrow> int \<Rightarrow> int \<Rightarrow> bool" where
  "bridge_seen ps D k i u \<longleftrightarrow>
     (\<exists>m s. (m, s) \<in> set ps \<and> frame_src m = k \<and> mbuf_port m = D i \<and> s \<le> u) \<and>
     (\<exists>m. (m, u) \<in> set ps \<and> frame_src m = k)"

lemma bridge_seen_later:
  assumes "bridge_seen ps D k i u" "u \<le> now" "frame_src mbuf = k"
  shows "bridge_seen (ps @ [(mbuf, now)]) D k i now"
proof -
  obtain m s where "(m, s) \<in> set ps" "frame_src m = k" "mbuf_port m = D i" "s \<le> u"
    using assms(1) by (auto simp: bridge_seen_def)
  moreover from this have "s \<le> now" using assms(2) by simp
  ultimately show ?thesis using assms(3) unfolding bridge_seen_def set_append by auto
qed

lemma bridge_seen_more: "bridge_seen ps D k i u \<Longrightarrow> bridge_seen (ps @ qs) D k i u"
  unfolding bridge_seen_def by auto

lemma learn_seen:
  assumes "learn cap (T, D) (frame_src mbuf) (mbuf_port mbuf) now (T', D')" "flows_wf T cap t" "t \<le> now"
    "\<And>k i u. (k, i, u) \<in> set T \<Longrightarrow> bridge_seen ps D k i u" "(k, i, u) \<in> set T'"
  shows "bridge_seen (ps @ [(mbuf, now)]) D' k i u"
  using assms(1)
proof (cases rule: learn.cases)
  case (seen j)
  show ?thesis
  proof (cases "i = j")
    case True
    then obtain w where w: "(k, j, w) \<in> set T" "u = now" using assms(5) seen(1) by (auto simp: touch_flow_member)
    moreover from this have "k = frame_src mbuf"
      using flows_wf_same_index [OF assms(2)] seen(3) find_flow_Some [OF assms(2)] by blast
    moreover have "w \<le> now" using flows_wfD [OF assms(2) w(1)] assms(3) by simp
    ultimately show ?thesis using bridge_seen_later [OF assms(4) [OF w(1)]] True seen(2) by simp
  next
    case False
    then show ?thesis using assms(4,5) seen by (auto simp: touch_flow_member intro: bridge_seen_more)
  qed
next
  case (new j)
  show ?thesis
  proof (cases "i = j")
    case True
    then have "k = frame_src mbuf" "u = now" using assms(5) new by (auto simp: add_flow_def)
    then show ?thesis using True new(2) by (auto simp: bridge_seen_def)
  next
    case False
    then have "(k, i, u) \<in> set T" using assms(5) new(1) by (auto simp: add_flow_def)
    then have "bridge_seen ps D' k i u" using assms(4) False new(2) by (auto simp: bridge_seen_def)
    then show ?thesis by (rule bridge_seen_more)
  qed
next
  case full
  then show ?thesis using assms(4,5) by (auto intro: bridge_seen_more)
qed

definition all_seen :: "(mbuf \<times> int) list \<Rightarrow> learnt \<Rightarrow> bool" where
  "all_seen ps L \<longleftrightarrow> (\<forall>(k, i, u)\<in>set (fst L). bridge_seen ps (snd L) k i u)"

lemma bridge_step_seen:
  assumes "bridge_holds config L t ft" "t \<le> now" "all_seen ps L" "bridge_table_step config L mbuf now out_device L'"
  shows "all_seen (ps @ [(mbuf, now)]) L'"
proof -
  obtain T D T' D' where L: "L = (T, D)" "L' = (T', D')" by (cases L, cases L')
  let ?T = "expire_flows T (now - uint (bcfg_expiration_time config))"
  have l: "learn (uint (bcfg_dyn_capacity config)) (?T, D) (frame_src mbuf) (mbuf_port mbuf) now (T', D')"
    using assms(4) by (simp add: bridge_table_step_def learn_expire_def L)
  have "bridge_seen ps D k i u" if "(k, i, u) \<in> set ?T" for k i u
    using that assms(3) by (auto simp: all_seen_def L expire_flows_member)
  then show ?thesis
    using learn_seen [OF l bridge_holds_wf assms(2)] assms(1) by (auto simp: all_seen_def L)
qed

lemma bridge_run_seen:
  assumes "nf_run (bridge_core_process config) mbuf_ok ft 0 ps ft' t" "bridge_holds config ([], D) 0 ft"
  shows "\<exists>L. bridge_holds config L t ft' \<and> all_seen ps L"
  by (rule br.run_invariant [OF assms, where Q = "\<lambda>L ps t. all_seen ps L"])
    (use bridge_step_seen in \<open>auto simp: all_seen_def\<close>)

lemma learn_fresh:
  assumes "learn cap (expire_flows T time, D) src port now (T', D')" "(k, i, u) \<in> set T'" "time \<le> now"
  shows "time \<le> u"
  using assms by (auto elim!: learnE simp: touch_flow_member add_flow_def expire_flows_member split: if_splits)

text \<open>A frame whose source is unknown is learnt while there is room, and then frames to that address reach its device.\<close>

lemma bridge_delivers:
  assumes rep: "bridge_holds config (T, D) t0 ft" and time: "0 \<le> t0" "t0 \<le> now" "now < 2 ^ 63"
    and first: "mbuf_ok m" "bridge_core_process config ft m now = Some (dev, ft1)"
      "find_flow (expire_flows T (now - uint (bcfg_expiration_time config))) (frame_src m) = None"
      "int (length T) < uint (bcfg_dyn_capacity config)"
    and between: "nf_run (bridge_core_process config) mbuf_ok ft1 now ps ft2 t"
    and later: "t \<le> later" "later < 2 ^ 63" "later - uint (bcfg_expiration_time config) \<le> now"
    and to: "mbuf_ok mbuf" "frame_dst mbuf = frame_src m"
  shows "\<exists>ft3. bridge_core_process config ft2 mbuf later = Some (uint (mbuf_port m), ft3)"
proof -
  let ?T = "expire_flows T (now - uint (bcfg_expiration_time config))"
  obtain L1 where L1: "bridge_table_step config (T, D) m now dev L1" "bridge_holds config L1 now ft1"
    by (rule br.refine_step [OF rep time first(1,2)])
  have "length ?T \<le> length T" by (simp add: length_expire_flows)
  then have room: "int (length ?T) \<noteq> uint (bcfg_dyn_capacity config)" using first(4) by linarith
  have "learn (uint (bcfg_dyn_capacity config)) (?T, D) (frame_src m) (mbuf_port m) now L1"
    using L1(1) by (simp add: bridge_table_step_def learn_expire_def)
  then obtain i where i: "L1 = (add_flow ?T (frame_src m) i now, D(i := mbuf_port m))"
    using first(3) room by (auto elim!: learnE)
  then have k: "keeps_device (frame_src m) i (mbuf_port m) now L1" by (auto simp: keeps_device_def add_flow_def)
  have "0 \<le> now" "0 \<le> t" using time nf_run_time [OF between] by simp_all
  then obtain L2 where L2: "bridge_holds config L2 t ft2" "keeps_device (frame_src m) i (mbuf_port m) now L2"
    using bridge_run_keeps [OF between L1(2) _ k] later by force
  obtain dev3 ft3 L3 where 3: "bridge_core_process config ft2 mbuf later = Some (dev3, ft3)"
    "bridge_table_step config L2 mbuf later dev3 L3" "bridge_holds config L3 later ft3"
    using bridge_process_refines [OF L2(1) \<open>0 \<le> t\<close> later(1,2) to(1)] by blast
  have "keeps_device (frame_src m) i (mbuf_port m) now L3"
    by (rule bridge_step_keeps [OF L2(1) later(1) L2(2) later(3) 3(2)])
  from device_for_kept [OF 3(3) this] 3(1,2) to(2) show ?thesis by (simp add: bridge_table_step_def)
qed

section \<open>Example state\<close>

definition example_bridge_config :: bridge_config where
  "example_bridge_config = \<lparr>bcfg_expiration_time = 100, bcfg_dyn_capacity = 2, bcfg_static_config_fname = []\<rparr>"

text \<open>A frame from address \<open>src\<close> to \<open>dst\<close>, each six times the same byte.\<close>

definition example_frame :: "u16 \<Rightarrow> u8 \<Rightarrow> u8 \<Rightarrow> mbuf" where
  "example_frame dev dst src = \<lparr>mbuf_port = dev, mbuf_data = replicate 6 dst @ replicate 6 src @ replicate 48 0\<rparr>"

definition same_byte :: "u8 \<Rightarrow> rte_ether_addr" where
  "same_byte b = get48 (replicate 6 b) 0"

definition example_bridge_memory :: "rte_ether_addr uninit" where
  "example_bridge_memory = \<lparr>u_ints = \<lambda>_ _. 0, u_ptrs = \<lambda>_ _. At 0, u_cells = \<lambda>_ _. \<lparr>cell_prev = 0, cell_next = 0\<rparr>,
     u_times = \<lambda>_ _. 0, u_addr = \<lambda>_. 4096, u_elems = \<lambda>_ _. 0\<rparr>"

lemma FLOOD_FRAME_value: "uint FLOOD_FRAME = 65535"
  by (simp add: FLOOD_FRAME_def unsigned_minus_1_eq_mask mask_eq_exp_minus_1)

lemma example_frame_ok:
  "mbuf_ok (example_frame dev dst src)" "mbuf_port (example_frame dev dst src) = dev"
  "frame_src (example_frame dev dst src) = same_byte src" "frame_dst (example_frame dev dst src) = same_byte dst"
  by (simp_all add: example_frame_def mbuf_ok_def frame_src_def frame_dst_def same_byte_def get48_def get32_def get16_def
      nth_append)

lemma example_bridge_started: "\<exists>ft. bridge_started example_bridge_config ft"
proof -
  let ?mem = example_bridge_memory and ?h = "\<lparr>outcomes = replicate 13 True, live = [], fresh = 0\<rparr> :: heap"
  let ?junk = "\<lambda>_ _. \<lparr>dv_device = 0\<rparr>"
  have "outcomes ?h = replicate 6 True @ replicate 7 True" by (simp add: numeral_eq_Suc)
  from map_allocate_plenty [OF this]
  obtain m h1 where h1: "map_allocate ether_addr_eq ether_addr_hash (int 2) None (u_ints ?mem) (u_ptrs ?mem) ?h = Some (1, Some m, h1)"
    "outcomes h1 = True # True # replicate 5 True"
    by (fastforce simp: numeral_eq_Suc)
  obtain k h2 where h2: "vector_allocate sizeof_ether_addr (int 2) init_nothing_ea None (u_addr ?mem) (u_elems ?mem) h1
      = Some (1, Some k, h2)" "outcomes h2 = True # True # replicate 3 True"
    using vector_allocate_plenty [OF h1(2), of sizeof_ether_addr 2] by (fastforce simp: sizeof_ether_addr_def numeral_eq_Suc)
  obtain v h3 where h3: "vector_allocate sizeof_DynamicValue (int 2) init_nothing_dv None (u_addr ?mem) ?junk h2
      = Some (1, Some v, h3)" "outcomes h3 = True # True # True # []"
    using vector_allocate_plenty [OF h2(2), of sizeof_DynamicValue 2] by (fastforce simp: sizeof_DynamicValue_def numeral_eq_Suc)
  obtain c h4 where h4: "dchain_allocate (int 2) None (u_cells ?mem) (u_times ?mem) h3 = Some (1, Some c, h4)"
    using dchain_allocate_plenty [OF h3(2), of 2] by fastforce
  have "\<exists>ft h'. bridge_core_init ?mem ?junk example_bridge_config ?h = Some (Some ft, h')"
    using h1(1) h2(1) h3(1) h4 by (simp add: bridge_core_init_def example_bridge_config_def Let_def)
  moreover have "heap_ok ?h" by (simp add: heap_ok_def)
  ultimately show ?thesis unfolding bridge_started_def by blast
qed

lemma example_bridge_capacity:
  "capacity_ok 2" "sizeof_ether_addr * int 2 < 2 ^ 32" "uint (bcfg_dyn_capacity example_bridge_config) = int 2"
  by (auto simp: capacity_ok_def sizeof_ether_addr_def example_bridge_config_def intro: exI [of _ 1])

lemma example_bridge_run:
  assumes "bridge_holds example_bridge_config L t ft" "0 \<le> t" "arrivals mbuf_ok t ps"
  obtains ft' L' where
    "nf_run (bridge_core_process example_bridge_config) mbuf_ok ft t ps ft' (if ps = [] then t else snd (last ps))"
    "bridge_holds example_bridge_config L' (if ps = [] then t else snd (last ps)) ft'"
  using br.run_total [OF assms] by blast

lemma example_bridge_unicast:
  assumes "bridge_holds example_bridge_config ([], D) 0 ft" "arrivals mbuf_ok 5 ps" "ps \<noteq> [] \<Longrightarrow> snd (last ps) \<le> 9"
  obtains dev ft1 ft2 ft3 where
    "bridge_core_process example_bridge_config ft (example_frame 3 1 2) 5 = Some (dev, ft1)"
    "nf_run (bridge_core_process example_bridge_config) mbuf_ok ft1 5 ps ft2 (if ps = [] then 5 else snd (last ps))"
    "bridge_core_process example_bridge_config ft2 (example_frame 4 2 1) 9 = Some (3, ft3)"
proof -
  obtain dev ft1 L1 where 1: "bridge_core_process example_bridge_config ft (example_frame 3 1 2) 5 = Some (dev, ft1)"
    "bridge_holds example_bridge_config L1 5 ft1"
    using bridge_process_refines [OF assms(1), of 5 "example_frame 3 1 2"] by (auto simp: example_frame_ok)
  obtain ft2 L2 where 2: "nf_run (bridge_core_process example_bridge_config) mbuf_ok ft1 5 ps ft2 (if ps = [] then 5 else snd (last ps))"
    by (rule example_bridge_run [OF 1(2) _ assms(2)]) simp_all
  have "\<exists>ft3. bridge_core_process example_bridge_config ft2 (example_frame 4 2 1) 9 = Some (uint (mbuf_port (example_frame 3 1 2)), ft3)"
    by (rule bridge_delivers [OF assms(1) _ _ _ example_frame_ok(1) 1(1) _ _ 2])
      (use assms(3) in \<open>auto simp: example_frame_ok example_bridge_config_def expire_flows_def find_flow_def\<close>)
  then show thesis using that [OF 1(1) 2] by (auto simp: example_frame_ok)
qed

section \<open>Properties\<close>

text \<open>
  C20. On every frame, in every state that represents a table of learnt addresses, the packet handler
  returns and does one step of the abstract bridge: it forgets the expired addresses, learns the source
  address unless the table is full, and answers with the device learnt for the destination, or with the
  flooding code when there is none.
\<close>

theorem bridge_core_process_refines:
  assumes "bridge_holds config L t ft" "0 \<le> t" "t \<le> now" "now < 2 ^ 63" "mbuf_ok mbuf"
  shows "\<exists>dev ft' L'. bridge_core_process config ft mbuf now = Some (dev, ft') \<and>
    bridge_table_step config L mbuf now dev L' \<and> bridge_holds config L' now ft'"
  by (rule bridge_process_refines [OF assms])

theorem bridge_core_process_refines_witness:
  "\<exists>ft dev ft' L'. bridge_started example_bridge_config ft \<and>
    bridge_core_process example_bridge_config ft (example_frame 3 1 2) 5 = Some (dev, ft') \<and>
    bridge_table_step example_bridge_config ([], \<lambda>_. 0) (example_frame 3 1 2) 5 dev L' \<and> bridge_holds example_bridge_config L' 5 ft'"
proof -
  obtain ft where ft: "bridge_started example_bridge_config ft" using example_bridge_started by blast
  from bridge_core_process_refines [OF bridge_started_holds [OF ft example_bridge_capacity], of 5 "example_frame 3 1 2" "\<lambda>_. 0"] ft
  show ?thesis by (simp add: example_frame_ok) blast
qed

text \<open>
  C7. The bridge sends a frame to a single device only when, since the start, a frame came in on that
  device from the destination address, and the address has shown itself again within the expiration
  time; every other frame is flooded.
\<close>

theorem bridge_unicast_justified:
  assumes started: "bridge_started config ft" "capacity_ok n" "sizeof_ether_addr * int n < 2 ^ 32"
      "uint (bcfg_dyn_capacity config) = int n"
    and run: "nf_run (bridge_core_process config) mbuf_ok ft 0 ps ft1 t" and time: "t \<le> now" "now < 2 ^ 63"
    and mbuf: "mbuf_ok mbuf"
    and sent: "bridge_core_process config ft1 mbuf now = Some (dev, ft2)" "dev \<noteq> uint FLOOD_FRAME"
  shows "\<exists>m s m' u. (m, s) \<in> set (ps @ [(mbuf, now)]) \<and> frame_src m = frame_dst mbuf \<and> uint (mbuf_port m) = dev \<and>
    s \<le> u \<and> (m', u) \<in> set (ps @ [(mbuf, now)]) \<and> frame_src m' = frame_dst mbuf \<and>
    now - uint (bcfg_expiration_time config) \<le> u"
proof -
  let ?ps = "ps @ [(mbuf, now)]" and ?e = "now - uint (bcfg_expiration_time config)"
  obtain L where L: "bridge_holds config L t ft1" "all_seen ps L"
    using bridge_run_seen [OF run bridge_started_holds [OF started]] by blast
  obtain L' where step: "bridge_table_step config L mbuf now dev L'" "bridge_holds config L' now ft2"
    by (rule br.refine_step [OF L(1) nf_run_time [OF run] time mbuf sent(1)])
  obtain T D T' D' where LD: "L = (T, D)" "L' = (T', D')" by (cases L, cases L')
  have seen: "all_seen ?ps L'" by (rule bridge_step_seen [OF L(1) time(1) L(2) step(1)])
  obtain i where i: "find_flow T' (frame_dst mbuf) = Some i" "dev = uint (D' i)"
    using step(1) sent(2) by (auto simp: bridge_table_step_def device_for_def LD split: option.splits)
  obtain u where u: "(frame_dst mbuf, i, u) \<in> set T'"
    using i(1) find_flow_Some [OF flow_rep_wf] step(2) by (fastforce simp: bridge_holds_def bridge_rep_def LD)
  have "?e \<le> u"
    using step(1) learn_fresh [OF _ u, of _ T ?e D] by (fastforce simp: bridge_table_step_def learn_expire_def LD)
  moreover have "bridge_seen ?ps D' (frame_dst mbuf) i u" using seen u by (auto simp: all_seen_def LD)
  then obtain m s m' where "(m, s) \<in> set ?ps" "frame_src m = frame_dst mbuf" "mbuf_port m = D' i" "s \<le> u"
    "(m', u) \<in> set ?ps" "frame_src m' = frame_dst mbuf"
    unfolding bridge_seen_def by blast
  ultimately show ?thesis using i(2) by metis
qed

theorem bridge_unicast_justified_witness:
  "\<exists>ft ft1 ft2 m s. bridge_started example_bridge_config ft \<and>
    nf_run (bridge_core_process example_bridge_config) mbuf_ok ft 0 [(example_frame 3 1 2, 5)] ft1 5 \<and>
    bridge_core_process example_bridge_config ft1 (example_frame 4 2 1) 9 = Some (3, ft2) \<and>
    (m, s) \<in> set ([(example_frame 3 1 2, 5)] @ [(example_frame 4 2 1, 9 :: int)]) \<and> frame_src m = same_byte 2 \<and> uint (mbuf_port m) = 3"
proof -
  obtain ft where ft: "bridge_started example_bridge_config ft" using example_bridge_started by blast
  note rep = bridge_started_holds [OF ft example_bridge_capacity, of "\<lambda>_. 0"]
  obtain dev ft1 ft2 where 1: "bridge_core_process example_bridge_config ft (example_frame 3 1 2) 5 = Some (dev, ft1)"
    and 2: "bridge_core_process example_bridge_config ft1 (example_frame 4 2 1) 9 = Some (3, ft2)"
    by (rule example_bridge_unicast [OF rep, of "[]"]) auto
  have run: "nf_run (bridge_core_process example_bridge_config) mbuf_ok ft 0 [(example_frame 3 1 2, 5)] ft1 5"
    by (rule nf_run_one [where res = dev]) (use 1 in \<open>simp_all add: example_frame_ok\<close>)
  from bridge_unicast_justified [OF ft example_bridge_capacity run _ _ example_frame_ok(1) 2]
  obtain m and s :: int where "(m, s) \<in> set ([(example_frame 3 1 2, 5)] @ [(example_frame 4 2 1, 9)])"
    "frame_src m = same_byte 2" "uint (mbuf_port m) = 3"
    by (simp add: example_frame_ok FLOOD_FRAME_value) metis
  then show ?thesis using ft run 2 by blast
qed

text \<open>
  An address that is learnt from a frame is bound to the device of that frame: until it expires,
  whatever frames arrive in between, and even when frames with that source address come in on other
  devices, a frame to the address is sent to the device where it was seen first.
\<close>

lemma bridge_keeps_first_device:
  assumes "bridge_holds config (T, D) t0 ft" "0 \<le> t0" "t0 \<le> now" "now < 2 ^ 63"
    and "mbuf_ok m" "bridge_core_process config ft m now = Some (dev, ft1)"
      "find_flow (expire_flows T (now - uint (bcfg_expiration_time config))) (frame_src m) = None"
      "int (length T) < uint (bcfg_dyn_capacity config)"
    and "nf_run (bridge_core_process config) mbuf_ok ft1 now ps ft2 t"
    and "t \<le> later" "later < 2 ^ 63" "later - uint (bcfg_expiration_time config) \<le> now"
    and "mbuf_ok mbuf" "frame_dst mbuf = frame_src m"
  shows "\<exists>ft3. bridge_core_process config ft2 mbuf later = Some (uint (mbuf_port m), ft3)"
  by (rule bridge_delivers [OF assms])

end
