(* ===== verification/Vigfw.thy ===== *)
theory Vigfw
  imports Runs NfUtil
begin

text \<open>
  The firewall of \<open>dpdk-nfs/nf/vigfw\<close>: flows and their hash (\<open>fw-flow.c\<close>), the state
  (\<open>fw-state.c\<close>), the flow manager (\<open>fw-flowmanager.c\<close>) and the packet handler (\<open>fw.c\<close>).

  The handler is shown to refine a step relation on abstract flow tables (\<open>fw_spec_step\<close>), and what
  the firewall promises about runs of packets is proved of that relation: packets from outside pass
  only as answers to packets from inside, and answers in time do pass.
\<close>

section \<open>Flows\<close>

record Flow =
  fl_src_port :: u16
  fl_dst_port :: u16
  fl_src_ip :: u32
  fl_dst_ip :: u32
  fl_protocol :: u8

definition sizeof_Flow :: int where
  "sizeof_Flow = 16"

definition fw_flow_eq :: "Flow \<Rightarrow> Flow \<Rightarrow> bool" where
  "fw_flow_eq a b \<longleftrightarrow>
     fl_src_port a = fl_src_port b \<and> fl_dst_port a = fl_dst_port b \<and>
     fl_src_ip a = fl_src_ip b \<and> fl_dst_ip a = fl_dst_ip b \<and> fl_protocol a = fl_protocol b"

definition fw_flow_allocate :: "Flow \<Rightarrow> Flow" where
  "fw_flow_allocate obj = obj"

definition fw_flow_consistency :: "Flow \<Rightarrow> bool" where
  "fw_flow_consistency f \<longleftrightarrow> 0 \<le> uint (fl_src_port f)"

definition fw_flow_hash :: "Flow \<Rightarrow> int" where
  "fw_flow_hash obj =
     (let hash = 0 :: 64 word;
          hash = hash + ucast (fl_src_port obj);
          hash = hash * 31;
          hash = hash + ucast (fl_dst_port obj);
          hash = hash * 31;
          hash = hash + ucast (fl_src_ip obj);
          hash = hash * 31;
          hash = hash + ucast (fl_dst_ip obj);
          hash = hash * 31;
          hash = hash + ucast (fl_protocol obj)
      in sint hash smod INT_MAX)"

section \<open>State\<close>

record fw_state =
  fst_fm :: "(Flow keyptr, Flow) cmap"
  fst_fv :: "Flow vector"
  fst_heap :: DoubleChain
  fst_max_flows :: int

definition fw_alloc_state ::
  "Flow uninit \<Rightarrow> fw_state option \<Rightarrow> int \<Rightarrow> heap \<Rightarrow> (fw_state option \<times> fw_state option \<times> heap) option" where
  "fw_alloc_state mem allocated_nf_state max_flows h =
     (case allocated_nf_state of
        Some st \<Rightarrow> Some (Some st, allocated_nf_state, h)
      | None \<Rightarrow>
     (case malloc h of
        (None, h) \<Rightarrow> Some (None, allocated_nf_state, h)
      | (Some ret, h) \<Rightarrow> do {
          (r, fm, h) \<leftarrow> map_allocate fw_flow_eq fw_flow_hash max_flows None (u_ints mem) (u_ptrs mem) h;
          if r = 0 then Some (None, allocated_nf_state, h) else do {
          (r, fv, h) \<leftarrow> vector_allocate sizeof_Flow max_flows fw_flow_allocate None (u_addr mem) (u_elems mem) h;
          if r = 0 then Some (None, allocated_nf_state, h) else do {
          (r, heap, h) \<leftarrow> dchain_allocate max_flows None (u_cells mem) (u_times mem) h;
          if r = 0 then Some (None, allocated_nf_state, h) else do {
          let st = \<lparr>fst_fm = the fm, fst_fv = the fv, fst_heap = the heap, fst_max_flows = max_flows\<rparr>;
          Some (Some st, Some st, h) }}}}))"

section \<open>Flow manager\<close>

record fw_manager =
  fmg_state :: fw_state
  fmg_expiration_time :: u32

definition fw_flow_manager_allocate ::
  "Flow uninit \<Rightarrow> fw_state option \<Rightarrow> u32 \<Rightarrow> u64 \<Rightarrow> heap \<Rightarrow> (fw_manager option \<times> fw_state option \<times> heap) option" where
  "fw_flow_manager_allocate mem allocated expiration_time max_flows h =
     (case malloc h of
        (None, h) \<Rightarrow> Some (None, allocated, h)
      | (Some manager, h) \<Rightarrow> do {
          (st, allocated, h) \<leftarrow> fw_alloc_state mem allocated (sint (ucast max_flows :: 32 word)) h;
          case st of
            None \<Rightarrow> Some (None, allocated, h)
          | Some st \<Rightarrow> Some (Some \<lparr>fmg_state = st, fmg_expiration_time = expiration_time\<rparr>, allocated, h)
        })"

definition fw_flow_manager_allocate_flow :: "fw_manager \<Rightarrow> Flow \<Rightarrow> int \<Rightarrow> (fw_manager \<times> bool) option" where
  "fw_flow_manager_allocate_flow manager fid time = do {
     let st = fmg_state manager;
     (r, heap, index) \<leftarrow> dchain_allocate_new_index (fst_heap st) 0 time;
     let st = st\<lparr>fst_heap := heap\<rparr>;
     if r = 0 then Some (manager\<lparr>fmg_state := st\<rparr>, False)
     else do {
       let key = vector_borrow (fst_fv st) index;
       fv \<leftarrow> vector_store (fst_fv st) key fid;
       fm \<leftarrow> map_put (key_at fv) (fst_fm st) (At key) index;
       let fv = vector_return fv index key;
       Some (manager\<lparr>fmg_state := st\<lparr>fst_fm := fm, fst_fv := fv\<rparr>\<rparr>, True)
     }
   }"

definition fw_flow_manager_expire :: "fw_manager \<Rightarrow> int \<Rightarrow> fw_manager option" where
  "fw_flow_manager_expire manager time = do {
     assertion (0 \<le> time);
     let time_u = (word_of_int time :: 64 word);
     let last_time = sint (time_u - ucast (fmg_expiration_time manager));
     let st = fmg_state manager;
     (count, heap, fv, fm) \<leftarrow> expire_items_single_map (key_at (fst_fv st)) (fst_heap st) (fst_fv st) (fst_fm st) last_time;
     Some (manager\<lparr>fmg_state := st\<lparr>fst_heap := heap, fst_fv := fv, fst_fm := fm\<rparr>\<rparr>)
   }"

definition fw_flow_manager_get :: "fw_manager \<Rightarrow> Flow \<Rightarrow> int \<Rightarrow> (fw_manager \<times> bool) option" where
  "fw_flow_manager_get manager fid time = do {
     let st = fmg_state manager;
     (found, index) \<leftarrow> map_get (key_at (fst_fv st)) (fst_fm st) (Obj fid) 0;
     if found = 0 then Some (manager, False)
     else do {
       (r, heap) \<leftarrow> dchain_rejuvenate_index (fst_heap st) index time;
       Some (manager\<lparr>fmg_state := st\<lparr>fst_heap := heap\<rparr>\<rparr>, True)
     }
   }"

section \<open>The packet handler\<close>

record fw_config =
  fcfg_lan_device :: u16
  fcfg_wan_device :: u16
  fcfg_capacity :: u32
  fcfg_expiration_time :: u32
  fcfg_device_macs :: "u8 list list"
  fcfg_endpoint_macs :: "u8 list list"

definition fw_core_init ::
  "Flow uninit \<Rightarrow> fw_state option \<Rightarrow> fw_config \<Rightarrow> heap \<Rightarrow> (fw_manager option \<times> heap) option" where
  "fw_core_init mem allocated config h = do {
     (flow_manager, allocated, h) \<leftarrow> fw_flow_manager_allocate mem allocated (fcfg_expiration_time config)
       (ucast (fcfg_capacity config)) h;
     Some (flow_manager, h)
   }"

text \<open>The end of the handler: the Ethernet addresses of the outgoing device.\<close>

definition fw_send ::
  "fw_config \<Rightarrow> fw_manager \<Rightarrow> mbuf \<Rightarrow> nat \<Rightarrow> u16 \<Rightarrow> (int \<times> fw_manager \<times> mbuf) option" where
  "fw_send config flow_manager mbuf ether_header dst_device = do {
     let d = mbuf_data mbuf;
     s_addr \<leftarrow> rd (fcfg_device_macs config) (uint dst_device);
     d \<leftarrow> st_bytes d (ether_header + ether_s_addr) s_addr;
     d_addr \<leftarrow> rd (fcfg_endpoint_macs config) (uint dst_device);
     d \<leftarrow> st_bytes d (ether_header + ether_d_addr) d_addr;
     Some (uint dst_device, flow_manager, mbuf\<lparr>mbuf_data := d\<rparr>)
   }"

definition fw_core_process ::
  "fw_config \<Rightarrow> fw_manager \<Rightarrow> mbuf \<Rightarrow> int \<Rightarrow> (int \<times> fw_manager \<times> mbuf) option" where
  "fw_core_process config flow_manager mbuf now = do {
     let in_port = uint (mbuf_port mbuf);
     flow_manager \<leftarrow> fw_flow_manager_expire flow_manager now;
     let ether_header = nf_get_mbuf_ether_header mbuf;
     let d = mbuf_data mbuf;
     ip \<leftarrow> nf_get_mbuf_ipv4_header mbuf;
     case ip of None \<Rightarrow> Some (in_port, flow_manager, mbuf) | Some ipv4_header \<Rightarrow> do {
     l4 \<leftarrow> nf_get_ipv4_tcpudp_header d ipv4_header;
     case l4 of None \<Rightarrow> Some (in_port, flow_manager, mbuf) | Some tcpudp_header \<Rightarrow> do {
     sp \<leftarrow> ld16 d (tcpudp_header + tcpudp_src_port);
     dp \<leftarrow> ld16 d (tcpudp_header + tcpudp_dst_port);
     sa \<leftarrow> ld32 d (ipv4_header + src_addr);
     da \<leftarrow> ld32 d (ipv4_header + dst_addr);
     proto \<leftarrow> ld8 d (ipv4_header + next_proto_id);
     if in_port = uint (fcfg_wan_device config) then do {
       let fid = \<lparr>fl_src_port = dp, fl_dst_port = sp, fl_src_ip = da, fl_dst_ip = sa, fl_protocol = proto\<rparr>;
       (flow_manager, found) \<leftarrow> fw_flow_manager_get flow_manager fid now;
       if found then fw_send config flow_manager mbuf ether_header (fcfg_lan_device config)
       else Some (in_port, flow_manager, mbuf)
     } else do {
       let fid = \<lparr>fl_src_port = sp, fl_dst_port = dp, fl_src_ip = sa, fl_dst_ip = da, fl_protocol = proto\<rparr>;
       (flow_manager, found) \<leftarrow> fw_flow_manager_get flow_manager fid now;
       if found then fw_send config flow_manager mbuf ether_header (fcfg_wan_device config)
       else do {
         (flow_manager, allocated) \<leftarrow> fw_flow_manager_allocate_flow flow_manager fid now;
         if \<not> allocated then Some (in_port, flow_manager, mbuf)
         else fw_send config flow_manager mbuf ether_header (fcfg_wan_device config)
       }
     }
     }
     }
   }"

section \<open>Flows: equality and hash\<close>

lemma fw_flow_eq_iff: "fw_flow_eq a b \<longleftrightarrow> a = b"
  by (cases a; cases b) (auto simp: fw_flow_eq_def)

section \<open>The flow manager implements the abstract table\<close>

definition fw_rep :: "Flow flows \<Rightarrow> int \<Rightarrow> fw_manager \<Rightarrow> bool" where
  "fw_rep T now mg \<longleftrightarrow>
     flow_rep T now (fst_fm (fmg_state mg)) (fst_fv (fmg_state mg)) (fst_heap (fmg_state mg))"

definition fw_table_size :: "fw_manager \<Rightarrow> int" where
  "fw_table_size mg = v_capacity (fst_fv (fmg_state mg))"

definition fw_same_config :: "fw_manager \<Rightarrow> fw_manager \<Rightarrow> bool" where
  "fw_same_config mg mg' \<longleftrightarrow>
     fmg_expiration_time mg' = fmg_expiration_time mg \<and> fw_table_size mg' = fw_table_size mg"

lemma fw_same_config_refl [simp]: "fw_same_config mg mg"
  by (simp add: fw_same_config_def)

lemma fw_same_config_trans: "fw_same_config a b \<Longrightarrow> fw_same_config b c \<Longrightarrow> fw_same_config a c"
  by (simp add: fw_same_config_def)

lemma fw_rep_later: "fw_rep T t mg \<Longrightarrow> t \<le> now \<Longrightarrow> fw_rep T now mg"
  unfolding fw_rep_def by (rule flow_rep_later)

lemma fw_expire_correct:
  assumes "fw_rep T t0 mg" "0 \<le> now" "now < 2 ^ 63"
  shows "\<exists>mg'. fw_flow_manager_expire mg now = Some mg' \<and>
    fw_rep (expire_flows T (now - uint (fmg_expiration_time mg))) t0 mg' \<and> fw_same_config mg mg'"
proof -
  let ?st = "fmg_state mg" and ?t = "now - uint (fmg_expiration_time mg)"
  obtain heap' fm' where e: "expire_items_single_map (key_at (fst_fv ?st)) (fst_heap ?st) (fst_fv ?st) (fst_fm ?st) ?t
      = Some (int (length T) - int (length (expire_flows T ?t)), heap', fst_fv ?st, fm')"
    "flow_rep (expire_flows T ?t) t0 fm' (fst_fv ?st) heap'"
    using flow_expire [OF assms(1) [unfolded fw_rep_def]] by blast
  then show ?thesis
    using assms by (simp add: Let_def fw_flow_manager_expire_def time_minus_u32 fw_rep_def fw_same_config_def
        fw_table_size_def)
qed

lemma fw_get_known:
  assumes "fw_rep T t0 mg" "find_flow T fid = Some i" "t0 \<le> now"
  shows "\<exists>mg'. fw_flow_manager_get mg fid now = Some (mg', True) \<and>
    fw_rep (touch_flow T i now) now mg' \<and> fw_same_config mg mg'"
proof -
  let ?st = "fmg_state mg"
  note rep = assms(1) [unfolded fw_rep_def]
  obtain t where "(fid, i, t) \<in> set T" using assms(2) find_flow_Some [OF flow_rep_wf [OF rep]] by blast
  then obtain heap' where "dchain_rejuvenate_index (fst_heap ?st) i now = Some (1, heap')"
    "flow_rep (touch_flow T i now) now (fst_fm ?st) (fst_fv ?st) heap'"
    using flow_rejuvenate [OF rep _ assms(3)] by blast
  then show ?thesis
    using flow_get [OF rep, of fid 0] assms(2)
    by (simp add: Let_def fw_flow_manager_get_def fw_rep_def fw_same_config_def fw_table_size_def)
qed

lemma fw_get_unknown:
  assumes "fw_rep T t0 mg" "find_flow T fid = None"
  shows "fw_flow_manager_get mg fid now = Some (mg, False)"
  using flow_get [OF assms(1) [unfolded fw_rep_def], of fid 0] assms(2)
  by (simp add: Let_def fw_flow_manager_get_def)

lemma fw_allocate_flow_correct:
  assumes "fw_rep T t0 mg" "find_flow T fid = None" "int (length T) < fw_table_size mg" "t0 \<le> now"
  shows "\<exists>mg' i. fw_flow_manager_allocate_flow mg fid now = Some (mg', True) \<and>
    0 \<le> i \<and> i < fw_table_size mg \<and> (\<forall>k t. (k, i, t) \<notin> set T) \<and>
    fw_rep (add_flow T fid i now) now mg' \<and> fw_same_config mg mg'"
proof -
  let ?st = "fmg_state mg"
  note rep = assms(1) [unfolded fw_rep_def]
  obtain heap' i fv' fm' where "dchain_allocate_new_index (fst_heap ?st) 0 now = Some (1, heap', i)"
    "0 \<le> i" "i < fw_table_size mg" "\<forall>k t. (k, i, t) \<notin> set T"
    "vector_store (fst_fv ?st) (vector_borrow (fst_fv ?st) i) fid = Some fv'"
    "fv' = (fst_fv ?st)\<lparr>v_elems := (v_elems (fst_fv ?st))[nat i := fid]\<rparr>"
    "map_put (key_at fv') (fst_fm ?st) (At (vector_borrow (fst_fv ?st) i)) i = Some fm'"
    "flow_rep (add_flow T fid i now) now fm' fv' heap'"
    using flow_allocate [OF rep assms(3) [unfolded fw_table_size_def] assms(2,4), of 0]
    unfolding fw_table_size_def by blast
  then show ?thesis
    by (auto simp: Let_def fw_flow_manager_allocate_flow_def fw_rep_def fw_same_config_def fw_table_size_def
        vector_return_def)
qed

lemma fw_allocate_flow_full:
  assumes "fw_rep T t0 mg" "int (length T) = fw_table_size mg"
  shows "fw_flow_manager_allocate_flow mg fid now = Some (mg, False)"
  using flow_allocate_full [OF assms(1) [unfolded fw_rep_def] assms(2) [unfolded fw_table_size_def], of 0]
  by (simp add: Let_def fw_flow_manager_allocate_flow_def)

section \<open>The firewall as a step relation on flow tables\<close>

definition fw_flow_of :: "mbuf \<Rightarrow> Flow" where
  "fw_flow_of mbuf =
     (let d = mbuf_data mbuf in
      \<lparr>fl_src_port = get16 d (l4_off d), fl_dst_port = get16 d (l4_off d + 2),
       fl_src_ip = get32 d 26, fl_dst_ip = get32 d 30, fl_protocol = d ! 23\<rparr>)"

definition flip :: "Flow \<Rightarrow> Flow" where
  "flip f = f\<lparr>fl_src_port := fl_dst_port f, fl_dst_port := fl_src_port f,
     fl_src_ip := fl_dst_ip f, fl_dst_ip := fl_src_ip f\<rparr>"

lemma flip_flip [simp]: "flip (flip f) = f"
  by (simp add: flip_def)

definition fw_parsed :: "mbuf \<Rightarrow> bool" where
  "fw_parsed mbuf \<longleftrightarrow> is_ipv4 (mbuf_data mbuf) \<and> is_tcpudp (mbuf_data mbuf)"

text \<open>
  One packet: \<open>T\<close> is the table before, with the flows that are too old already removed; \<open>None\<close> is a
  dropped packet, \<open>Some dev\<close> one that is forwarded to \<open>dev\<close>.
\<close>

inductive fw_spec_step :: "fw_config \<Rightarrow> int \<Rightarrow> Flow flows \<Rightarrow> mbuf \<Rightarrow> int \<Rightarrow> u16 option \<Rightarrow> Flow flows \<Rightarrow> bool"
  for config cap where
  other: "\<not> fw_parsed mbuf \<Longrightarrow> fw_spec_step config cap T mbuf now None T"
| answer: "fw_parsed mbuf \<Longrightarrow> mbuf_port mbuf = fcfg_wan_device config \<Longrightarrow>
    find_flow T (flip (fw_flow_of mbuf)) = Some i \<Longrightarrow>
    fw_spec_step config cap T mbuf now (Some (fcfg_lan_device config)) (touch_flow T i now)"
| unsolicited: "fw_parsed mbuf \<Longrightarrow> mbuf_port mbuf = fcfg_wan_device config \<Longrightarrow>
    find_flow T (flip (fw_flow_of mbuf)) = None \<Longrightarrow> fw_spec_step config cap T mbuf now None T"
| known: "fw_parsed mbuf \<Longrightarrow> mbuf_port mbuf \<noteq> fcfg_wan_device config \<Longrightarrow>
    find_flow T (fw_flow_of mbuf) = Some i \<Longrightarrow>
    fw_spec_step config cap T mbuf now (Some (fcfg_wan_device config)) (touch_flow T i now)"
| new: "fw_parsed mbuf \<Longrightarrow> mbuf_port mbuf \<noteq> fcfg_wan_device config \<Longrightarrow>
    find_flow T (fw_flow_of mbuf) = None \<Longrightarrow> int (length T) < cap \<Longrightarrow> 0 \<le> i \<Longrightarrow> i < cap \<Longrightarrow>
    (\<forall>k t. (k, i, t) \<notin> set T) \<Longrightarrow>
    fw_spec_step config cap T mbuf now (Some (fcfg_wan_device config)) (add_flow T (fw_flow_of mbuf) i now)"
| full: "fw_parsed mbuf \<Longrightarrow> mbuf_port mbuf \<noteq> fcfg_wan_device config \<Longrightarrow>
    find_flow T (fw_flow_of mbuf) = None \<Longrightarrow> int (length T) = cap \<Longrightarrow> fw_spec_step config cap T mbuf now None T"

inductive_cases fw_forwardedE: "fw_spec_step config cap T mbuf now (Some dev) T'"
inductive_cases fw_stepE: "fw_spec_step config cap T mbuf now res T'"

text \<open>What is done to the packet: nothing when it is dropped, new Ethernet addresses when it is forwarded.\<close>

definition with_macs :: "fw_config \<Rightarrow> u16 \<Rightarrow> mbuf \<Rightarrow> mbuf" where
  "with_macs config dev mbuf =
     mbuf\<lparr>mbuf_data := put_bytes (put_bytes (mbuf_data mbuf) 6 (fcfg_device_macs config ! unat dev)) 0
       (fcfg_endpoint_macs config ! unat dev)\<rparr>"

definition fw_output :: "fw_config \<Rightarrow> mbuf \<Rightarrow> u16 option \<Rightarrow> int \<times> mbuf" where
  "fw_output config mbuf res =
     (case res of None \<Rightarrow> (uint (mbuf_port mbuf), mbuf) | Some dev \<Rightarrow> (uint dev, with_macs config dev mbuf))"

definition fw_config_ok :: "fw_config \<Rightarrow> bool" where
  "fw_config_ok config \<longleftrightarrow>
     (\<forall>dev\<in>{fcfg_lan_device config, fcfg_wan_device config}.
        unat dev < length (fcfg_device_macs config) \<and> unat dev < length (fcfg_endpoint_macs config) \<and>
        length (fcfg_device_macs config ! unat dev) = 6 \<and> length (fcfg_endpoint_macs config ! unat dev) = 6)"

lemma fw_send_correct:
  assumes "mbuf_ok mbuf" "fw_config_ok config" "dev \<in> {fcfg_lan_device config, fcfg_wan_device config}"
  shows "fw_send config mg mbuf 0 dev = Some (uint dev, mg, with_macs config dev mbuf)"
  using assms by (auto simp: fw_send_def fw_config_ok_def mbuf_ok_def layout rd_mac st_bytes_def with_macs_def Let_def)

lemma fw_process_steps:
  assumes "fw_flow_manager_expire mg now = Some mg1" "mbuf_ok mbuf" "fw_parsed mbuf"
  shows "fw_core_process config mg mbuf now =
    (if mbuf_port mbuf = fcfg_wan_device config then do {
       (mg2, found) \<leftarrow> fw_flow_manager_get mg1 (flip (fw_flow_of mbuf)) now;
       if found then fw_send config mg2 mbuf 0 (fcfg_lan_device config)
       else Some (uint (mbuf_port mbuf), mg2, mbuf)
     } else do {
       (mg2, found) \<leftarrow> fw_flow_manager_get mg1 (fw_flow_of mbuf) now;
       if found then fw_send config mg2 mbuf 0 (fcfg_wan_device config)
       else do {
         (mg3, allocated) \<leftarrow> fw_flow_manager_allocate_flow mg2 (fw_flow_of mbuf) now;
         if \<not> allocated then Some (uint (mbuf_port mbuf), mg3, mbuf)
         else fw_send config mg3 mbuf 0 (fcfg_wan_device config)
       }
     })"
proof -
  have len: "54 \<le> length (mbuf_data mbuf)" using assms(2) by (simp add: mbuf_ok_def)
  have l4: "l4_off (mbuf_data mbuf) \<le> 29" by (rule l4_off_le)
  show ?thesis
    using assms(1,3) len l4
    by (simp add: fw_core_process_def fw_parsed_def parsed_headers [OF assms(2)] layout pkt fw_flow_of_def flip_def
        nf_get_mbuf_ether_header_def Let_def word_uint_eq_iff cong: if_cong cong del: bind_weak_cong)
qed

lemma fw_refines_wan:
  assumes "fw_rep T t0 mg1" "t0 \<le> now" "mbuf_ok mbuf" "fw_parsed mbuf" "fw_config_ok config"
    "mbuf_port mbuf = fcfg_wan_device config"
  shows "\<exists>res T' mg'. (do {
       (mg2, found) \<leftarrow> fw_flow_manager_get mg1 (flip (fw_flow_of mbuf)) now;
       if found then fw_send config mg2 mbuf 0 (fcfg_lan_device config)
       else Some (uint (mbuf_port mbuf), mg2, mbuf)
     }) = Some (fst (fw_output config mbuf res), mg', snd (fw_output config mbuf res)) \<and>
    fw_spec_step config (fw_table_size mg1) T mbuf now res T' \<and> fw_rep T' now mg' \<and> fw_same_config mg1 mg'"
proof (cases "find_flow T (flip (fw_flow_of mbuf))")
  case None
  note unk = fw_get_unknown [OF assms(1) None]
  show ?thesis
    by (rule exI [of _ None], rule exI [of _ T], rule exI [of _ mg1])
      (use unk fw_spec_step.unsolicited [OF assms(4,6) None] fw_rep_later [OF assms(1,2)] in
        \<open>simp add: fw_output_def\<close>)
next
  case (Some i)
  obtain mg2 where "fw_flow_manager_get mg1 (flip (fw_flow_of mbuf)) now = Some (mg2, True)"
    "fw_rep (touch_flow T i now) now mg2" "fw_same_config mg1 mg2"
    using fw_get_known [OF assms(1) Some assms(2)] by blast
  then show ?thesis
    by (intro exI [of _ "Some (fcfg_lan_device config)"] exI [of _ "touch_flow T i now"] exI [of _ mg2])
      (use fw_spec_step.answer [OF assms(4,6) Some] in \<open>simp add: fw_output_def fw_send_correct [OF assms(3,5)]\<close>)
qed

lemma fw_refines_lan:
  assumes "fw_rep T t0 mg1" "t0 \<le> now" "mbuf_ok mbuf" "fw_parsed mbuf" "fw_config_ok config"
    "mbuf_port mbuf \<noteq> fcfg_wan_device config"
  shows "\<exists>res T' mg'. (do {
       (mg2, found) \<leftarrow> fw_flow_manager_get mg1 (fw_flow_of mbuf) now;
       if found then fw_send config mg2 mbuf 0 (fcfg_wan_device config)
       else do {
         (mg3, allocated) \<leftarrow> fw_flow_manager_allocate_flow mg2 (fw_flow_of mbuf) now;
         if \<not> allocated then Some (uint (mbuf_port mbuf), mg3, mbuf)
         else fw_send config mg3 mbuf 0 (fcfg_wan_device config)
       }
     }) = Some (fst (fw_output config mbuf res), mg', snd (fw_output config mbuf res)) \<and>
    fw_spec_step config (fw_table_size mg1) T mbuf now res T' \<and> fw_rep T' now mg' \<and> fw_same_config mg1 mg'"
proof (cases "find_flow T (fw_flow_of mbuf)")
  case (Some i)
  obtain mg2 where "fw_flow_manager_get mg1 (fw_flow_of mbuf) now = Some (mg2, True)"
    "fw_rep (touch_flow T i now) now mg2" "fw_same_config mg1 mg2"
    using fw_get_known [OF assms(1) Some assms(2)] by blast
  then show ?thesis
    by (intro exI [of _ "Some (fcfg_wan_device config)"] exI [of _ "touch_flow T i now"] exI [of _ mg2])
      (use fw_spec_step.known [OF assms(4,6) Some] in \<open>simp add: fw_output_def fw_send_correct [OF assms(3,5)]\<close>)
next
  case None
  note unk = fw_get_unknown [OF assms(1) None]
  have len: "int (length T) \<le> fw_table_size mg1"
    using flow_length [OF assms(1) [unfolded fw_rep_def]] by (simp add: fw_table_size_def)
  show ?thesis
  proof (cases "int (length T) = fw_table_size mg1")
    case True
    show ?thesis
      by (rule exI [of _ None], rule exI [of _ T], rule exI [of _ mg1])
        (use unk fw_allocate_flow_full [OF assms(1) True] fw_spec_step.full [OF assms(4,6) None True]
          fw_rep_later [OF assms(1,2)] in \<open>simp add: fw_output_def\<close>)
  next
    case False
    then have space: "int (length T) < fw_table_size mg1" using len by simp
    obtain mg2 i where "fw_flow_manager_allocate_flow mg1 (fw_flow_of mbuf) now = Some (mg2, True)"
      and i: "0 \<le> i" "i < fw_table_size mg1" "\<forall>k t. (k, i, t) \<notin> set T"
      and "fw_rep (add_flow T (fw_flow_of mbuf) i now) now mg2" "fw_same_config mg1 mg2"
      using fw_allocate_flow_correct [OF assms(1) None space assms(2)] by blast
    then show ?thesis
      by (intro exI [of _ "Some (fcfg_wan_device config)"] exI [of _ "add_flow T (fw_flow_of mbuf) i now"] exI [of _ mg2])
        (use unk fw_spec_step.new [OF assms(4,6) None space i] in
          \<open>simp add: fw_output_def fw_send_correct [OF assms(3,5)]\<close>)
  qed
qed

lemma fw_process_refines:
  assumes rep: "fw_rep T t0 mg" and time: "0 \<le> now" "now < 2 ^ 63" "t0 \<le> now" and mbuf: "mbuf_ok mbuf"
    and config: "fw_config_ok config"
  shows "\<exists>res T' mg'. fw_core_process config mg mbuf now
      = Some (fst (fw_output config mbuf res), mg', snd (fw_output config mbuf res)) \<and>
    fw_spec_step config (fw_table_size mg) (expire_flows T (now - uint (fmg_expiration_time mg))) mbuf now res T' \<and>
    fw_rep T' now mg' \<and> fw_same_config mg mg'"
proof -
  let ?T = "expire_flows T (now - uint (fmg_expiration_time mg))"
  obtain mg1 where m1: "fw_flow_manager_expire mg now = Some mg1" "fw_rep ?T t0 mg1" "fw_same_config mg mg1"
    using fw_expire_correct [OF rep time(1,2)] by blast
  have size: "fw_table_size mg1 = fw_table_size mg" using m1(3) by (simp add: fw_same_config_def)
  show ?thesis
  proof (cases "fw_parsed mbuf")
    case False
    then have "fw_core_process config mg mbuf now = Some (uint (mbuf_port mbuf), mg1, mbuf)"
      using m1(1) parsed_headers [OF mbuf] by (auto simp: fw_core_process_def Let_def fw_parsed_def)
    then show ?thesis
      by (intro exI [of _ None] exI [of _ ?T] exI [of _ mg1])
        (use fw_spec_step.other [OF False] fw_rep_later [OF m1(2) time(3)] m1(3) in \<open>simp add: fw_output_def\<close>)
  next
    case True
    note steps = fw_process_steps [OF m1(1) mbuf True, of config]
    show ?thesis
      using fw_refines_wan [OF m1(2) time(3) mbuf True config] fw_refines_lan [OF m1(2) time(3) mbuf True config]
        fw_same_config_trans [OF m1(3)]
      unfolding steps size by (cases "mbuf_port mbuf = fcfg_wan_device config") (simp, blast)+
  qed
qed

section \<open>Allocation of the state\<close>

lemma fw_alloc_state_correct:
  assumes "heap_ok h" "capacity_ok n" "sizeof_Flow * int n < 2 ^ 32"
    "fw_alloc_state mem None (int n) h = Some (Some st, al, h')"
  shows "flow_rep [] 0 (fst_fm st) (fst_fv st) (fst_heap st) \<and> v_capacity (fst_fv st) = int n"
proof -
  obtain ret h1 where h1: "malloc h = (Some ret, h1)"
    using assms(4) by (auto simp: fw_alloc_state_def split: prod.splits option.splits)
  then have ok1: "heap_ok h1" using malloc_Some(3) [OF _ assms(1)] by blast
  obtain r2 fm h2 where h2: "map_allocate fw_flow_eq fw_flow_hash (int n) None (u_ints mem) (u_ptrs mem) h1
      = Some (r2, fm, h2)" "r2 \<noteq> 0"
    using assms(4) h1 by (auto simp: fw_alloc_state_def bind_eq_Some_conv split: if_splits)
  obtain r3 fv h3 where h3: "vector_allocate sizeof_Flow (int n) fw_flow_allocate None (u_addr mem) (u_elems mem) h2
      = Some (r3, fv, h3)" "r3 \<noteq> 0"
    using assms(4) h1 h2 by (auto simp: fw_alloc_state_def bind_eq_Some_conv split: if_splits)
  obtain r4 heap h4 where h4: "dchain_allocate (int n) None (u_cells mem) (u_times mem) h3 = Some (r4, heap, h4)"
    "r4 \<noteq> 0"
    using assms(4) h1 h2 h3 by (auto simp: fw_alloc_state_def bind_eq_Some_conv split: if_splits)
  obtain m v c where "fm = Some m" "fv = Some v" "heap = Some c" "flow_rep [] 0 m v c" "v_capacity v = int n"
    using containers_allocated [where kv = "\<lambda>k. k", OF ok1 assms(2) fw_flow_eq_iff _ assms(3) h2 h3 h4] by (auto simp: sizeof_Flow_def)
  then show ?thesis
    using assms(4) h1 h2 h3 h4 by (auto simp: fw_alloc_state_def Let_def)
qed

lemma fw_core_init_correct:
  assumes "heap_ok h" "capacity_ok n" "sizeof_Flow * int n < 2 ^ 32" "uint (fcfg_capacity config) = int n"
    "fw_core_init mem None config h = Some (Some mg, h')"
  shows "fw_rep [] 0 mg" "fw_table_size mg = int n" "fmg_expiration_time mg = fcfg_expiration_time config"
proof -
  have n: "n < 2 ^ 31" using assms(3) by (simp add: sizeof_Flow_def)
  obtain b h1 where h1: "malloc h = (Some b, h1)"
    using assms(5) by (auto simp: fw_core_init_def fw_flow_manager_allocate_def bind_eq_Some_conv
        split: prod.splits option.splits)
  then have ok1: "heap_ok h1" using malloc_Some(3) [OF _ assms(1)] by blast
  obtain st al h2 where h2: "fw_alloc_state mem None (int n) h1 = Some (Some st, al, h2)"
    and mg: "mg = \<lparr>fmg_state = st, fmg_expiration_time = fcfg_expiration_time config\<rparr>"
    using assms(5) h1 capacity_conversion [OF assms(4) n]
    by (auto simp: fw_core_init_def fw_flow_manager_allocate_def bind_eq_Some_conv split: option.splits)
  from fw_alloc_state_correct [OF ok1 assms(2,3) h2]
  show "fw_rep [] 0 mg" "fw_table_size mg = int n" "fmg_expiration_time mg = fcfg_expiration_time config"
    by (simp_all add: mg fw_rep_def fw_table_size_def)
qed

section \<open>Runs\<close>

text \<open>The handler as a step function, and as a step of the table that a configuration asks for.\<close>

definition fw_step :: "fw_config \<Rightarrow> fw_manager \<Rightarrow> mbuf \<Rightarrow> int \<Rightarrow> ((int \<times> mbuf) \<times> fw_manager) option" where
  "fw_step config mg mbuf now =
     map_option (\<lambda>(dev, mg', mbuf'). ((dev, mbuf'), mg')) (fw_core_process config mg mbuf now)"

definition fw_table_step :: "fw_config \<Rightarrow> Flow flows \<Rightarrow> mbuf \<Rightarrow> int \<Rightarrow> int \<times> mbuf \<Rightarrow> Flow flows \<Rightarrow> bool" where
  "fw_table_step config T mbuf now sent T' \<longleftrightarrow>
     (\<exists>res. sent = fw_output config mbuf res \<and>
        fw_spec_step config (uint (fcfg_capacity config))
          (expire_flows T (now - uint (fcfg_expiration_time config))) mbuf now res T')"

definition fw_holds :: "fw_config \<Rightarrow> Flow flows \<Rightarrow> int \<Rightarrow> fw_manager \<Rightarrow> bool" where
  "fw_holds config T t mg \<longleftrightarrow> fw_rep T t mg \<and> fw_config_ok config \<and>
     fw_table_size mg = uint (fcfg_capacity config) \<and> fmg_expiration_time mg = fcfg_expiration_time config"

definition fw_started :: "fw_config \<Rightarrow> fw_manager \<Rightarrow> bool" where
  "fw_started config mg \<longleftrightarrow> (\<exists>mem h h'. heap_ok h \<and> fw_core_init mem None config h = Some (Some mg, h'))"

interpretation fwr: refined_by_table "fw_step config" mbuf_ok "fw_table_step config" "fw_holds config" for config
proof
  fix T t s now p
  assume "fw_holds config T t s" "0 \<le> t" "t \<le> now" "now < 2 ^ 63" "mbuf_ok p"
  then show "\<exists>res s' T'. fw_step config s p now = Some (res, s') \<and> fw_table_step config T p now res T' \<and> fw_holds config T' now s'"
    using fw_process_refines [of T t s now p config]
    by (fastforce simp: fw_step_def fw_table_step_def fw_holds_def fw_same_config_def)
qed

lemma fw_started_holds:
  assumes "fw_started config mg" "fw_config_ok config" "capacity_ok n" "sizeof_Flow * int n < 2 ^ 32"
    "uint (fcfg_capacity config) = int n"
  shows "fw_holds config [] 0 mg"
proof -
  obtain mem h h' where h: "heap_ok h" "fw_core_init mem None config h = Some (Some mg, h')"
    using assms(1) by (auto simp: fw_started_def)
  from fw_core_init_correct [OF h(1) assms(3-5) h(2)] assms(2,5) show ?thesis by (simp add: fw_holds_def)
qed

lemma fw_holds_wf:
  assumes "fw_holds config T t mg"
  shows "flows_wf (expire_flows T time) (uint (fcfg_capacity config)) t"
proof -
  have "flow_rep T t (fst_fm (fmg_state mg)) (fst_fv (fmg_state mg)) (fst_heap (fmg_state mg))"
    "v_capacity (fst_fv (fmg_state mg)) = uint (fcfg_capacity config)"
    using assms by (simp_all add: fw_holds_def fw_rep_def fw_table_size_def)
  then show ?thesis using flows_wf_expire [OF flow_rep_wf] by metis
qed

text \<open>A flow that is in the table when the packets start is still there as long as it has not expired.\<close>

lemma fw_spec_step_keeps:
  assumes "fw_spec_step config cap T mbuf now res T'" "(f, i, u) \<in> set T" "u \<le> now"
  shows "\<exists>u'. (f, i, u') \<in> set T' \<and> u \<le> u'"
proof -
  have "\<exists>u'. (f, i, u') \<in> set (touch_flow T j now) \<and> u \<le> u'" for j
    using assms(2,3) by (cases "i = j") (auto simp: touch_flow_member)
  then show ?thesis using assms(1,2) by (auto elim!: fw_stepE simp: add_flow_def)
qed

lemma fw_run_keeps:
  assumes run: "nf_run (fw_step config) mbuf_ok mg t ps mg' t'" and rep: "fw_holds config T t mg" "0 \<le> t"
    and flow: "(f, i, u) \<in> set T" "t' - uint (fcfg_expiration_time config) \<le> u"
  shows "\<exists>T' u'. fw_holds config T' t' mg' \<and> (f, i, u') \<in> set T' \<and> u \<le> u'"
proof -
  have "\<exists>T'. fw_holds config T' t' mg' \<and> (\<exists>u'. (f, i, u') \<in> set T' \<and> u \<le> u')"
  proof (rule fwr.run_invariant [OF run rep, where Q = "\<lambda>T ps t. \<exists>u'. (f, i, u') \<in> set T \<and> u \<le> u'"])
    show "\<exists>u'. (f, i, u') \<in> set T \<and> u \<le> u'" using flow(1) by auto
  next
    fix T t1 s1 now p res T' and ps :: "(mbuf \<times> int) list"
    assume h: "fw_holds config T t1 s1" "\<exists>u'. (f, i, u') \<in> set T \<and> u \<le> u'" "t1 \<le> now" "now \<le> t'"
      and step: "fw_table_step config T p now res T'"
    let ?T = "expire_flows T (now - uint (fcfg_expiration_time config))"
    obtain u' where u': "(f, i, u') \<in> set ?T" "u \<le> u'" using h(2,4) flow(2) by (auto simp: expire_flows_member)
    have "u' \<le> now" using flows_wfD [OF fw_holds_wf [OF h(1)] u'(1)] h(3) by simp
    then show "\<exists>u'. (f, i, u') \<in> set T' \<and> u \<le> u'"
      using step u' fw_spec_step_keeps by (fastforce simp: fw_table_step_def)
  qed
  then show ?thesis by blast
qed

text \<open>Every flow in the table was opened from inside, and its time is that of a packet of the flow.\<close>

definition fw_belongs :: "fw_config \<Rightarrow> Flow \<Rightarrow> mbuf \<Rightarrow> bool" where
  "fw_belongs config f mbuf \<longleftrightarrow> fw_parsed mbuf \<and>
     f = (if mbuf_port mbuf = fcfg_wan_device config then flip (fw_flow_of mbuf) else fw_flow_of mbuf)"

definition fw_justified :: "fw_config \<Rightarrow> (mbuf \<times> int) list \<Rightarrow> Flow \<times> int \<times> int \<Rightarrow> bool" where
  "fw_justified config ps e \<longleftrightarrow> (case e of (f, i, u) \<Rightarrow>
     (\<exists>m s. (m, s) \<in> set ps \<and> mbuf_port m \<noteq> fcfg_wan_device config \<and> fw_belongs config f m \<and> s \<le> u) \<and>
     (\<exists>m. (m, u) \<in> set ps \<and> fw_belongs config f m))"

lemma fw_justified_touch:
  assumes "fw_justified config ps (f, i, u)" "u \<le> now" "(mbuf, now) \<in> set ps" "fw_belongs config f mbuf"
  shows "fw_justified config ps (f, j, now)"
  using assms unfolding fw_justified_def by (simp, meson order_trans)

lemma fw_justified_more: "fw_justified config ps e \<Longrightarrow> fw_justified config (ps @ qs) e"
  unfolding fw_justified_def set_append by (cases e, simp, blast)

lemma fw_spec_step_justified:
  assumes "fw_spec_step config cap T mbuf now res T'" "\<forall>e\<in>set T. fw_justified config ps e"
    "\<forall>(f, i, u)\<in>set T. u \<le> now" "flows_wf T cap t"
  shows "\<forall>e\<in>set T'. fw_justified config (ps @ [(mbuf, now)]) e"
proof -
  have old: "fw_justified config (ps @ [(mbuf, now)]) e" if "e \<in> set T" for e
    using assms(2) that by (blast intro: fw_justified_more)
  have touched: "\<forall>e\<in>set (touch_flow T i now). fw_justified config (ps @ [(mbuf, now)]) e"
    if i: "find_flow T f = Some i" and b: "fw_belongs config f mbuf" for f i
  proof
    fix e assume e: "e \<in> set (touch_flow T i now)"
    obtain g j u where [simp]: "e = (g, j, u)" by (cases e)
    obtain u0 where f: "(f, i, u0) \<in> set T" using i find_flow_Some [OF assms(4)] by blast
    show "fw_justified config (ps @ [(mbuf, now)]) e"
    proof (cases "j = i")
      case False
      then show ?thesis using e old by (simp add: touch_flow_member)
    next
      case True
      then have "g = f" "u = now" using e f flows_wf_same_index [OF assms(4)] by (auto simp: touch_flow_member)
      moreover have "u0 \<le> now" using f assms(3) by auto
      ultimately show ?thesis using fw_justified_touch [OF old [OF f] _ _ b] by simp
    qed
  qed
  show ?thesis using assms(1)
  proof (rule fw_stepE)
    fix i
    assume "T' = touch_flow T i now" "find_flow T (flip (fw_flow_of mbuf)) = Some i" "fw_parsed mbuf"
      "mbuf_port mbuf = fcfg_wan_device config"
    then show ?thesis using touched by (simp add: fw_belongs_def)
  next
    fix i
    assume "T' = touch_flow T i now" "find_flow T (fw_flow_of mbuf) = Some i" "fw_parsed mbuf"
      "mbuf_port mbuf \<noteq> fcfg_wan_device config"
    then show ?thesis using touched by (simp add: fw_belongs_def)
  next
    fix i
    assume T': "T' = add_flow T (fw_flow_of mbuf) i now" and "fw_parsed mbuf" "mbuf_port mbuf \<noteq> fcfg_wan_device config"
    then have "fw_justified config (ps @ [(mbuf, now)]) (fw_flow_of mbuf, i, now)"
      by (auto simp: fw_justified_def fw_belongs_def)
    then show ?thesis using old by (auto simp: T' add_flow_def)
  qed (use old in auto)
qed

lemma fw_run_justified:
  assumes "nf_run (fw_step config) mbuf_ok mg 0 ps mg' t'" "fw_holds config [] 0 mg"
  shows "\<exists>T. fw_holds config T t' mg' \<and> (\<forall>e\<in>set T. fw_justified config ps e)"
proof (rule fwr.run_invariant [OF assms, where Q = "\<lambda>T ps t. \<forall>e\<in>set T. fw_justified config ps e"])
  fix T t1 s1 ps now p res T'
  assume h: "fw_holds config T t1 s1" "\<forall>e\<in>set T. fw_justified config ps e" "t1 \<le> now"
    and step: "fw_table_step config T p now res T'"
  let ?T = "expire_flows T (now - uint (fcfg_expiration_time config))"
  note wf = fw_holds_wf [OF h(1), of "now - uint (fcfg_expiration_time config)"]
  have "\<forall>e\<in>set ?T. fw_justified config ps e" using h(2) by (auto simp: expire_flows_def)
  moreover have "\<forall>(f, i, u)\<in>set ?T. u \<le> now" using flows_wfD [OF wf] h(3) by fastforce
  ultimately show "\<forall>e\<in>set T'. fw_justified config (ps @ [(p, now)]) e"
    using step fw_spec_step_justified [OF _ _ _ wf] by (fastforce simp: fw_table_step_def)
qed simp_all

section \<open>Example state\<close>

definition example_fw_config :: fw_config where
  "example_fw_config = \<lparr>fcfg_lan_device = 0, fcfg_wan_device = 1, fcfg_capacity = 2, fcfg_expiration_time = 100,
     fcfg_device_macs = [[1, 1, 1, 1, 1, 1], [2, 2, 2, 2, 2, 2]],
     fcfg_endpoint_macs = [[3, 3, 3, 3, 3, 3], [4, 4, 4, 4, 4, 4]]\<rparr>"

definition example_flow :: Flow where
  "example_flow = \<lparr>fl_src_port = 0, fl_dst_port = 0, fl_src_ip = 0, fl_dst_ip = 0, fl_protocol = 6\<rparr>"

definition example_fw :: fw_manager where
  "example_fw = \<lparr>fmg_state = \<lparr>fst_fm = small_flow_map, fst_fv = small_flow_vector example_flow,
     fst_heap = small_flow_chain, fst_max_flows = 2\<rparr>, fmg_expiration_time = 100\<rparr>"

definition example_fw_memory :: "Flow uninit" where
  "example_fw_memory = \<lparr>u_ints = \<lambda>_ _. 0, u_ptrs = \<lambda>_ _. At 0, u_cells = \<lambda>_ _. \<lparr>cell_prev = 0, cell_next = 0\<rparr>,
     u_times = \<lambda>_ _. 0, u_addr = \<lambda>_. 4096, u_elems = \<lambda>_ _. example_flow\<rparr>"

definition example_fw_heap :: heap where
  "example_fw_heap = \<lparr>outcomes = replicate 13 True, live = [], fresh = 0\<rparr>"

lemma example_fw_rep: "fw_rep [] 0 example_fw" "fw_table_size example_fw = 2" "fmg_expiration_time example_fw = 100"
  using small_flow_rep by (simp_all add: fw_rep_def example_fw_def fw_table_size_def small_flow_vector_def)

lemma example_fw_config_ok: "fw_config_ok example_fw_config"
  by (simp add: fw_config_ok_def example_fw_config_def)

lemma example_fw_holds: "fw_holds example_fw_config [] 0 example_fw"
  using example_fw_rep example_fw_config_ok by (simp add: fw_holds_def example_fw_config_def)

lemma example_fw_packet:
  "fw_parsed (example_tcp dev p)" "fw_flow_of (example_tcp dev 0) = example_flow" "flip example_flow = example_flow"
  by (simp_all add: fw_parsed_def example_tcp_ok fw_flow_of_def example_flow_def flip_def Let_def)
    (simp add: example_tcp_def get16_def get32_def put16_def nth_append)

lemma example_fw_started: "\<exists>mg. fw_started example_fw_config mg"
proof -
  let ?mem = example_fw_memory
  obtain h1 where h1: "malloc example_fw_heap = (Some 0, h1)" "outcomes h1 = replicate 12 True"
    by (simp add: malloc_def example_fw_heap_def numeral_eq_Suc)
  obtain b h2 where h2: "malloc h1 = (Some b, h2)" "outcomes h2 = replicate 6 True @ replicate 5 True"
    using h1(2) by (simp add: malloc_def numeral_eq_Suc)
  obtain m h3 where h3: "map_allocate fw_flow_eq fw_flow_hash (int 2) None (u_ints ?mem) (u_ptrs ?mem) h2 = Some (1, Some m, h3)"
    "outcomes h3 = True # True # replicate 3 True"
    using map_allocate_plenty [OF h2(2)] by (fastforce simp: numeral_eq_Suc)
  obtain v h4 where h4: "vector_allocate sizeof_Flow (int 2) fw_flow_allocate None (u_addr ?mem) (u_elems ?mem) h3
      = Some (1, Some v, h4)" "outcomes h4 = True # True # True # []"
    using vector_allocate_plenty [OF h3(2), of sizeof_Flow 2] by (fastforce simp: sizeof_Flow_def numeral_eq_Suc)
  obtain c h5 where h5: "dchain_allocate (int 2) None (u_cells ?mem) (u_times ?mem) h4 = Some (1, Some c, h5)"
    using dchain_allocate_plenty [OF h4(2), of 2] by fastforce
  have "\<exists>mg h'. fw_core_init ?mem None example_fw_config example_fw_heap = Some (Some mg, h')"
    using h1(1) h2(1) h3(1) h4(1) h5
    by (simp add: fw_core_init_def fw_flow_manager_allocate_def fw_alloc_state_def example_fw_config_def Let_def)
  moreover have "heap_ok example_fw_heap" by (simp add: heap_ok_def example_fw_heap_def)
  ultimately show ?thesis by (auto simp: fw_started_def)
qed

section \<open>Properties\<close>

text \<open>
  C19. On every packet, in every state that represents a flow table, the packet handler returns and
  does one step of the abstract firewall on the table without its expired flows: it drops packets that
  are not TCP or UDP over IPv4, packets from outside that answer no flow, and packets of new flows
  while the table is full; it forwards the others, refreshes or enters their flow, and changes nothing
  of the packet but the Ethernet addresses.
\<close>

theorem fw_core_process_refines:
  assumes "fw_rep T t0 mg" "0 \<le> now" "now < 2 ^ 63" "t0 \<le> now" "mbuf_ok mbuf" "fw_config_ok config"
  shows "\<exists>res T' mg'. fw_core_process config mg mbuf now
      = Some (fst (fw_output config mbuf res), mg', snd (fw_output config mbuf res)) \<and>
    fw_spec_step config (fw_table_size mg) (expire_flows T (now - uint (fmg_expiration_time mg))) mbuf now res T' \<and>
    fw_rep T' now mg' \<and> fw_same_config mg mg'"
  by (rule fw_process_refines [OF assms])

theorem fw_core_process_refines_witness:
  "\<exists>i mg'. fw_core_process example_fw_config example_fw (example_tcp 0 0) 7
      = Some (1, mg', with_macs example_fw_config 1 (example_tcp 0 0)) \<and>
    fw_rep [(example_flow, i, 7)] 7 mg'"
proof -
  have T: "expire_flows [] (7 - uint (fmg_expiration_time example_fw)) = ([] :: Flow flows)" by (simp add: expire_flows_def)
  have w: "fcfg_wan_device example_fw_config = 1" by (simp add: example_fw_config_def)
  from fw_core_process_refines [OF example_fw_rep(1) _ _ _ example_tcp_ok(1) example_fw_config_ok, of 7 0 0]
  obtain res T' mg' where r: "fw_core_process example_fw_config example_fw (example_tcp 0 0) 7
      = Some (fst (fw_output example_fw_config (example_tcp 0 0) res), mg', snd (fw_output example_fw_config (example_tcp 0 0) res))"
    "fw_spec_step example_fw_config 2 [] (example_tcp 0 0) 7 res T'" "fw_rep T' 7 mg'"
    by (auto simp: T example_fw_rep(2))
  from r(2) obtain i where "res = Some 1" "T' = [(example_flow, i, 7)]"
    by (cases rule: fw_spec_step.cases)
      (auto simp: example_fw_packet example_tcp_ok w find_flow_def add_flow_def)
  then show ?thesis using r by (auto simp: fw_output_def)
qed

text \<open>
  C3. Nothing unsolicited enters: in any run from the initialisation, a packet from the WAN device that
  is forwarded answers a flow that an earlier packet from inside opened, and the last packet of that
  flow (in either direction) is not older than the expiration time.
\<close>

theorem fw_only_answers_enter:
  assumes started: "fw_started config mg" and config: "fw_config_ok config" "capacity_ok n"
      "sizeof_Flow * int n < 2 ^ 32" "uint (fcfg_capacity config) = int n"
    and run: "nf_run (fw_step config) mbuf_ok mg 0 ps mg1 t" and time: "t \<le> now" "now < 2 ^ 63"
    and mbuf: "mbuf_ok mbuf" "mbuf_port mbuf = fcfg_wan_device config"
    and forwarded: "fw_core_process config mg1 mbuf now = Some (dev, mg2, mbuf')" "dev \<noteq> uint (fcfg_wan_device config)"
  shows "\<exists>m s m' u. (m, s) \<in> set ps \<and> fw_parsed m \<and> mbuf_port m \<noteq> fcfg_wan_device config \<and>
    fw_flow_of m = flip (fw_flow_of mbuf) \<and> s \<le> u \<and>
    (m', u) \<in> set ps \<and> fw_belongs config (flip (fw_flow_of mbuf)) m' \<and> now - uint (fcfg_expiration_time config) \<le> u"
proof -
  obtain T where T: "fw_holds config T t mg1" "\<forall>e\<in>set T. fw_justified config ps e"
    using fw_run_justified [OF run fw_started_holds [OF started config]] by blast
  let ?T = "expire_flows T (now - uint (fcfg_expiration_time config))"
  have step: "fw_step config mg1 mbuf now = Some ((dev, mbuf'), mg2)" using forwarded(1) by (simp add: fw_step_def)
  obtain T' where "fw_table_step config T mbuf now (dev, mbuf') T'"
    using fwr.refine_step [OF T(1) nf_run_time [OF run] time mbuf(1) step] by blast
  then obtain res where res: "(dev, mbuf') = fw_output config mbuf res"
    "fw_spec_step config (uint (fcfg_capacity config)) ?T mbuf now res T'"
    by (auto simp: fw_table_step_def)
  have "res \<noteq> None" using res(1) forwarded(2) mbuf(2) by (cases res) (simp_all add: fw_output_def)
  then obtain i where i: "find_flow ?T (flip (fw_flow_of mbuf)) = Some i"
    using res(2) mbuf(2) by (auto elim: fw_stepE)
  obtain u where "(flip (fw_flow_of mbuf), i, u) \<in> set ?T"
    using i find_flow_Some [OF fw_holds_wf [OF T(1)]] by blast
  then have "fw_justified config ps (flip (fw_flow_of mbuf), i, u)" "now - uint (fcfg_expiration_time config) \<le> u"
    using T(2) by (auto simp: expire_flows_member)
  then show ?thesis
    unfolding fw_justified_def by (simp add: fw_belongs_def) (metis flip_flip)
qed

lemma example_fw_first_packet:
  assumes "fw_rep [] 0 mg" "fw_table_size mg = 2" "0 \<le> now" "now < 2 ^ 63"
  obtains mg' mbuf' i where "fw_core_process example_fw_config mg (example_tcp 0 0) now = Some (1, mg', mbuf')"
    "fw_rep [(example_flow, i, now)] now mg'" "fw_same_config mg mg'"
proof -
  have T: "expire_flows [] x = ([] :: Flow flows)" for x by (simp add: expire_flows_def)
  have w: "fcfg_wan_device example_fw_config = 1" by (simp add: example_fw_config_def)
  obtain res T' mg' where r: "fw_core_process example_fw_config mg (example_tcp 0 0) now
      = Some (fst (fw_output example_fw_config (example_tcp 0 0) res), mg', snd (fw_output example_fw_config (example_tcp 0 0) res))"
    "fw_spec_step example_fw_config 2 [] (example_tcp 0 0) now res T'" "fw_rep T' now mg'" "fw_same_config mg mg'"
    using fw_process_refines [OF assms(1,3,4) _ example_tcp_ok(1) example_fw_config_ok, of 0 0] assms by (auto simp: T)
  from r(2) obtain i where "res = Some 1" "T' = [(example_flow, i, now)]"
    by (cases rule: fw_spec_step.cases)
      (auto simp: example_fw_packet example_tcp_ok w find_flow_def add_flow_def)
  then show thesis using r that by (auto simp: fw_output_def)
qed

lemma example_fw_answer:
  assumes "fw_rep [(example_flow, i, t)] t mg" "0 \<le> t" "t \<le> now" "now < 2 ^ 63" "now - uint (fmg_expiration_time mg) \<le> t"
  obtains mg' mbuf' where "fw_core_process example_fw_config mg (example_tcp 1 0) now = Some (0, mg', mbuf')"
proof -
  have w: "fcfg_wan_device example_fw_config = 1" "fcfg_lan_device example_fw_config = 0" by (simp_all add: example_fw_config_def)
  have T: "expire_flows [(example_flow, i, t)] (now - uint (fmg_expiration_time mg)) = [(example_flow, i, t)]"
    using assms(5) by (simp add: expire_flows_def)
  obtain res T' mg' where r: "fw_core_process example_fw_config mg (example_tcp 1 0) now
      = Some (fst (fw_output example_fw_config (example_tcp 1 0) res), mg', snd (fw_output example_fw_config (example_tcp 1 0) res))"
    "fw_spec_step example_fw_config (fw_table_size mg) [(example_flow, i, t)] (example_tcp 1 0) now res T'"
    using fw_process_refines [OF assms(1) _ assms(4,3) example_tcp_ok(1) example_fw_config_ok, of 1 0] assms T by auto
  from r(2) have "res = Some 0"
    by (cases rule: fw_spec_step.cases) (auto simp: example_fw_packet example_tcp_ok w find_flow_def)
  then show thesis using r that by (auto simp: fw_output_def)
qed

lemma example_fw_capacity: "capacity_ok 2" "uint (fcfg_capacity example_fw_config) = int 2" "sizeof_Flow * int 2 < 2 ^ 32"
  by (auto simp: capacity_ok_def example_fw_config_def sizeof_Flow_def intro: exI [of _ 1])

lemma example_fw_start:
  obtains mg where "fw_started example_fw_config mg" "fw_rep [] 0 mg" "fw_table_size mg = 2" "fmg_expiration_time mg = 100"
proof -
  obtain mg where mg: "fw_started example_fw_config mg" using example_fw_started by blast
  then obtain mem h h' where h: "fw_started example_fw_config mg" "heap_ok h"
    "fw_core_init mem None example_fw_config h = Some (Some mg, h')"
    unfolding fw_started_def by blast
  from fw_core_init_correct [OF h(2) example_fw_capacity(1,3,2) h(3)] h(1) show thesis
    using that by (simp add: example_fw_config_def)
qed

theorem fw_only_answers_enter_witness:
  "\<exists>mg mg1 mg2 mbuf'. fw_started example_fw_config mg \<and>
    nf_run (fw_step example_fw_config) mbuf_ok mg 0 [(example_tcp 0 0, 7)] mg1 7 \<and>
    fw_core_process example_fw_config mg1 (example_tcp 1 0) 9 = Some (0, mg2, mbuf') \<and>
    (\<exists>m s. (m, s) \<in> set [(example_tcp 0 0, 7)] \<and> fw_flow_of m = flip (fw_flow_of (example_tcp 1 0)))"
proof -
  obtain mg where mg: "fw_started example_fw_config mg" "fw_rep [] 0 mg" "fw_table_size mg = 2" "fmg_expiration_time mg = 100"
    by (rule example_fw_start)
  obtain mg1 m1 i where 1: "fw_core_process example_fw_config mg (example_tcp 0 0) 7 = Some (1, mg1, m1)"
    "fw_rep [(example_flow, i, 7)] 7 mg1" "fw_same_config mg mg1"
    by (rule example_fw_first_packet [OF mg(2,3), of 7]) auto
  have steps: "nf_run (fw_step example_fw_config) mbuf_ok mg 0 [(example_tcp 0 0, 7)] mg1 7"
    by (rule nf_run_one [where res = "(1, m1)"]) (use 1(1) in \<open>simp_all add: fw_step_def example_tcp_ok\<close>)
  obtain mg2 m2 where 2: "fw_core_process example_fw_config mg1 (example_tcp 1 0) 9 = Some (0, mg2, m2)"
    by (rule example_fw_answer [OF 1(2), of 9]) (use 1(3) mg(4) in \<open>simp_all add: fw_same_config_def\<close>)
  have w: "fcfg_wan_device example_fw_config = 1" by (simp add: example_fw_config_def)
  from fw_only_answers_enter [OF mg(1) example_fw_config_ok example_fw_capacity(1,3,2) steps _ _ example_tcp_ok(1) _ 2]
  have "\<exists>m s. (m, s) \<in> set [(example_tcp 0 0, 7)] \<and> fw_flow_of m = flip (fw_flow_of (example_tcp 1 0))"
    by (auto simp: w example_tcp_ok)
  then show ?thesis using mg(1) steps 2 by blast
qed

text \<open>
  C5. Answers do enter: once a packet from inside has been forwarded, whatever packets arrive in
  between, an answer to it that comes before the expiration time is over is forwarded to the LAN device.
\<close>

theorem fw_answer_passes:
  assumes rep: "fw_holds config T t0 mg" and time: "0 \<le> t0" "t0 \<le> now" "now < 2 ^ 63"
    and out: "mbuf_ok out" "mbuf_port out \<noteq> fcfg_wan_device config"
    and sent: "fw_core_process config mg out now = Some (uint (fcfg_wan_device config), mg1, out')"
    and between: "nf_run (fw_step config) mbuf_ok mg1 now ps mg2 t"
    and later: "t \<le> later" "later < 2 ^ 63" "later - uint (fcfg_expiration_time config) \<le> now"
    and answer: "mbuf_ok mbuf" "fw_parsed mbuf" "mbuf_port mbuf = fcfg_wan_device config"
      "fw_flow_of mbuf = flip (fw_flow_of out)"
  shows "\<exists>mg3. fw_core_process config mg2 mbuf later
    = Some (uint (fcfg_lan_device config), mg3, with_macs config (fcfg_lan_device config) mbuf)"
proof -
  have s1: "fw_step config mg out now = Some ((uint (fcfg_wan_device config), out'), mg1)" using sent by (simp add: fw_step_def)
  obtain T1 where T1: "fw_table_step config T out now (uint (fcfg_wan_device config), out') T1" "fw_holds config T1 now mg1"
    by (rule fwr.refine_step [OF rep time out(1) s1])
  let ?T = "expire_flows T (now - uint (fcfg_expiration_time config))"
  obtain res where res: "(uint (fcfg_wan_device config), out') = fw_output config out res"
    "fw_spec_step config (uint (fcfg_capacity config)) ?T out now res T1"
    using T1(1) by (auto simp: fw_table_step_def)
  have "res \<noteq> None" using res(1) out(2) by (cases res) (auto simp: fw_output_def word_uint_eq_iff)
  have "\<exists>i. (fw_flow_of out, i, now) \<in> set T1"
    using res(2) \<open>res \<noteq> None\<close> out(2)
  proof (cases rule: fw_spec_step.cases)
    case (known i)
    then show ?thesis using find_flow_Some [OF fw_holds_wf [OF rep]] by (auto simp: touch_flow_member)
  qed (auto simp: add_flow_def)
  then obtain i where i: "(fw_flow_of out, i, now) \<in> set T1" by blast
  obtain T2 u where T2: "fw_holds config T2 t mg2" "(fw_flow_of out, i, u) \<in> set T2" "now \<le> u"
    using fw_run_keeps [OF between T1(2) _ i] time later by auto
  let ?U = "expire_flows T2 (later - uint (fcfg_expiration_time config))"
  have "(fw_flow_of out, i, u) \<in> set ?U" using T2(2,3) later(3) by (simp add: expire_flows_member)
  then have found: "find_flow ?U (flip (fw_flow_of mbuf)) = Some i"
    using find_flow_Some [OF fw_holds_wf [OF T2(1)]] answer(4) by auto
  have "0 \<le> t" using nf_run_time [OF between] time by simp
  then obtain r mg3 T3 where r: "fw_step config mg2 mbuf later = Some (r, mg3)" "fw_table_step config T2 mbuf later r T3"
    using fwr.refine [OF T2(1) _ later(1,2) answer(1)] by blast
  have "r = fw_output config mbuf (Some (fcfg_lan_device config))"
    using r(2) found answer(2,3) by (auto simp: fw_table_step_def elim!: fw_stepE)
  then show ?thesis using r(1) by (auto simp: fw_step_def fw_output_def)
qed

theorem fw_answer_passes_witness:
  "\<exists>mg1 mg3 out'. fw_core_process example_fw_config example_fw (example_tcp 0 0) 7 = Some (1, mg1, out') \<and>
    fw_core_process example_fw_config mg1 (example_tcp 1 0) 107
      = Some (0, mg3, with_macs example_fw_config 0 (example_tcp 1 0))"
proof -
  have w: "fcfg_wan_device example_fw_config = 1" "fcfg_lan_device example_fw_config = 0" by (simp_all add: example_fw_config_def)
  have e: "fcfg_expiration_time example_fw_config = 100" by (simp add: example_fw_config_def)
  obtain mg1 m1 i where 1: "fw_core_process example_fw_config example_fw (example_tcp 0 0) 7 = Some (1, mg1, m1)"
    by (rule example_fw_first_packet [OF example_fw_rep(1,2), of 7]) auto
  have "fw_flow_of (example_tcp 1 0) = flip (fw_flow_of (example_tcp 0 0))" by (simp add: example_fw_packet)
  then have "\<exists>mg3. fw_core_process example_fw_config mg1 (example_tcp 1 0) 107
    = Some (uint (fcfg_lan_device example_fw_config), mg3, with_macs example_fw_config (fcfg_lan_device example_fw_config) (example_tcp 1 0))"
    by (intro fw_answer_passes [OF example_fw_holds _ _ _ example_tcp_ok(1) _ _ nf_run.none _ _ _ example_tcp_ok(1)])
      (use 1 in \<open>auto simp: w e example_tcp_ok example_fw_packet\<close>)
  then show ?thesis using 1 by (auto simp: w)
qed

end
