(* ===== verification/NfTime.thy ===== *)
theory NfTime
  imports Prelude "HOL-Library.Log_Nat"
begin

text \<open>
  The clock of the network functions, \<open>dpdk-nfs/nf/lib/nf_time.c\<close>. The time is computed from the two
  fields of a \<open>struct timespec\<close> in double precision and converted to an integer, so it is rounded to
  53 significant bits. The rounding is written out here on integers (nearest, ties to even); all the
  values involved are integers.
\<close>

section \<open>Rounding to double precision\<close>

definition round_to :: "int \<Rightarrow> int \<Rightarrow> int" where
  "round_to g x = (let q = x div g; r = x mod g in
     g * (if g < 2 * r \<or> (2 * r = g \<and> odd q) then q + 1 else q))"

definition granule :: "int \<Rightarrow> int" where
  "granule x = 2 ^ (nat (bitlen x) - 53)"

definition to_double :: "int \<Rightarrow> int" where
  "to_double x = round_to (granule x) x"

definition double_mult :: "int \<Rightarrow> int \<Rightarrow> int" where
  "double_mult x y = to_double (x * y)"

definition double_plus :: "int \<Rightarrow> int \<Rightarrow> int" where
  "double_plus x y = to_double (x + y)"

record timespec =
  tv_sec :: int
  tv_nsec :: int

definition current_time :: "timespec \<Rightarrow> int" where
  "current_time tp = double_plus (double_mult (to_double (tv_sec tp)) 1000000000) (to_double (tv_nsec tp))"

section \<open>Facts about the rounding\<close>

lemma round_to_dvd: "0 < g \<Longrightarrow> g dvd x \<Longrightarrow> round_to g x = x"
  by (auto simp: round_to_def Let_def)

lemma round_to_mono:
  assumes "0 < g" "x \<le> y"
  shows "round_to g x \<le> round_to g y"
proof -
  let ?up = "\<lambda>z. g < 2 * (z mod g) \<or> (2 * (z mod g) = g \<and> odd (z div g))"
  have "x div g \<le> y div g" using assms by (simp add: zdiv_mono1)
  moreover have "?up x \<longrightarrow> ?up y" if "x div g = y div g"
  proof -
    have "x mod g \<le> y mod g" using assms(2) that minus_div_mult_eq_mod [of x g] minus_div_mult_eq_mod [of y g] by simp
    then show ?thesis using that by auto
  qed
  ultimately have "(if ?up x then x div g + 1 else x div g) \<le> (if ?up y then y div g + 1 else y div g)"
    by (cases "x div g = y div g") auto
  then show ?thesis using assms(1) by (simp add: round_to_def Let_def)
qed

lemma granule_pos [simp]: "0 < granule x"
  by (simp add: granule_def)

lemma to_double_dvd: "granule x dvd x \<Longrightarrow> to_double x = x"
  by (simp add: to_double_def round_to_dvd)

lemma to_double_exact:
  assumes "0 \<le> x" "x < 2 ^ 53"
  shows "to_double x = x"
proof -
  have "bitlen x \<le> 53"
    using assms bitlen_le_iff_power [of x 53] by simp
  then show ?thesis by (simp add: to_double_dvd granule_def)
qed

lemma to_double_mono:
  assumes "0 \<le> x" "x \<le> y"
  shows "to_double x \<le> to_double y"
proof (cases "bitlen x = bitlen y")
  case True
  then show ?thesis using assms by (simp add: to_double_def granule_def round_to_mono)
next
  case False
  have "bitlen x \<le> bitlen y"
    using assms(2) bitlen_nonneg [of y] bitlen_le_iff_power [of x "bitlen y"] bitlen_le_iff_power [of y "bitlen y"] by simp
  then have less: "bitlen x < bitlen y" using False by simp
  define m where "m = nat (bitlen y) - 1"
  have pos: "0 < bitlen y" using less bitlen_nonneg [of x] by linarith
  have b: "2 ^ m \<le> y" using bitlen_ge_iff_power [of "bitlen y" y] pos m_def by simp
  have m: "int m = bitlen y - 1" using pos m_def by linarith
  have "bitlen x \<le> int m" using less m by linarith
  then have "x < 2 ^ m" unfolding bitlen_le_iff_power by simp
  moreover have "granule x dvd 2 ^ m" "granule y dvd 2 ^ m"
    using less by (auto simp: granule_def m_def intro!: le_imp_power_dvd)
  ultimately have "to_double x \<le> 2 ^ m" "2 ^ m \<le> to_double y"
    using round_to_mono [of "granule x" x "2 ^ m"] round_to_mono [of "granule y" "2 ^ m" y] b
    by (simp_all add: to_double_def round_to_dvd)
  then show ?thesis by simp
qed

text \<open>Whole seconds are exact in nanoseconds: a billion is divisible by \<open>2\<^sup>9\<close>.\<close>

lemma seconds_exact:
  assumes "0 \<le> s" "s * 1000000000 < 2 ^ 62"
  shows "double_mult (to_double s) 1000000000 = s * 1000000000"
proof -
  have s: "to_double s = s" using assms by (intro to_double_exact) simp_all
  have "nat (bitlen (s * 1000000000)) \<le> 62"
    using bitlen_le_iff_power [of "s * 1000000000" 62] assms by simp
  then have "granule (s * 1000000000) dvd 2 ^ 9"
    by (simp only: granule_def) (rule le_imp_power_dvd, simp)
  moreover have "(2 :: int) ^ 9 dvd s * 1000000000" by (simp add: dvd_mult)
  ultimately show ?thesis by (simp add: double_mult_def s to_double_dvd dvd_trans)
qed

lemma current_time_rounds:
  assumes "0 \<le> tv_sec tp" "tv_sec tp * 1000000000 < 2 ^ 62" "0 \<le> tv_nsec tp" "tv_nsec tp < 1000000000"
  shows "current_time tp = to_double (tv_sec tp * 1000000000 + tv_nsec tp)"
  unfolding current_time_def seconds_exact [OF assms(1,2)] using assms(3,4)
  by (simp add: double_plus_def to_double_exact [of "tv_nsec tp"])

section \<open>Properties\<close>

text \<open>
  The clock keeps its contract: its results are not negative, and a later reading of the monotonic
  clock gives no smaller result, although the sum is rounded in double precision.
\<close>

lemma current_time_monotone:
  assumes "0 \<le> tv_sec a" "0 \<le> tv_nsec a" "tv_nsec a < 1000000000" "0 \<le> tv_nsec b" "tv_nsec b < 1000000000"
    "tv_sec b * 1000000000 < 2 ^ 62"
    "tv_sec a < tv_sec b \<or> tv_sec a = tv_sec b \<and> tv_nsec a \<le> tv_nsec b"
  shows "0 \<le> current_time a \<and> current_time a \<le> current_time b"
proof -
  let ?a = "tv_sec a * 1000000000 + tv_nsec a" and ?b = "tv_sec b * 1000000000 + tv_nsec b"
  have le: "0 \<le> ?a" "?a \<le> ?b" using assms by auto
  have "tv_sec a * 1000000000 < 2 ^ 62" using assms(6,7) by auto
  moreover have "0 \<le> tv_sec b" using assms(1,7) by auto
  ultimately have "current_time a = to_double ?a" "current_time b = to_double ?b"
    using assms by (simp_all add: current_time_rounds)
  moreover have "to_double 0 \<le> to_double ?a" using to_double_mono [of 0 ?a] le(1) by simp
  ultimately show ?thesis using to_double_mono [OF le] by (simp add: to_double_exact)
qed

text \<open>
  The clock has nanoseconds for the first 104 days only: below \<open>2\<^sup>5\<^sup>3\<close> nanoseconds the result is
  exact, but after ten million seconds two readings a nanosecond apart can give the same time, and
  another reading is off by one nanosecond.
\<close>

lemma current_time_granularity:
  "(0 \<le> s \<and> 0 \<le> n \<and> n < 1000000000 \<and> s * 1000000000 + n < 2 ^ 53 \<longrightarrow>
      current_time \<lparr>tv_sec = s, tv_nsec = n\<rparr> = s * 1000000000 + n) \<and>
    current_time \<lparr>tv_sec = 10000000, tv_nsec = 1\<rparr> = current_time \<lparr>tv_sec = 10000000, tv_nsec = 0\<rparr> \<and>
    current_time \<lparr>tv_sec = 10000000, tv_nsec = 3\<rparr> = 10000000000000004"
proof (intro conjI impI)
  assume "0 \<le> s \<and> 0 \<le> n \<and> n < 1000000000 \<and> s * 1000000000 + n < 2 ^ 53"
  moreover from this have "s * 1000000000 < 2 ^ 62" by simp
  ultimately show "current_time \<lparr>tv_sec = s, tv_nsec = n\<rparr> = s * 1000000000 + n"
    by (simp add: current_time_rounds to_double_exact)
qed (code_simp+)

end
