(* ===== verification/NfMain.thy ===== *)
theory NfMain
  imports Bridge Vigfw NfTime "HOL-Library.Multiset"
begin

text \<open>
  The program around the packet handlers, \<open>dpdk-nfs/nf/nf_main.c\<close>: initialisation of the devices,
  flooding, and the polling loop of \<open>lcore_main\<close>. DPDK is a parameter of the model: a record of
  functions on an unknown state \<open>'w\<close> of the machine. Every call that moves a buffer is also recorded
  in a trace, so that the ownership of buffers can be stated.
\<close>

section \<open>The interface of DPDK\<close>

record buffer =
  buf_addr :: nat
  buf_pkt :: mbuf

record 'w dpdk =
  rte_eth_rx_burst :: "u16 \<Rightarrow> 'w \<Rightarrow> buffer option \<times> 'w"
  rte_eth_tx_burst :: "u16 \<Rightarrow> buffer \<Rightarrow> 'w \<Rightarrow> u16 \<times> 'w"
  rte_pktmbuf_clone :: "buffer \<Rightarrow> 'w \<Rightarrow> buffer option \<times> 'w"
  rte_pktmbuf_free :: "buffer \<Rightarrow> 'w \<Rightarrow> 'w"
  rte_eth_dev_count_avail :: "'w \<Rightarrow> u16"
  clock_gettime :: "'w \<Rightarrow> timespec \<times> 'w"
  rte_eth_dev_configure :: "u16 \<Rightarrow> u16 \<Rightarrow> u16 \<Rightarrow> 'w \<Rightarrow> int \<times> 'w"
  rte_eth_tx_queue_setup :: "u16 \<Rightarrow> int \<Rightarrow> u16 \<Rightarrow> 'w \<Rightarrow> int \<times> 'w"
  rte_eth_rx_queue_setup :: "u16 \<Rightarrow> int \<Rightarrow> u16 \<Rightarrow> 'w \<Rightarrow> int \<times> 'w"
  rte_eth_dev_start :: "u16 \<Rightarrow> 'w \<Rightarrow> int \<times> 'w"
  rte_eth_promiscuous_enable :: "u16 \<Rightarrow> 'w \<Rightarrow> 'w"
  rte_eth_promiscuous_get :: "u16 \<Rightarrow> 'w \<Rightarrow> int \<times> 'w"
  rte_eal_init :: "'w \<Rightarrow> int \<times> 'w"
  rte_pktmbuf_pool_create :: "string \<Rightarrow> u32 \<Rightarrow> 'w \<Rightarrow> bool \<times> 'w"

datatype event =
    Received u16 buffer
  | Cloned buffer buffer
  | Sent u16 buffer
  | Rejected u16 buffer
  | Freed buffer

type_synonym 'w io = "'w \<times> event list"

definition rx_burst :: "'w dpdk \<Rightarrow> u16 \<Rightarrow> 'w io \<Rightarrow> buffer option \<times> 'w io" where
  "rx_burst D device = (\<lambda>(w, tr). case rte_eth_rx_burst D device w of
       (None, w) \<Rightarrow> (None, w, tr)
     | (Some buf, w) \<Rightarrow> (Some buf, w, tr @ [Received device buf]))"

definition tx_burst :: "'w dpdk \<Rightarrow> u16 \<Rightarrow> buffer \<Rightarrow> 'w io \<Rightarrow> u16 \<times> 'w io" where
  "tx_burst D device buf = (\<lambda>(w, tr). case rte_eth_tx_burst D device buf w of
       (n, w) \<Rightarrow> (n, w, tr @ [if n = 0 then Rejected device buf else Sent device buf]))"

definition pktmbuf_clone :: "'w dpdk \<Rightarrow> buffer \<Rightarrow> 'w io \<Rightarrow> buffer option \<times> 'w io" where
  "pktmbuf_clone D buf = (\<lambda>(w, tr). case rte_pktmbuf_clone D buf w of
       (None, w) \<Rightarrow> (None, w, tr)
     | (Some copy, w) \<Rightarrow> (Some copy, w, tr @ [Cloned buf copy]))"

definition pktmbuf_free :: "'w dpdk \<Rightarrow> buffer \<Rightarrow> 'w io \<Rightarrow> 'w io" where
  "pktmbuf_free D buf = (\<lambda>(w, tr). (rte_pktmbuf_free D buf w, tr @ [Freed buf]))"

section \<open>Initialisation\<close>

definition RX_QUEUES_COUNT :: u16 where "RX_QUEUES_COUNT = 1"
definition TX_QUEUES_COUNT :: u16 where "TX_QUEUES_COUNT = 1"
definition RX_QUEUE_SIZE :: u16 where "RX_QUEUE_SIZE = 96"
definition TX_QUEUE_SIZE :: u16 where "TX_QUEUE_SIZE = 96"
definition MEMPOOL_BUFFER_COUNT :: u32 where "MEMPOOL_BUFFER_COUNT = 256"

text \<open>The two queue loops: one call for each queue, up to the first that fails.\<close>

fun setup_queues :: "(int \<Rightarrow> 'w \<Rightarrow> int \<times> 'w) \<Rightarrow> int \<Rightarrow> nat \<Rightarrow> 'w \<Rightarrow> int \<times> 'w" where
  "setup_queues setup q 0 w = (0, w)"
| "setup_queues setup q (Suc n) w =
     (let (retval, w) = setup q w in if retval \<noteq> 0 then (retval, w) else setup_queues setup (q + 1) n w)"

definition nf_init_device :: "'w dpdk \<Rightarrow> u16 \<Rightarrow> 'w \<Rightarrow> int \<times> 'w" where
  "nf_init_device D device w = (
     let (retval, w) = rte_eth_dev_configure D device RX_QUEUES_COUNT TX_QUEUES_COUNT w in
     if retval \<noteq> 0 then (retval, w) else
     let (retval, w) = setup_queues (\<lambda>txq. rte_eth_tx_queue_setup D device txq TX_QUEUE_SIZE) 0 (unat TX_QUEUES_COUNT) w in
     if retval \<noteq> 0 then (retval, w) else
     let (retval, w) = setup_queues (\<lambda>rxq. rte_eth_rx_queue_setup D device rxq RX_QUEUE_SIZE) 0 (unat RX_QUEUES_COUNT) w in
     if retval \<noteq> 0 then (retval, w) else
     let (retval, w) = rte_eth_dev_start D device w in
     if retval \<noteq> 0 then (retval, w) else
     let w = rte_eth_promiscuous_enable D device w;
         (mode, w) = rte_eth_promiscuous_get D device w in
     if mode \<noteq> 1 then (retval, w) else (0, w))"

text \<open>The program either exits with a message or goes on.\<close>

type_synonym 'a exits = "string + 'a"

fun init_devices :: "'w dpdk \<Rightarrow> u16 \<Rightarrow> nat \<Rightarrow> 'w \<Rightarrow> 'w exits" where
  "init_devices D device 0 w = Inr w"
| "init_devices D device (Suc n) w =
     (let (ret, w) = nf_init_device D device w in
      if ret = 0 then init_devices D (device + 1) n w else Inl ''Cannot init device'')"

text \<open>\<open>main\<close> up to the call of \<open>lcore_main\<close>; \<open>config_init\<close> is the network function's \<open>nf_config_init\<close>.\<close>

definition main_init :: "'w dpdk \<Rightarrow> ('w \<Rightarrow> 'w exits) \<Rightarrow> 'w \<Rightarrow> 'w exits" where
  "main_init D config_init w = (
     let (ret, w) = rte_eal_init D w in
     if ret < 0 then Inl ''Error with EAL initialization'' else
     case config_init w of Inl msg \<Rightarrow> Inl msg | Inr w \<Rightarrow>
     let nb_devices = (ucast (rte_eth_dev_count_avail D w) :: u32);
         (mbuf_pool, w) = rte_pktmbuf_pool_create D ''MEMPOOL'' (MEMPOOL_BUFFER_COUNT * nb_devices) w in
     if \<not> mbuf_pool then Inl ''Cannot create mbuf pool'' else
     let (clone_pool, w) = rte_pktmbuf_pool_create D ''clone_pool'' MEMPOOL_BUFFER_COUNT w in
     if \<not> clone_pool then Inl ''Cannot create mbuf clone pool'' else
     init_devices D 0 (unat nb_devices) w)"

section \<open>Flooding\<close>

lemma next_device:
  assumes "(device :: u16) < n"
  shows "unat (device + 1) = Suc (unat device)" "65536 - unat (device + 1) < 65536 - unat device"
proof -
  have "unat device < unat n" "unat n < 65536" using assms unsigned_less [of n, where 'a = nat] by (simp_all add: word_less_nat_alt)
  then show "unat (device + 1) = Suc (unat device)" "65536 - unat (device + 1) < 65536 - unat device"
    by (simp_all add: unat_word_ariths)
qed

function flood_loop :: "'w dpdk \<Rightarrow> buffer \<Rightarrow> u16 \<Rightarrow> u16 \<Rightarrow> u16 \<Rightarrow> 'w io \<Rightarrow> 'w io exits" where
  "flood_loop D frame skip_device nb_devices device io =
     (if \<not> device < nb_devices then Inr io
      else if device = skip_device then flood_loop D frame skip_device nb_devices (device + 1) io
      else case pktmbuf_clone D frame io of
        (None, io) \<Rightarrow> Inl ''Cannot clone a frame for flooding''
      | (Some copy, io) \<Rightarrow>
          let (actual_tx_len, io) = tx_burst D device copy io;
              io = (if actual_tx_len = 0 then pktmbuf_free D copy io else io)
          in flood_loop D frame skip_device nb_devices (device + 1) io)"
  by pat_completeness auto
termination
  by (relation "measure (\<lambda>(D, frame, skip_device, nb_devices, device, io). 65536 - unat device)")
    (simp_all add: next_device(2))

declare flood_loop.simps [simp del]

definition flood :: "'w dpdk \<Rightarrow> buffer \<Rightarrow> u16 \<Rightarrow> u16 \<Rightarrow> 'w io \<Rightarrow> 'w io exits" where
  "flood D frame skip_device nb_devices io =
     (case flood_loop D frame skip_device nb_devices 0 io of
        Inl msg \<Rightarrow> Inl msg
      | Inr io \<Rightarrow> Inr (pktmbuf_free D frame io))"

section \<open>The polling loop\<close>

text \<open>
  A network function for the loop: its handler returns the device and leaves the packet as it is to be
  sent. \<open>None\<close> stands for a memory error in the handler.
\<close>

type_synonym 's nf = "'s \<Rightarrow> mbuf \<Rightarrow> int \<Rightarrow> ((int \<times> mbuf) \<times> 's) option"

definition lcore_poll :: "'w dpdk \<Rightarrow> 's nf \<Rightarrow> int \<Rightarrow> u16 \<Rightarrow> u16 \<Rightarrow> 's \<times> 'w io \<Rightarrow> ('s \<times> 'w io) exits option" where
  "lcore_poll D nf_core_process now devices_count device = (\<lambda>(s, io).
     case rx_burst D device io of
       (None, io) \<Rightarrow> Some (Inr (s, io))
     | (Some buf, io) \<Rightarrow> do {
         ((dst, pkt), s) \<leftarrow> nf_core_process s (buf_pkt buf) now;
         let buf = buf\<lparr>buf_pkt := pkt\<rparr>;
         let dst_device = (word_of_int dst :: u16);
         if dst_device = device then Some (Inr (s, pktmbuf_free D buf io))
         else if dst_device = FLOOD_FRAME then
           (case flood D buf device devices_count io of
              Inl msg \<Rightarrow> Some (Inl msg)
            | Inr io \<Rightarrow> Some (Inr (s, io)))
         else
           let (actual_tx_len, io) = tx_burst D dst_device buf io in
           Some (Inr (s, if actual_tx_len = 0 then pktmbuf_free D buf io else io))
       })"

function lcore_devices :: "'w dpdk \<Rightarrow> 's nf \<Rightarrow> int \<Rightarrow> u16 \<Rightarrow> u16 \<Rightarrow> 's \<times> 'w io \<Rightarrow> ('s \<times> 'w io) exits option" where
  "lcore_devices D nf_core_process now devices_count device st =
     (if \<not> device < devices_count then Some (Inr st)
      else do {
        r \<leftarrow> lcore_poll D nf_core_process now devices_count device st;
        case r of Inl msg \<Rightarrow> Some (Inl msg)
        | Inr st \<Rightarrow> lcore_devices D nf_core_process now devices_count (device + 1) st
      })"
  by pat_completeness auto
termination
  by (relation "measure (\<lambda>(D, nf, now, devices_count, device, st). 65536 - unat device)")
    (simp_all add: next_device(2))

declare lcore_devices.simps [simp del]

text \<open>One turn of the endless loop, and \<open>n\<close> turns.\<close>

definition lcore_turn :: "'w dpdk \<Rightarrow> 's nf \<Rightarrow> 's \<times> 'w io \<Rightarrow> ('s \<times> 'w io) exits option" where
  "lcore_turn D nf_core_process = (\<lambda>(s, w, tr).
     let (tp, w) = clock_gettime D w;
         now = current_time tp;
         devices_count = rte_eth_dev_count_avail D w
     in lcore_devices D nf_core_process now devices_count 0 (s, w, tr))"

fun lcore_turns :: "nat \<Rightarrow> 'w dpdk \<Rightarrow> 's nf \<Rightarrow> 's \<times> 'w io \<Rightarrow> ('s \<times> 'w io) exits option" where
  "lcore_turns 0 D nf_core_process st = Some (Inr st)"
| "lcore_turns (Suc n) D nf_core_process st = do {
     r \<leftarrow> lcore_turn D nf_core_process st;
     case r of Inl msg \<Rightarrow> Some (Inl msg) | Inr st \<Rightarrow> lcore_turns n D nf_core_process st
   }"


section \<open>What the loop does with buffers\<close>

text \<open>The events of one flood: a copy of the frame is offered to each device of a list.\<close>

inductive flood_events :: "buffer \<Rightarrow> u16 list \<Rightarrow> event list \<Rightarrow> bool" for frame where
  over: "flood_events frame [] []"
| sent: "flood_events frame ds ev \<Longrightarrow> flood_events frame (d # ds) (Cloned frame copy # Sent d copy # ev)"
| rejected: "flood_events frame ds ev \<Longrightarrow>
    flood_events frame (d # ds) (Cloned frame copy # Rejected d copy # Freed copy # ev)"

text \<open>The events of one poll of a device.\<close>

inductive poll_events :: "u16 list \<Rightarrow> u16 \<Rightarrow> event list \<Rightarrow> bool" for devices device where
  idle: "poll_events devices device []"
| dropped: "poll_events devices device [Received device buf, Freed (buf\<lparr>buf_pkt := pkt\<rparr>)]"
| flooded: "flood_events (buf\<lparr>buf_pkt := pkt\<rparr>) (filter (\<lambda>d. d \<noteq> device) devices) ev \<Longrightarrow>
    poll_events devices device (Received device buf # ev @ [Freed (buf\<lparr>buf_pkt := pkt\<rparr>)])"
| forwarded: "dst \<noteq> device \<Longrightarrow> poll_events devices device [Received device buf, Sent dst (buf\<lparr>buf_pkt := pkt\<rparr>)]"
| refused: "dst \<noteq> device \<Longrightarrow>
    poll_events devices device [Received device buf, Rejected dst (buf\<lparr>buf_pkt := pkt\<rparr>), Freed (buf\<lparr>buf_pkt := pkt\<rparr>)]"

inductive loop_events :: "event list \<Rightarrow> bool" where
  start: "loop_events []"
| poll: "loop_events tr \<Longrightarrow> poll_events devices device ev \<Longrightarrow> loop_events (tr @ ev)"

text \<open>
  Ownership: the program owns a buffer from its reception or creation until it is sent or freed, and
  may only send, copy or free a buffer it owns. \<open>None\<close> is a violation.
\<close>

fun own :: "nat multiset \<Rightarrow> event list \<Rightarrow> nat multiset option" where
  "own M [] = Some M"
| "own M (Received d b # tr) = own (add_mset (buf_addr b) M) tr"
| "own M (Cloned b c # tr) = (if buf_addr b \<in># M then own (add_mset (buf_addr c) M) tr else None)"
| "own M (Sent d b # tr) = (if buf_addr b \<in># M then own (M - {#buf_addr b#}) tr else None)"
| "own M (Rejected d b # tr) = (if buf_addr b \<in># M then own M tr else None)"
| "own M (Freed b # tr) = (if buf_addr b \<in># M then own (M - {#buf_addr b#}) tr else None)"

text \<open>No frame is sent on the device on which the last frame was received.\<close>

fun never_back :: "u16 \<Rightarrow> event list \<Rightarrow> bool" where
  "never_back cur [] \<longleftrightarrow> True"
| "never_back cur (Received d b # tr) \<longleftrightarrow> never_back d tr"
| "never_back cur (Sent d b # tr) \<longleftrightarrow> d \<noteq> cur \<and> never_back cur tr"
| "never_back cur (Rejected d b # tr) \<longleftrightarrow> d \<noteq> cur \<and> never_back cur tr"
| "never_back cur (ev # tr) \<longleftrightarrow> never_back cur tr"

text \<open>The devices to which frames are handed.\<close>

fun tx_devices :: "event list \<Rightarrow> u16 list" where
  "tx_devices [] = []"
| "tx_devices (Sent d b # tr) = d # tx_devices tr"
| "tx_devices (Rejected d b # tr) = d # tx_devices tr"
| "tx_devices (ev # tr) = tx_devices tr"

lemma own_append: "own M (tr @ ev) = own M tr \<bind> (\<lambda>M'. own M' ev)"
  by (induction M tr rule: own.induct) auto

lemma never_back_append:
  "never_back cur (tr @ ev) \<longleftrightarrow> never_back cur tr \<and>
    never_back (fold (\<lambda>e c. case e of Received d b \<Rightarrow> d | _ \<Rightarrow> c) tr cur) ev"
  by (induction cur tr rule: never_back.induct) auto

lemma tx_devices_append [simp]: "tx_devices (tr @ ev) = tx_devices tr @ tx_devices ev"
  by (induction tr rule: tx_devices.induct) auto

lemma flood_events_own:
  assumes "flood_events frame ds ev" "buf_addr frame \<in># M"
  shows "own M (ev @ rest) = own M rest"
  using assms by (induction) auto

lemma flood_events_tx:
  assumes "flood_events frame ds ev"
  shows "tx_devices ev = ds" "d \<notin> set ds \<Longrightarrow> never_back d (ev @ rest) \<longleftrightarrow> never_back d rest"
  using assms by (induction) auto

lemma poll_events_own: "poll_events devices device ev \<Longrightarrow> own M ev = Some M"
  by (induction rule: poll_events.induct) (simp_all add: flood_events_own)

lemma poll_events_never_back: "poll_events devices device ev \<Longrightarrow> never_back cur ev"
  by (induction rule: poll_events.induct) (simp_all add: flood_events_tx)

lemma loop_events_own: "loop_events tr \<Longrightarrow> own M tr = Some M"
  by (induction rule: loop_events.induct) (simp_all add: own_append poll_events_own)

lemma loop_events_never_back: "loop_events tr \<Longrightarrow> never_back cur tr"
  by (induction rule: loop_events.induct) (simp_all add: never_back_append poll_events_never_back)

section \<open>The loop produces these events\<close>

text \<open>The devices from \<open>d\<close> up to \<open>n\<close>, in order.\<close>

definition devices_from :: "u16 \<Rightarrow> u16 \<Rightarrow> u16 list" where
  "devices_from d n = map of_nat [unat d..<unat n]"

lemma devices_from_simps:
  "\<not> d < n \<Longrightarrow> devices_from d n = []" "d < n \<Longrightarrow> devices_from d n = d # devices_from (d + 1) n"
proof -
  show "devices_from d n = []" if "\<not> d < n" using that by (simp add: devices_from_def word_less_nat_alt)
  show "devices_from d n = d # devices_from (d + 1) n" if "d < n"
    using that next_device [OF that] by (simp add: devices_from_def word_less_nat_alt upt_conv_Cons)
qed

lemma set_devices_from: "set (devices_from 0 n) = {d. d < n}"
proof -
  have "d \<in> of_nat ` {0..<unat n}" if "d < n" for d
    using that by (intro image_eqI [of _ _ "unat d"]) (simp_all add: word_less_nat_alt)
  moreover have "of_nat k < n" if "k < unat n" for k
    using that unsigned_less [of n, where 'a = nat] by (simp add: word_less_nat_alt unat_of_nat)
  ultimately show ?thesis by (auto simp: devices_from_def)
qed

lemma flood_loop_events:
  "flood_loop D frame skip n device (w, tr) = Inr (w', tr') \<Longrightarrow>
    \<exists>ev. tr' = tr @ ev \<and> flood_events frame (filter (\<lambda>d. d \<noteq> skip) (devices_from device n)) ev"
proof (induction "65536 - unat device" arbitrary: device w tr rule: less_induct)
  case less
  show ?case
  proof (cases "device < n")
    case False
    then show ?thesis
      using less.prems by (subst (asm) flood_loop.simps) (auto simp: devices_from_simps intro: flood_events.over)
  next
    case dev: True
    note IH = less.hyps [OF next_device(2) [OF dev]]
    show ?thesis
    proof (cases "device = skip")
      case True
      then show ?thesis
        using IH less.prems dev by (subst (asm) (2) flood_loop.simps) (auto simp: devices_from_simps)
    next
      case False
      then obtain copy w1 where c: "rte_pktmbuf_clone D frame w = (Some copy, w1)"
        using less.prems dev by (subst (asm) flood_loop.simps) (auto simp: pktmbuf_clone_def split: prod.splits option.splits)
      obtain k w2 where t: "rte_eth_tx_burst D device copy w1 = (k, w2)" by (cases "rte_eth_tx_burst D device copy w1")
      note simps = dev False c t pktmbuf_clone_def tx_burst_def pktmbuf_free_def
      show ?thesis
      proof (cases "k = 0")
        case True
        have "flood_loop D frame skip n (device + 1)
            (rte_pktmbuf_free D copy w2, tr @ [Cloned frame copy, Rejected device copy, Freed copy]) = Inr (w', tr')"
          using less.prems by (subst (asm) flood_loop.simps) (simp add: simps True)
        from IH [OF this] show ?thesis using flood_events.rejected dev False by (fastforce simp: devices_from_simps)
      next
        case sent: False
        have "flood_loop D frame skip n (device + 1) (w2, tr @ [Cloned frame copy, Sent device copy]) = Inr (w', tr')"
          using less.prems by (subst (asm) flood_loop.simps) (simp add: simps sent)
        from IH [OF this] show ?thesis using flood_events.sent dev False by (fastforce simp: devices_from_simps)
      qed
    qed
  qed
qed

lemma flood_produces:
  assumes "flood D frame skip n (w, tr) = Inr (w', tr')"
  obtains ev where "tr' = tr @ ev @ [Freed frame]"
    "flood_events frame (filter (\<lambda>d. d \<noteq> skip) (devices_from 0 n)) ev"
proof -
  obtain w1 tr1 where "flood_loop D frame skip n 0 (w, tr) = Inr (w1, tr1)" "tr' = tr1 @ [Freed frame]"
    using assms by (auto simp: flood_def pktmbuf_free_def split: sum.splits prod.splits)
  then show thesis using flood_loop_events that by fastforce
qed

lemma flood_total:
  assumes "\<And>w. fst (rte_pktmbuf_clone D frame w) \<noteq> None"
  shows "\<exists>io'. flood_loop D frame skip n device io = Inr io'"
proof (induction "65536 - unat device" arbitrary: device io rule: less_induct)
  case less
  obtain w tr where io: "io = (w, tr)" by (cases io)
  show ?case
  proof (cases "device < n")
    case False
    then show ?thesis by (subst flood_loop.simps) simp
  next
    case True
    note IH = less.hyps [OF next_device(2) [OF True]]
    obtain copy w1 where "rte_pktmbuf_clone D frame w = (Some copy, w1)"
      using assms [of w] by (cases "rte_pktmbuf_clone D frame w") auto
    then show ?thesis
      using IH True by (subst flood_loop.simps) (auto simp: io pktmbuf_clone_def Let_def split: prod.splits)
  qed
qed

lemma lcore_poll_cases:
  assumes "lcore_poll D nf now n device (s, w, tr) = Some (Inr (s', w', tr'))"
  shows "\<exists>ev. tr' = tr @ ev \<and> poll_events (devices_from 0 n) device ev"
proof (cases "rte_eth_rx_burst D device w")
  case (Pair r w1)
  show ?thesis
  proof (cases r)
    case None
    then show ?thesis using assms Pair by (auto simp: lcore_poll_def rx_burst_def intro: poll_events.idle)
  next
    case (Some buf)
    obtain dst pkt where nf: "nf s (buf_pkt buf) now = Some ((dst, pkt), s')"
      using assms Pair Some
      by (auto simp: lcore_poll_def rx_burst_def bind_eq_Some_conv Let_def split: if_splits sum.splits prod.splits)
    let ?buf = "buf\<lparr>buf_pkt := pkt\<rparr>" and ?dst = "word_of_int dst :: u16"
    note simps = lcore_poll_def rx_burst_def Pair Some nf Let_def
    consider "?dst = device" | "?dst \<noteq> device" "?dst = FLOOD_FRAME" | "?dst \<noteq> device" "?dst \<noteq> FLOOD_FRAME" by blast
    then show ?thesis
    proof cases
      case 1
      then show ?thesis using assms poll_events.dropped by (auto simp: simps pktmbuf_free_def)
    next
      case 2
      then have "flood D ?buf device n (w1, tr @ [Received device buf]) = Inr (w', tr')"
        using assms by (auto simp: simps split: sum.splits)
      then obtain ev where "tr' = (tr @ [Received device buf]) @ ev @ [Freed ?buf]"
        "flood_events ?buf (filter (\<lambda>d. d \<noteq> device) (devices_from 0 n)) ev"
        by (rule flood_produces)
      then show ?thesis using poll_events.flooded by fastforce
    next
      case 3
      obtain k w2 where t: "rte_eth_tx_burst D ?dst ?buf w1 = (k, w2)" by (cases "rte_eth_tx_burst D ?dst ?buf w1")
      then show ?thesis
        using assms 3 poll_events.forwarded [OF 3(1)] poll_events.refused [OF 3(1)]
        by (cases "k = 0") (auto simp: simps tx_burst_def pktmbuf_free_def)
    qed
  qed
qed


lemma bind_exits:
  "(do { x \<leftarrow> r; case x of Inl msg \<Rightarrow> Some (Inl msg) | Inr st \<Rightarrow> f st }) = Some (Inr y) \<longleftrightarrow>
    (\<exists>st. r = Some (Inr st) \<and> f st = Some (Inr y))"
proof (cases r)
  case (Some x)
  then show ?thesis by (cases x) simp_all
qed simp

lemma lcore_devices_events:
  assumes "lcore_devices D nf now n device (s, w, tr) = Some (Inr (s', w', tr'))" "loop_events tr"
  shows "loop_events tr'"
  using assms
proof (induction "65536 - unat device" arbitrary: device s w tr rule: less_induct)
  case less
  show ?case
  proof (cases "device < n")
    case False
    then show ?thesis using less.prems by (subst (asm) lcore_devices.simps) simp
  next
    case True
    obtain s1 w1 tr1 where p: "lcore_poll D nf now n device (s, w, tr) = Some (Inr (s1, w1, tr1))"
      and r: "lcore_devices D nf now n (device + 1) (s1, w1, tr1) = Some (Inr (s', w', tr'))"
      using less.prems(1) True
      by (subst (asm) lcore_devices.simps [of D nf now n device]) (auto simp: bind_exits)
    obtain ev where "tr1 = tr @ ev" "poll_events (devices_from 0 n) device ev" using lcore_poll_cases [OF p] by blast
    then have "loop_events tr1" using loop_events.poll [OF less.prems(2)] by simp
    then show ?thesis by (rule less.hyps [OF next_device(2) [OF True] r])
  qed
qed

lemma lcore_turns_events:
  assumes "lcore_turns k D nf (s, w, tr) = Some (Inr (s', w', tr'))" "loop_events tr"
  shows "loop_events tr'"
  using assms
proof (induction k arbitrary: s w tr)
  case (Suc k)
  obtain s1 w1 tr1 where 1: "lcore_turn D nf (s, w, tr) = Some (Inr (s1, w1, tr1))"
    and 2: "lcore_turns k D nf (s1, w1, tr1) = Some (Inr (s', w', tr'))"
    using Suc.prems(1) by (auto simp: bind_exits)
  have "loop_events tr1"
    using 1 lcore_devices_events [OF _ Suc.prems(2)] by (auto simp: lcore_turn_def Let_def split: prod.splits)
  then show ?case by (rule Suc.IH [OF 2])
qed simp

section \<open>Handlers that keep an invariant\<close>

text \<open>
  What the program relies on: \<open>clock\<close> is the last reading of the monotonic clock, which only a new
  reading changes, and for no smaller time; \<open>n\<close> devices are there; and a received packet satisfies
  \<open>ok\<close> for the device it was received on.
\<close>

definition timespec_ok :: "timespec \<Rightarrow> bool" where
  "timespec_ok tp \<longleftrightarrow> 0 \<le> tv_sec tp \<and> 0 \<le> tv_nsec tp \<and> tv_nsec tp < 1000000000 \<and> tv_sec tp * 1000000000 < 2 ^ 62"

definition not_before :: "timespec \<Rightarrow> timespec \<Rightarrow> bool" where
  "not_before b a \<longleftrightarrow> tv_sec a < tv_sec b \<or> tv_sec a = tv_sec b \<and> tv_nsec a \<le> tv_nsec b"

definition dpdk_env :: "'w dpdk \<Rightarrow> ('w \<Rightarrow> timespec) \<Rightarrow> u16 \<Rightarrow> (u16 \<Rightarrow> mbuf \<Rightarrow> bool) \<Rightarrow> bool" where
  "dpdk_env D clock n ok \<longleftrightarrow>
     (\<forall>w. timespec_ok (clock w)) \<and>
     (\<forall>w. clock (snd (clock_gettime D w)) = fst (clock_gettime D w) \<and> not_before (fst (clock_gettime D w)) (clock w)) \<and>
     (\<forall>w. rte_eth_dev_count_avail D w = n) \<and>
     (\<forall>device w. clock (snd (rte_eth_rx_burst D device w)) = clock w \<and>
        (\<forall>buf. device < n \<and> fst (rte_eth_rx_burst D device w) = Some buf \<longrightarrow> ok device (buf_pkt buf))) \<and>
     (\<forall>device buf w. clock (snd (rte_eth_tx_burst D device buf w)) = clock w) \<and>
     (\<forall>buf w. clock (snd (rte_pktmbuf_clone D buf w)) = clock w) \<and>
     (\<forall>buf w. clock (rte_pktmbuf_free D buf w) = clock w)"

lemma current_time_bound:
  assumes "timespec_ok tp"
  shows "0 \<le> current_time tp" "current_time tp < 2 ^ 63"
proof -
  let ?x = "tv_sec tp * 1000000000 + tv_nsec tp"
  have x: "0 \<le> ?x" "?x \<le> 2 ^ 62 + 2 ^ 30" using assms by (auto simp: timespec_ok_def)
  have "to_double 0 \<le> to_double ?x" by (rule to_double_mono) (use x in auto)
  moreover have "to_double ?x \<le> to_double (2 ^ 62 + 2 ^ 30)" by (rule to_double_mono [OF x])
  moreover have "to_double 0 = 0" "to_double (2 ^ 62 + 2 ^ 30) < 2 ^ 63" by code_simp+
  ultimately show "0 \<le> current_time tp" "current_time tp < 2 ^ 63"
    using assms by (simp_all add: current_time_rounds timespec_ok_def)
qed

lemma current_time_order:
  assumes "timespec_ok a" "timespec_ok b" "not_before b a"
  shows "current_time a \<le> current_time b"
proof -
  have "tv_sec a * 1000000000 + tv_nsec a \<le> tv_sec b * 1000000000 + tv_nsec b"
    using assms by (auto simp: timespec_ok_def not_before_def)
  then have "to_double (tv_sec a * 1000000000 + tv_nsec a) \<le> to_double (tv_sec b * 1000000000 + tv_nsec b)"
    using assms(1) by (intro to_double_mono) (auto simp: timespec_ok_def)
  then show ?thesis using assms(1,2) by (simp add: current_time_rounds timespec_ok_def)
qed

lemma dpdk_env_last:
  assumes "dpdk_env D clock n ok"
  shows "rte_eth_rx_burst D device w = (r, w') \<Longrightarrow> clock w' = clock w"
    "rte_eth_tx_burst D device buf w = (k, w') \<Longrightarrow> clock w' = clock w"
    "rte_pktmbuf_clone D buf w = (c, w') \<Longrightarrow> clock w' = clock w"
    "clock (rte_pktmbuf_free D buf w) = clock w"
  using assms unfolding dpdk_env_def by (metis snd_conv)+

lemma dpdk_env_clock:
  assumes "dpdk_env D clock n ok"
  shows "timespec_ok (clock w)" "clock_gettime D w = (tp, w') \<Longrightarrow> clock w' = tp"
    "clock_gettime D w = (tp, w') \<Longrightarrow> not_before tp (clock w)" "rte_eth_dev_count_avail D w = n"
  using assms unfolding dpdk_env_def by (metis fst_conv snd_conv)+

lemma flood_loop_last:
  assumes "flood_loop D frame skip n device (w, tr) = Inr (w', tr')" "dpdk_env D clock m ok"
  shows "clock w' = clock w"
  using assms(1)
proof (induction "65536 - unat device" arbitrary: device w tr rule: less_induct)
  case less
  show ?case
  proof (cases "device < n")
    case False
    then show ?thesis using less.prems by (subst (asm) flood_loop.simps) simp
  next
    case True
    note IH = less.hyps [OF next_device(2) [OF True]]
    show ?thesis
    proof (cases "device = skip")
      case skip: True
      then have "flood_loop D frame skip n (device + 1) (w, tr) = Inr (w', tr')"
        using less.prems True by (subst (asm) flood_loop.simps) simp
      then show ?thesis by (rule IH)
    next
      case False
      then show ?thesis
        using less.prems True dpdk_env_last [OF assms(2)]
        by (subst (asm) flood_loop.simps)
          (auto simp: pktmbuf_clone_def tx_burst_def pktmbuf_free_def Let_def
            split: if_splits prod.splits option.splits dest!: IH)
    qed
  qed
qed

lemma flood_clock:
  assumes "flood D frame skip n (w, tr) = Inr (w', tr')" "dpdk_env D clock m ok"
  shows "clock w' = clock w"
proof -
  obtain w1 tr1 where "flood_loop D frame skip n 0 (w, tr) = Inr (w1, tr1)" "w' = rte_pktmbuf_free D frame w1"
    using assms(1) by (auto simp: flood_def pktmbuf_free_def split: sum.splits)
  then show ?thesis using flood_loop_last [OF _ assms(2)] dpdk_env_last(4) [OF assms(2)] by simp
qed

text \<open>
  The invariant of the loop: the handler's state is good for a time that is not after the last reading
  of the clock, and frames were handed to existing devices only.
\<close>

definition loop_inv :: "(int \<Rightarrow> 's \<Rightarrow> bool) \<Rightarrow> u16 \<Rightarrow> ('w \<Rightarrow> timespec) \<Rightarrow> timespec \<Rightarrow> 's \<times> 'w io \<Rightarrow> bool" where
  "loop_inv holds n clock tp = (\<lambda>(s, w, tr). clock w = tp \<and> (\<exists>t. 0 \<le> t \<and> t \<le> current_time tp \<and> holds t s) \<and>
     (\<forall>d\<in>set (tx_devices tr). d < n))"

definition loop_safe :: "('s \<times> 'w io \<Rightarrow> bool) \<Rightarrow> ('s \<times> 'w io) exits option \<Rightarrow> bool" where
  "loop_safe I r \<longleftrightarrow> (case r of None \<Rightarrow> False | Some (Inl msg) \<Rightarrow> True | Some (Inr st) \<Rightarrow> I st)"

lemma loop_safe_simps [simp]:
  "\<not> loop_safe I None" "loop_safe I (Some (Inl msg))" "loop_safe I (Some (Inr st)) \<longleftrightarrow> I st"
  by (simp_all add: loop_safe_def)

lemma loop_safe_bind:
  assumes "loop_safe I r" "\<And>st. I st \<Longrightarrow> loop_safe J (f st)"
  shows "loop_safe J (do { x \<leftarrow> r; case x of Inl msg \<Rightarrow> Some (Inl msg) | Inr st \<Rightarrow> f st })"
  using assms by (cases r rule: option.exhaust; cases "the r") auto

locale polled_nf =
  fixes nf :: "'s nf" and ok :: "u16 \<Rightarrow> mbuf \<Rightarrow> bool" and holds :: "int \<Rightarrow> 's \<Rightarrow> bool" and n :: u16
  assumes handle: "holds t s \<Longrightarrow> 0 \<le> t \<Longrightarrow> t \<le> now \<Longrightarrow> now < 2 ^ 63 \<Longrightarrow> device < n \<Longrightarrow> ok device p \<Longrightarrow>
    \<exists>dst p' s'. nf s p now = Some ((dst, p'), s') \<and> holds now s' \<and>
      (word_of_int dst = device \<or> word_of_int dst = FLOOD_FRAME \<or> word_of_int dst < n)"
begin

lemma poll_safe:
  assumes env: "dpdk_env D clock n ok" and inv: "loop_inv holds n clock tp (s, w, tr)" and dev: "device < n"
  shows "loop_safe (loop_inv holds n clock tp) (lcore_poll D nf (current_time tp) n device (s, w, tr))"
proof (cases "rte_eth_rx_burst D device w")
  case (Pair r w1)
  have w1: "clock w1 = tp" using dpdk_env_last(1) [OF env Pair] inv by (simp add: loop_inv_def)
  then have tp: "timespec_ok tp" using env unfolding dpdk_env_def by blast
  obtain t where t: "0 \<le> t" "t \<le> current_time tp" "holds t s" using inv by (auto simp: loop_inv_def)
  show ?thesis
  proof (cases r)
    case None
    then show ?thesis using Pair inv w1 by (auto simp: lcore_poll_def rx_burst_def loop_inv_def)
  next
    case (Some buf)
    have "ok device (buf_pkt buf)" using env dev Pair Some unfolding dpdk_env_def by (metis fst_conv)
    then obtain dst pkt s' where nf: "nf s (buf_pkt buf) (current_time tp) = Some ((dst, pkt), s')" "holds (current_time tp) s'"
      "word_of_int dst = device \<or> word_of_int dst = FLOOD_FRAME \<or> word_of_int dst < n"
      using handle [OF t(3,1,2) current_time_bound(2) [OF tp] dev] by blast
    let ?buf = "buf\<lparr>buf_pkt := pkt\<rparr>" and ?dst = "word_of_int dst :: u16"
    note simps = lcore_poll_def rx_burst_def Pair Some nf(1) Let_def
    have old: "\<forall>d\<in>set (tx_devices tr). d < n" using inv by (auto simp: loop_inv_def)
    have new: "loop_inv holds n clock tp (s', w', tr @ ev)" if "clock w' = tp" "\<forall>d\<in>set (tx_devices ev). d < n" for w' ev
      using that old nf(2) current_time_bound(1) [OF tp] by (auto simp: loop_inv_def)
    consider "?dst = device" | "?dst \<noteq> device" "?dst = FLOOD_FRAME" | "?dst \<noteq> device" "?dst \<noteq> FLOOD_FRAME" by blast
    then show ?thesis
    proof cases
      case 1
      then show ?thesis using new w1 dpdk_env_last(4) [OF env] by (simp add: simps pktmbuf_free_def)
    next
      case 2
      show ?thesis
      proof (cases "flood D ?buf device n (w1, tr @ [Received device buf])")
        case (Inl msg)
        then show ?thesis using 2 by (simp add: simps)
      next
        case (Inr io)
        obtain w2 tr2 where io: "io = (w2, tr2)" by (cases io)
        obtain ev where ev: "tr2 = (tr @ [Received device buf]) @ ev @ [Freed ?buf]"
          "flood_events ?buf (filter (\<lambda>d. d \<noteq> device) (devices_from 0 n)) ev"
          by (rule flood_produces [OF Inr [unfolded io]])
        have "clock w2 = tp" using flood_clock [OF Inr [unfolded io] env] w1 by simp
        moreover have "\<forall>d\<in>set (tx_devices (Received device buf # ev @ [Freed ?buf])). d < n"
          using flood_events_tx(1) [OF ev(2)] by (simp add: set_devices_from)
        ultimately show ?thesis using new ev(1) 2 Inr io by (simp add: simps)
      qed
    next
      case 3
      then have "?dst < n" using nf(3) by simp
      obtain k w2 where t: "rte_eth_tx_burst D ?dst ?buf w1 = (k, w2)" by (cases "rte_eth_tx_burst D ?dst ?buf w1")
      then have "clock w2 = tp" using dpdk_env_last(2) [OF env t] w1 by simp
      then show ?thesis
        using 3 t new \<open>?dst < n\<close> dpdk_env_last(4) [OF env]
        by (cases "k = 0") (simp_all add: simps tx_burst_def pktmbuf_free_def)
    qed
  qed
qed

lemma devices_safe:
  assumes env: "dpdk_env D clock n ok" and inv: "loop_inv holds n clock tp st"
  shows "loop_safe (loop_inv holds n clock tp) (lcore_devices D nf (current_time tp) n device st)"
  using inv
proof (induction "65536 - unat device" arbitrary: device st rule: less_induct)
  case less
  obtain s w tr where st: "st = (s, w, tr)" by (cases st)
  show ?case
  proof (cases "device < n")
    case False
    then show ?thesis using less.prems by (subst lcore_devices.simps) simp
  next
    case True
    from poll_safe [OF env less.prems [unfolded st] True] show ?thesis
      using True unfolding st
      by (subst lcore_devices.simps) (simp, rule loop_safe_bind, assumption, rule less.hyps [OF next_device(2) [OF True]])
  qed
qed

lemma turn_safe:
  assumes env: "dpdk_env D clock n ok" and inv: "loop_inv holds n clock tp (s, w, tr)"
  shows "\<exists>tp'. loop_safe (loop_inv holds n clock tp') (lcore_turn D nf (s, w, tr))"
proof (cases "clock_gettime D w")
  case (Pair tp' w')
  note l = dpdk_env_clock [OF env]
  have tp: "clock w = tp" using inv by (simp add: loop_inv_def)
  have "current_time tp \<le> current_time tp'"
    using current_time_order [OF l(1) l(1)] l(3) [OF Pair] unfolding tp l(2) [OF Pair] by (metis l(2) Pair tp)
  then have "loop_inv holds n clock tp' (s, w', tr)" using inv l(2) [OF Pair] by (fastforce simp: loop_inv_def)
  from devices_safe [OF env this, of 0] show ?thesis by (auto simp: lcore_turn_def Let_def Pair l(4))
qed

lemma turns_safe:
  assumes env: "dpdk_env D clock n ok" and inv: "loop_inv holds n clock tp st"
  shows "\<exists>tp'. loop_safe (loop_inv holds n clock tp') (lcore_turns k D nf st)"
  using inv
proof (induction k arbitrary: tp st)
  case 0
  then show ?case by auto
next
  case (Suc k)
  obtain s w tr where st: "st = (s, w, tr)" by (cases st)
  obtain tp1 where 1: "loop_safe (loop_inv holds n clock tp1) (lcore_turn D nf st)"
    using turn_safe [OF env] Suc.prems st by blast
  show ?case
  proof (cases "lcore_turn D nf st")
    case (Some r)
    then show ?thesis using 1 Suc.IH by (cases r) auto
  qed (use 1 in simp)
qed

lemma program_safe:
  assumes "dpdk_env D clock n ok" "holds 0 s" "lcore_turns k D nf (s, w, []) = r"
  shows "r \<noteq> None" "r = Some (Inr (s', w', tr')) \<Longrightarrow> d \<in> set (tx_devices tr') \<Longrightarrow> d < n"
proof -
  have "timespec_ok (clock w)" using assms(1) unfolding dpdk_env_def by blast
  then have "loop_inv holds n clock (clock w) (s, w, [])"
    using assms(2) current_time_bound(1) by (auto simp: loop_inv_def)
  then obtain tp where "loop_safe (loop_inv holds n clock tp) r" using turns_safe [OF assms(1)] assms(3) by blast
  then show "r \<noteq> None" "r = Some (Inr (s', w', tr')) \<Longrightarrow> d \<in> set (tx_devices tr') \<Longrightarrow> d < n"
    by (cases r; auto simp: loop_inv_def)+
qed

end

section \<open>The bridge and the firewall in the loop\<close>

text \<open>The bridge leaves the frame as it is.\<close>

definition bridge_nf :: "bridge_config \<Rightarrow> DynamicFilterTable nf" where
  "bridge_nf config ft mbuf now = map_option (\<lambda>(dev, ft'). ((dev, mbuf), ft')) (bridge_core_process config ft mbuf now)"

definition received_on :: "u16 \<Rightarrow> mbuf \<Rightarrow> bool" where
  "received_on device p \<longleftrightarrow> mbuf_ok p \<and> mbuf_port p = device"

definition bridge_in_loop :: "bridge_config \<Rightarrow> u16 \<Rightarrow> int \<Rightarrow> DynamicFilterTable \<Rightarrow> bool" where
  "bridge_in_loop config n t ft \<longleftrightarrow>
     (\<exists>T D. bridge_holds config (T, D) t ft \<and> (\<forall>(k, i, u)\<in>set T. D i < n))"

lemma learn_devices:
  assumes "learn cap (T, D) src port now (T', D')" "\<forall>(k, i, u)\<in>set T. D i < n" "port < n"
  shows "\<forall>(k, i, u)\<in>set T'. D' i < n"
  using assms by (auto elim!: learnE simp: touch_flow_member add_flow_def split: if_splits)

interpretation brl: polled_nf "bridge_nf config" received_on "bridge_in_loop config n" n for config n
proof
  fix t s now device p
  assume h: "bridge_in_loop config n t s" "0 \<le> t" "t \<le> now" "now < 2 ^ 63" "device < n" "received_on device p"
  obtain T D where TD: "bridge_holds config (T, D) t s" "\<forall>(k, i, u)\<in>set T. D i < n"
    using h(1) by (auto simp: bridge_in_loop_def)
  have p: "mbuf_ok p" "mbuf_port p = device" using h(6) by (simp_all add: received_on_def)
  obtain dev s' T' D' where 1: "bridge_core_process config s p now = Some (dev, s')"
    "bridge_table_step config (T, D) p now dev (T', D')" "bridge_holds config (T', D') now s'"
    using bridge_process_refines [OF TD(1) h(2-4) p(1)] by force
  have "\<forall>(k, i, u)\<in>set (expire_flows T (now - uint (bcfg_expiration_time config))). D i < n"
    using TD(2) by (auto simp: expire_flows_def)
  then have dev: "\<forall>(k, i, u)\<in>set T'. D' i < n"
    using 1(2) learn_devices h(5) p(2) by (fastforce simp: bridge_table_step_def learn_expire_def)
  have "word_of_int dev = FLOOD_FRAME \<or> word_of_int dev < n"
  proof (cases "find_flow T' (frame_dst p)")
    case None
    then show ?thesis using 1(2) by (simp add: bridge_table_step_def device_for_def)
  next
    case (Some i)
    then have "\<exists>u. (frame_dst p, i, u) \<in> set T'"
      using find_flow_Some [OF flow_rep_wf] 1(3) by (fastforce simp: bridge_holds_def bridge_rep_def)
    then show ?thesis using Some dev 1(2) by (auto simp: bridge_table_step_def device_for_def)
  qed
  then show "\<exists>dst p' s'. bridge_nf config s p now = Some ((dst, p'), s') \<and> bridge_in_loop config n now s' \<and>
      (word_of_int dst = device \<or> word_of_int dst = FLOOD_FRAME \<or> word_of_int dst < n)"
    using 1(1,3) dev by (auto simp: bridge_nf_def bridge_in_loop_def)
qed

definition fw_in_loop :: "fw_config \<Rightarrow> u16 \<Rightarrow> int \<Rightarrow> fw_manager \<Rightarrow> bool" where
  "fw_in_loop config n t mg \<longleftrightarrow> (\<exists>T. fw_holds config T t mg) \<and> fcfg_lan_device config < n \<and> fcfg_wan_device config < n"

interpretation fwl: polled_nf "fw_step config" received_on "fw_in_loop config n" n for config n
proof
  fix t s now device p
  assume h: "fw_in_loop config n t s" "0 \<le> t" "t \<le> now" "now < 2 ^ 63" "device < n" "received_on device p"
  obtain T where T: "fw_holds config T t s" using h(1) by (auto simp: fw_in_loop_def)
  have p: "mbuf_ok p" "mbuf_port p = device" using h(6) by (simp_all add: received_on_def)
  obtain dev p' s' T' where 1: "fw_step config s p now = Some ((dev, p'), s')"
    "fw_table_step config T p now (dev, p') T'" "fw_holds config T' now s'"
    using fwr.refine [OF T h(2-4) p(1)] by force
  obtain res where res: "(dev, p') = fw_output config p res"
    "fw_spec_step config (uint (fcfg_capacity config)) (expire_flows T (now - uint (fcfg_expiration_time config))) p now res T'"
    using 1(2) by (auto simp: fw_table_step_def)
  have "res \<in> {None, Some (fcfg_lan_device config), Some (fcfg_wan_device config)}"
    using res(2) by (auto elim!: fw_stepE)
  then have "word_of_int dev = device \<or> word_of_int dev < n"
    using res(1) p(2) h(1) by (auto simp: fw_output_def fw_in_loop_def)
  then show "\<exists>dst p' s'. fw_step config s p now = Some ((dst, p'), s') \<and> fw_in_loop config n now s' \<and>
      (word_of_int dst = device \<or> word_of_int dst = FLOOD_FRAME \<or> word_of_int dst < n)"
    using 1(1,3) h(1) by (auto simp: fw_in_loop_def)
qed


section \<open>An example machine\<close>

text \<open>
  Two devices. The state counts the calls; the clock advances with each reading, every second poll
  receives a packet, and the send queue of the devices is full every third time.
\<close>

definition example_dpdk :: "mbuf \<Rightarrow> mbuf \<Rightarrow> (nat \<times> int) dpdk" where
  "example_dpdk p0 p1 = \<lparr>
     rte_eth_rx_burst = \<lambda>device (k, t). (if even k then None else Some \<lparr>buf_addr = k, buf_pkt = if device = 0 then p0 else p1\<rparr>, (k + 1, t)),
     rte_eth_tx_burst = \<lambda>device buf (k, t). (if 3 dvd k then 0 else 1, (k + 1, t)),
     rte_pktmbuf_clone = \<lambda>buf (k, t). (Some (buf\<lparr>buf_addr := 1000 + k\<rparr>), (k + 1, t)),
     rte_pktmbuf_free = \<lambda>buf (k, t). (k + 1, t),
     rte_eth_dev_count_avail = \<lambda>_. 2,
     clock_gettime = \<lambda>(k, t). (\<lparr>tv_sec = min (max 0 t + 1) 4000000000, tv_nsec = 0\<rparr>, (k + 1, max 0 t + 1)),
     rte_eth_dev_configure = \<lambda>_ _ _ w. (0, w),
     rte_eth_tx_queue_setup = \<lambda>_ _ _ w. (0, w),
     rte_eth_rx_queue_setup = \<lambda>_ _ _ w. (0, w),
     rte_eth_dev_start = \<lambda>_ w. (0, w),
     rte_eth_promiscuous_enable = \<lambda>_ w. w,
     rte_eth_promiscuous_get = \<lambda>_ w. (0, w),
     rte_eal_init = \<lambda>w. (0, w),
     rte_pktmbuf_pool_create = \<lambda>_ _ w. (True, w)\<rparr>"

definition example_clock :: "nat \<times> int \<Rightarrow> timespec" where
  "example_clock w = \<lparr>tv_sec = min (max 0 (snd w)) 4000000000, tv_nsec = 0\<rparr>"

lemma example_dpdk_env:
  assumes "received_on 0 p0" "received_on 1 p1"
  shows "dpdk_env (example_dpdk p0 p1) example_clock 2 received_on"
proof -
  have "(device :: u16) = 1" if "device < 2" "device \<noteq> 0" for device
    using that by (simp add: word_less_nat_alt word_unat_eq_iff)
  then show ?thesis
    using assms
    by (auto simp: dpdk_env_def example_dpdk_def example_clock_def timespec_ok_def not_before_def split: if_splits)
qed

section \<open>Properties\<close>

text \<open>
  C10. The main loop returns every buffer it gets, exactly once, whatever the packet handler and DPDK do:
  after any number of turns every buffer that was received or cloned has been sent or freed, no buffer
  is used after that, and none is freed twice.
\<close>

theorem lcore_returns_every_buffer:
  assumes "lcore_turns k D nf (s, w, []) = Some (Inr (s', w', tr))"
  shows "own {#} tr = Some {#}"
  by (rule loop_events_own [OF lcore_turns_events [OF assms loop_events.start]])

theorem lcore_returns_every_buffer_witness:
  "\<exists>s' w' tr. lcore_turns 2 (example_dpdk (example_frame 0 2 1) (example_frame 1 2 1)) (\<lambda>s p now. Some ((65535, p), s)) (0 :: int, (1, 0), [])
      = Some (Inr (s', w', tr)) \<and> own {#} tr = Some {#}"
proof -
  let ?r = "lcore_turns 2 (example_dpdk (example_frame 0 2 1) (example_frame 1 2 1)) (\<lambda>s p now. Some ((65535, p), s)) (0 :: int, (1, 0), [])"
  have "case ?r of Some (Inr st) \<Rightarrow> True | _ \<Rightarrow> False" by code_simp
  then obtain s' w' tr where r: "?r = Some (Inr (s', w', tr))" by (auto split: option.splits sum.splits)
  from lcore_returns_every_buffer [OF r] r show ?thesis by blast
qed


text \<open>
  The main loop never sends a frame out on the device it came in on, neither when the packet
  handler names that device nor when the frame is flooded.
\<close>

lemma lcore_never_reflects:
  assumes "lcore_turns k D nf (s, w, []) = Some (Inr (s', w', tr))"
  shows "never_back cur tr"
  by (rule loop_events_never_back [OF lcore_turns_events [OF assms loop_events.start]])

text \<open>
  As long as copies can be made, \<open>flood\<close> returns, and then it has offered one copy of the frame to
  every device but the one to skip, in order, has freed the copies that were not taken, and has freed
  the frame itself.
\<close>

lemma flood_offers_every_device:
  assumes "\<And>w. fst (rte_pktmbuf_clone D frame w) \<noteq> None"
  shows "\<exists>w' ev. flood D frame skip n (w, tr) = Inr (w', tr @ ev @ [Freed frame]) \<and>
    flood_events frame (filter (\<lambda>d. d \<noteq> skip) (devices_from 0 n)) ev"
proof -
  obtain io where "flood_loop D frame skip n 0 (w, tr) = Inr io"
    using flood_total [OF assms, of skip n 0 "(w, tr)"] by blast
  then obtain w1 tr1 where 1: "flood_loop D frame skip n 0 (w, tr) = Inr (w1, tr1)" by (cases io) simp
  obtain ev where "tr1 = tr @ ev" "flood_events frame (filter (\<lambda>d. d \<noteq> skip) (devices_from 0 n)) ev"
    using flood_loop_events [OF 1] by blast
  then show ?thesis using 1 by (auto simp: flood_def pktmbuf_free_def)
qed



text \<open>
  The firewall as a program: started with devices that exist, it runs in the main loop for any number
  of turns without a memory error or a failed assertion, and sends packets to existing devices only.
\<close>

lemma fw_program_safe:
  assumes "fw_started config mg" "fw_config_ok config" "capacity_ok m" "sizeof_Flow * int m < 2 ^ 32"
    "uint (fcfg_capacity config) = int m" "fcfg_lan_device config < n" "fcfg_wan_device config < n"
    and "dpdk_env D clock n received_on"
  shows "lcore_turns k D (fw_step config) (mg, w, []) \<noteq> None \<and>
    (\<forall>mg' w' tr. lcore_turns k D (fw_step config) (mg, w, []) = Some (Inr (mg', w', tr)) \<longrightarrow>
      (\<forall>d\<in>set (tx_devices tr). d < n))"
proof -
  have "fw_in_loop config n 0 mg" using fw_started_holds [OF assms(1-5)] assms(6,7) by (auto simp: fw_in_loop_def)
  from fwl.program_safe [OF assms(8) this refl] show ?thesis by blast
qed

text \<open>
  \<open>nf_init_device\<close> stops at the first call that fails and returns its code. When all calls succeed it
  returns 0, also when the device then reports that it is not in promiscuous mode: the check for that
  returns the code of the last successful call.
\<close>

lemma nf_init_device_result:
  "fst (nf_init_device D device w) = (
     let (r1, w1) = rte_eth_dev_configure D device 1 1 w;
         (r2, w2) = rte_eth_tx_queue_setup D device 0 96 w1;
         (r3, w3) = rte_eth_rx_queue_setup D device 0 96 w2;
         (r4, w4) = rte_eth_dev_start D device w3
     in if r1 \<noteq> 0 then r1 else if r2 \<noteq> 0 then r2 else if r3 \<noteq> 0 then r3 else r4)"
  by (simp add: nf_init_device_def RX_QUEUES_COUNT_def TX_QUEUES_COUNT_def RX_QUEUE_SIZE_def TX_QUEUE_SIZE_def
      Let_def split: prod.splits)

end
