(* ===== verification/LbCht.thy ===== *)
theory LbCht
  imports DoubleChain Vector
begin

text \<open>
  The consistent hashing table of the load balancer, \<open>dpdk-nfs/nf/vigbalancer/lb_balancer.c\<close>: how it is
  filled and how a backend is looked up in it. The table has a row of backends for every hash value,
  stored one after the other in a vector; a row lists all the backends in the order of preference.

  The arithmetic of the permutations is on C integers, and a value that does not fit goes wrong.
\<close>

section \<open>Filling the table\<close>

definition c_int :: "int \<Rightarrow> int option" where
  "c_int x = (if is_c_int x then Some x else None)"

text \<open>The loop that asserts that the height is prime.\<close>

function lb_check_prime :: "int \<Rightarrow> int \<Rightarrow> unit option" where
  "lb_check_prime i cht_height = do {
     square \<leftarrow> c_int (i * i);
     if square \<le> cht_height then do {
       assertion (i * (cht_height div i) \<noteq> cht_height);
       lb_check_prime (i + 1) cht_height
     } else Some ()
   }"
  by pat_completeness auto
termination
proof (relation "measure (\<lambda>(i, cht_height). nat (cht_height + 1 - i))", goal_cases)
  case (2 i cht_height square u)
  have "i \<le> i * i" using mult_le_cancel_left1 [of i i] by (cases "0 < i") (auto simp: mult_nonneg_nonneg intro: order_trans)
  then show ?case using 2 by (simp add: c_int_def split: if_splits)
qed simp

function lb_permute_backend :: "int list \<Rightarrow> int \<Rightarrow> int \<Rightarrow> int \<Rightarrow> int \<Rightarrow> int \<Rightarrow> int list option" where
  "lb_permute_backend permutations cht_height i offset shift j =
     (if j < cht_height then do {
        pos \<leftarrow> c_int (offset + shift * j);
        index \<leftarrow> c_int (i * cht_height + j);
        permutations \<leftarrow> wr permutations index (pos mod cht_height);
        lb_permute_backend permutations cht_height i offset shift (j + 1)
      } else Some permutations)"
  by pat_completeness auto
termination
  by (relation "measure (\<lambda>(permutations, cht_height, i, offset, shift, j). nat (cht_height - j))") auto

function lb_permutations :: "int list \<Rightarrow> int \<Rightarrow> int \<Rightarrow> int \<Rightarrow> int list option" where
  "lb_permutations permutations cht_height backend_capacity i =
     (if i < backend_capacity then do {
        n \<leftarrow> c_int (i * 31);
        let offset = n mod cht_height;
        let shift = i mod cht_height + 1;
        permutations \<leftarrow> lb_permute_backend permutations cht_height i offset shift 0;
        lb_permutations permutations cht_height backend_capacity (i + 1)
      } else Some permutations)"
  by pat_completeness auto
termination
  by (relation "measure (\<lambda>(permutations, cht_height, backend_capacity, i). nat (backend_capacity - i))") auto

text \<open>The search for the next occurrence of \<open>i\<close>: position by position, and at each position backend by backend.\<close>

function lb_seek :: "int list \<Rightarrow> int \<Rightarrow> int \<Rightarrow> int \<Rightarrow> int \<Rightarrow> int \<Rightarrow> (int \<times> int) option" where
  "lb_seek permutations cht_height backend_capacity i bknd perm_pos = do {
     x \<leftarrow> rd permutations (bknd * cht_height + perm_pos);
     if x = i then Some (bknd, perm_pos)
     else if backend_capacity \<le> bknd + 1 then do {
       assertion (perm_pos + 1 < cht_height);
       lb_seek permutations cht_height backend_capacity i 0 (perm_pos + 1)
     }
     else lb_seek permutations cht_height backend_capacity i (bknd + 1) perm_pos
   }"
  by pat_completeness auto
termination
  by (relation "measures [\<lambda>(permutations, cht_height, backend_capacity, i, bknd, perm_pos). nat (cht_height - perm_pos),
      \<lambda>(permutations, cht_height, backend_capacity, i, bknd, perm_pos). nat (backend_capacity - bknd)]")
    (auto simp: assertion_def split: if_splits)

function lb_fill_row :: "int list \<Rightarrow> u32 vector \<Rightarrow> int \<Rightarrow> int \<Rightarrow> int \<Rightarrow> int \<Rightarrow> int \<Rightarrow> int \<Rightarrow> u32 vector option" where
  "lb_fill_row permutations cht cht_height backend_capacity i bknd perm_pos j =
     (if j < backend_capacity then do {
        assertion (perm_pos < cht_height);
        (bknd, perm_pos) \<leftarrow> lb_seek permutations cht_height backend_capacity i bknd perm_pos;
        index \<leftarrow> c_int (i * backend_capacity + j);
        let p = vector_borrow cht index;
        cht \<leftarrow> vector_store cht p (word_of_int bknd);
        let cht = vector_return cht index p;
        let bknd = bknd + 1;
        let (bknd, perm_pos) = (if backend_capacity \<le> bknd then (0, perm_pos + 1) else (bknd, perm_pos));
        lb_fill_row permutations cht cht_height backend_capacity i bknd perm_pos (j + 1)
      } else Some cht)"
  by pat_completeness auto
termination
  by (relation "measure (\<lambda>(permutations, cht, cht_height, backend_capacity, i, bknd, perm_pos, j). nat (backend_capacity - j))")
    auto

function lb_fill_rows :: "int list \<Rightarrow> u32 vector \<Rightarrow> int \<Rightarrow> int \<Rightarrow> int \<Rightarrow> u32 vector option" where
  "lb_fill_rows permutations cht cht_height backend_capacity i =
     (if i < cht_height then do {
        cht \<leftarrow> lb_fill_row permutations cht cht_height backend_capacity i 0 0 0;
        lb_fill_rows permutations cht cht_height backend_capacity (i + 1)
      } else Some cht)"
  by pat_completeness auto
termination
  by (relation "measure (\<lambda>(permutations, cht, cht_height, backend_capacity, i). nat (cht_height - i))") auto

declare lb_check_prime.simps [simp del] lb_permute_backend.simps [simp del] lb_permutations.simps [simp del]
  lb_seek.simps [simp del] lb_fill_row.simps [simp del] lb_fill_rows.simps [simp del]

text \<open>
  The result of \<open>malloc\<close> is not checked: when it fails, the first write through the null pointer goes
  wrong. \<open>junk\<close> is what the new block holds.
\<close>

definition lb_fill_cht ::
  "(nat \<Rightarrow> nat \<Rightarrow> int) \<Rightarrow> u32 vector \<Rightarrow> int \<Rightarrow> int \<Rightarrow> heap \<Rightarrow> (u32 vector \<times> heap) option" where
  "lb_fill_cht junk cht cht_height backend_capacity h = do {
     lb_check_prime 2 cht_height;
     assertion (backend_capacity < cht_height);
     (case malloc h of
        (None, h) \<Rightarrow> None
      | (Some b, h) \<Rightarrow> do {
          let permutations = map (junk b) [0..<nat (cht_height * (backend_capacity + 1))];
          permutations \<leftarrow> lb_permutations permutations cht_height backend_capacity 0;
          cht \<leftarrow> lb_fill_rows permutations cht cht_height backend_capacity 0;
          h \<leftarrow> free b h;
          Some (cht, h)
        })
   }"

section \<open>Looking up a backend\<close>

text \<open>The hash of the flow, the window of candidates and the active backends; the result is \<open>found\<close> and \<open>*chosen_backend\<close>.\<close>

function lb_find_loop :: "u64 \<Rightarrow> u32 vector \<Rightarrow> DoubleChain \<Rightarrow> u32 \<Rightarrow> u32 \<Rightarrow> int \<Rightarrow> int \<Rightarrow> (int \<times> int) option" where
  "lb_find_loop hash cht active_backends cht_height backend_capacity chosen i =
     (if i < uint backend_capacity then do {
        assertion (cht_height \<noteq> 0);
        let candidate_idx = sint (ucast ((hash + word_of_int i) mod ucast cht_height) :: u32);
        let candidate = vector_borrow cht candidate_idx;
        backend \<leftarrow> vector_load cht candidate;
        active \<leftarrow> dchain_is_index_allocated active_backends (sint backend);
        if active then Some (1, sint backend)
        else lb_find_loop hash cht active_backends cht_height backend_capacity chosen (i + 1)
      } else Some (0, chosen))"
  by pat_completeness auto
termination
  by (relation "measure (\<lambda>(hash, cht, active, height, cap, chosen, i). nat (uint cap - i))") auto

declare lb_find_loop.simps [simp del]


section \<open>The height is prime\<close>

text \<open>Up to \<open>46340\<close> squared no square that the loop computes overflows.\<close>

abbreviation max_height :: int where
  "max_height \<equiv> 46340 * 46340"

lemma c_int_square:
  assumes "2 \<le> i" "i \<le> 46340"
  shows "c_int (i * i) = Some (i * i)"
proof -
  have "i * i \<le> 46340 * 46340" using assms by (intro mult_mono) auto
  moreover have "0 \<le> i * i" by simp
  ultimately have "is_c_int (i * i)" unfolding is_c_int_def INT_MIN_def INT_MAX_def by linarith
  then show ?thesis by (simp add: c_int_def)
qed

lemma lb_check_prime_Some:
  assumes "2 \<le> i" "i \<le> 46340" "h < max_height"
  shows "lb_check_prime i h = Some () \<longleftrightarrow> (\<forall>d. i \<le> d \<and> d * d \<le> h \<longrightarrow> \<not> d dvd h)"
  using assms
proof (induction i h rule: lb_check_prime.induct)
  case (1 i h)
  have dvd: "i * (h div i) = h \<longleftrightarrow> i dvd h" using 1(2) by (metis dvd_mult_div_cancel dvd_triv_left)
  have sq: "c_int (i * i) = Some (i * i)" by (rule c_int_square [OF 1(2,3)])
  show ?case
  proof (cases "i * i \<le> h")
    case le: True
    show ?thesis
    proof (cases "i dvd h")
      case True
      then show ?thesis using le dvd sq by (subst lb_check_prime.simps) auto
    next
      case False
      have "i + 1 \<le> 46340"
      proof (rule ccontr)
        assume "\<not> i + 1 \<le> 46340"
        then have "46340 * 46340 \<le> i * i" by (intro mult_mono) auto
        then show False using le 1(4) by simp
      qed
      then have ih: "lb_check_prime (i + 1) h = Some () \<longleftrightarrow> (\<forall>d. i + 1 \<le> d \<and> d * d \<le> h \<longrightarrow> \<not> d dvd h)"
        using 1(1) [OF sq le, of "()"] 1(2,4) False dvd by simp
      have "lb_check_prime i h = lb_check_prime (i + 1) h" using le dvd sq False by (subst lb_check_prime.simps) simp
      also have "\<dots> = Some () \<longleftrightarrow> (\<forall>d. i + 1 \<le> d \<and> d * d \<le> h \<longrightarrow> \<not> d dvd h)" by (rule ih)
      also have "\<dots> \<longleftrightarrow> (\<forall>d. i \<le> d \<and> d * d \<le> h \<longrightarrow> \<not> d dvd h)"
        using False by (metis add1_zle_eq order_le_less)
      finally show ?thesis .
    qed
  next
    case False
    have "d * d \<le> h \<Longrightarrow> i \<le> d \<Longrightarrow> False" for d
      using False 1(2) mult_mono [of i d i d] by simp
    then show ?thesis using False sq by (subst lb_check_prime.simps) auto
  qed
qed

definition prime_height :: "int \<Rightarrow> bool" where
  "prime_height h \<longleftrightarrow> 2 \<le> h \<and> (\<forall>d. 1 < d \<and> d < h \<longrightarrow> \<not> d dvd h)"

lemma lb_check_prime_iff:
  assumes "2 \<le> h" "h < max_height"
  shows "lb_check_prime 2 h = Some () \<longleftrightarrow> prime_height h"
proof
  assume "lb_check_prime 2 h = Some ()"
  then have small: "\<not> d dvd h" if "2 \<le> d" "d * d \<le> h" for d using lb_check_prime_Some [of 2 h] assms(2) that by simp
  have "\<not> d dvd h" if d: "1 < d" "d < h" for d
  proof
    assume "d dvd h"
    then obtain e where e: "h = d * e" by (rule dvdE)
    have e2: "2 \<le> e"
    proof (rule ccontr)
      assume "\<not> 2 \<le> e"
      then have "e \<le> 1" by simp
      then have "d * e \<le> d * 1" using d by (intro mult_left_mono) auto
      then show False using e d by simp
    qed
    show False
    proof (cases "d \<le> e")
      case True
      then have "d * d \<le> h" using e d by (simp add: mult_left_mono)
      then show ?thesis using small [of d] d \<open>d dvd h\<close> by simp
    next
      case False
      then have "e * e \<le> h" using e e2 by (simp add: mult_right_mono)
      then show ?thesis using small [of e] e2 e by simp
    qed
  qed
  then show "prime_height h" using assms by (simp add: prime_height_def)
next
  assume p: "prime_height h"
  have "d < h" if "2 \<le> d" "d * d \<le> h" for d
  proof -
    have "d * 2 \<le> d * d" using that by simp
    then show ?thesis using that by linarith
  qed
  then show "lb_check_prime 2 h = Some ()" using p lb_check_prime_Some [of 2 h] assms(2) by (auto simp: prime_height_def)
qed

lemma prime_height_coprime:
  assumes "prime_height h" "0 < s" "s < h"
  shows "coprime s h"
proof -
  have "gcd s h \<le> s" using assms(2) by (simp add: zdvd_imp_le)
  moreover have "0 < gcd s h" using assms(2) by simp
  ultimately have "gcd s h = 1"
    using assms(1,3) gcd_dvd2 [of s h] unfolding prime_height_def by (metis int_one_le_iff_zero_less order_le_less order_le_less_trans)
  then show ?thesis by (simp add: coprime_iff_gcd_eq_1)
qed

section \<open>Permutations\<close>

text \<open>The position-to-hash function of backend \<open>b\<close>.\<close>

definition lb_perm :: "nat \<Rightarrow> nat \<Rightarrow> nat \<Rightarrow> nat" where
  "lb_perm h b p = (b * 31 mod h + (b mod h + 1) * p) mod h"

lemma lb_perm_inj:
  assumes "prime_height (int h)" "b + 1 < h"
  shows "inj_on (lb_perm h b) {0..<h}"
proof (rule inj_onI)
  fix p q assume p: "p \<in> {0..<h}" and q: "q \<in> {0..<h}" and eq: "lb_perm h b p = lb_perm h b q"
  let ?s = "int (b mod h + 1)" and ?o = "int (b * 31 mod h)"
  have s: "0 < ?s" "?s < int h" using assms(2) by auto
  have "(?o + ?s * int p) mod int h = (?o + ?s * int q) mod int h"
    using arg_cong [OF eq, of int] unfolding lb_perm_def by (simp only: zmod_int of_nat_add of_nat_mult)
  then have "int h dvd (?o + ?s * int p) - (?o + ?s * int q)" by (simp add: mod_eq_dvd_iff)
  then have "int h dvd ?s * (int p - int q)" by (simp add: right_diff_distrib)
  then have d: "int h dvd int p - int q"
    using prime_height_coprime [OF assms(1) s] by (simp add: coprime_dvd_mult_right_iff coprime_commute)
  have "\<bar>int p - int q\<bar> < int h" using p q by auto
  then have "int p - int q = 0" using zdvd_imp_le [of "int h" "\<bar>int p - int q\<bar>"] d by fastforce
  then show "p = q" by simp
qed

lemma lb_perm_bij:
  assumes "prime_height (int h)" "b + 1 < h"
  shows "bij_betw (lb_perm h b) {0..<h} {0..<h}"
proof -
  have "lb_perm h b ` {0..<h} \<subseteq> {0..<h}" using assms(2) by (auto simp: lb_perm_def)
  then have "lb_perm h b ` {0..<h} = {0..<h}"
    using lb_perm_inj [OF assms] by (simp add: endo_inj_surj)
  then show ?thesis using lb_perm_inj [OF assms] by (simp add: bij_betw_def)
qed


text \<open>The sizes for which all the products fit into an \<open>int\<close>.\<close>

definition cht_fits :: "nat \<Rightarrow> nat \<Rightarrow> bool" where
  "cht_fits h c \<longleftrightarrow> c < h \<and> h * (c + 1) \<le> 2 ^ 31"

lemma c_int_of_nat: "n < 2 ^ 31 \<Longrightarrow> c_int (int n) = Some (int n)"
  by (simp add: c_int_def is_c_int_def INT_MIN_def INT_MAX_def)

lemma cht_fits_bounds:
  assumes "cht_fits h c" "b < c" "j < h"
  shows "b * 31 < 2 ^ 31" "b * 31 mod h + (b mod h + 1) * j < 2 ^ 31" "b * h + j < 2 ^ 31" "j * c + b < 2 ^ 31"
proof -
  have ch: "c < h" "h * (c + 1) \<le> 2 ^ 31" using assms(1) by (simp_all add: cht_fits_def)
  have sq: "c * c \<le> 2 ^ 31"
    using mult_le_mono [of c h c "c + 1"] ch by simp
  have "c < 46341"
  proof (rule ccontr)
    assume "\<not> c < 46341"
    then have "46341 * 46341 \<le> c * c" by (intro mult_le_mono) auto
    then show False using sq by simp
  qed
  then show "b * 31 < 2 ^ 31" using assms(2) by simp
  have "b * h + h \<le> c * h" using mult_le_mono1 [of "b + 1" c h] assms(2) by simp
  moreover have le: "c * h + h \<le> 2 ^ 31" using ch(2) by (simp add: algebra_simps)
  ultimately show "b * h + j < 2 ^ 31" using assms(3) by linarith
  have "j * c + c \<le> h * c" using mult_le_mono1 [of "j + 1" h c] assms(3) by simp
  then show "j * c + b < 2 ^ 31" using le assms(2) ch(1) by (simp add: mult.commute)
  have "(b mod h + 1) * j \<le> c * j" using assms(2) ch(1) by (intro mult_le_mono1) simp
  also have "\<dots> \<le> c * h" using assms(3) by simp
  finally have "(b mod h + 1) * j \<le> c * h" .
  moreover have "b * 31 mod h < h" using ch(1) by simp
  ultimately show "b * 31 mod h + (b mod h + 1) * j < 2 ^ 31" using le by linarith
qed

lemma lb_permute_backend_spec:
  assumes fits: "cht_fits h c" "b < c" and len: "length ps = h * (c + 1)" and "j \<le> h"
  shows "\<exists>ps'. lb_permute_backend ps (int h) (int b) (int (b * 31 mod h)) (int (b mod h + 1)) (int j) = Some ps' \<and>
    length ps' = h * (c + 1) \<and>
    (\<forall>k. ps' ! k = (if b * h + j \<le> k \<and> k < b * h + h then int (lb_perm h b (k - b * h)) else ps ! k))"
  using len assms(4)
proof (induction "h - j" arbitrary: j ps)
  case 0
  then show ?case by (subst lb_permute_backend.simps) auto
next
  case (Suc x)
  then have j: "j < h" by simp
  note bnd = cht_fits_bounds [OF fits j]
  have in_range: "b * h + j < length ps"
  proof -
    have "b * h + h \<le> c * h" using mult_le_mono1 [of "b + 1" c h] fits(2) by simp
    then show ?thesis using j Suc.prems(1) by (simp add: algebra_simps)
  qed
  let ?ps = "ps[b * h + j := int (lb_perm h b j)]"
  have step: "lb_permute_backend ps (int h) (int b) (int (b * 31 mod h)) (int (b mod h + 1)) (int j)
      = lb_permute_backend ?ps (int h) (int b) (int (b * 31 mod h)) (int (b mod h + 1)) (int (j + 1))"
  proof -
    have pos: "int (b * 31 mod h) + int (b mod h + 1) * int j = int (b * 31 mod h + (b mod h + 1) * j)"
      by (simp only: of_nat_add of_nat_mult)
    have idx: "int b * int h + int j = int (b * h + j)" by simp
    have val: "int (b * 31 mod h + (b mod h + 1) * j) mod int h = int (lb_perm h b j)"
      by (simp only: lb_perm_def zmod_int)
    show ?thesis
      by (subst lb_permute_backend.simps)
        (simp only: pos idx c_int_of_nat [OF bnd(2)] c_int_of_nat [OF bnd(3)] val wr_int [OF in_range]
          Option.bind.simps of_nat_less_iff j if_True, simp add: add.commute)
  qed
  obtain ps' where ps': "lb_permute_backend ?ps (int h) (int b) (int (b * 31 mod h)) (int (b mod h + 1)) (int (j + 1)) = Some ps'"
    "length ps' = h * (c + 1)"
    "\<forall>k. ps' ! k = (if b * h + (j + 1) \<le> k \<and> k < b * h + h then int (lb_perm h b (k - b * h)) else ?ps ! k)"
  proof -
    have "x = h - (j + 1)" "length ?ps = h * (c + 1)" "j + 1 \<le> h" using Suc.hyps(2) Suc.prems j by simp_all
    then show thesis using Suc.hyps(1) [of "j + 1" ?ps] that by blast
  qed
  have "ps' ! k = (if b * h + j \<le> k \<and> k < b * h + h then int (lb_perm h b (k - b * h)) else ps ! k)" for k
    using ps'(3) in_range j by (cases "k = b * h + j") auto
  then show ?case using step ps'(1,2) by simp
qed

lemma lb_permutations_spec:
  assumes fits: "cht_fits h c" and len: "length ps = h * (c + 1)" and b: "b \<le> c"
    and before: "\<forall>b'<b. \<forall>p<h. ps ! (b' * h + p) = int (lb_perm h b' p)"
  shows "\<exists>ps'. lb_permutations ps (int h) (int c) (int b) = Some ps' \<and> length ps' = h * (c + 1) \<and>
    (\<forall>b'<c. \<forall>p<h. ps' ! (b' * h + p) = int (lb_perm h b' p))"
  using len b before
proof (induction "c - b" arbitrary: b ps)
  case 0
  then show ?case by (subst lb_permutations.simps) auto
next
  case (Suc x)
  then have b: "b < c" by simp
  have h: "0 < h" using fits by (auto simp: cht_fits_def)
  obtain ps1 where 1: "lb_permute_backend ps (int h) (int b) (int (b * 31 mod h)) (int (b mod h + 1)) (int 0) = Some ps1"
    "length ps1 = h * (c + 1)"
    "\<forall>k. ps1 ! k = (if b * h + 0 \<le> k \<and> k < b * h + h then int (lb_perm h b (k - b * h)) else ps ! k)"
    using lb_permute_backend_spec [OF fits b Suc.prems(1), of 0] by auto
  have n: "c_int (int b * 31) = Some (int (b * 31))"
    using c_int_of_nat [OF cht_fits_bounds(1) [OF fits b h]] by simp
  have "int (b * 31) mod int h = int (b * 31 mod h)" "int b mod int h + 1 = int (b mod h + 1)"
    by (simp_all only: zmod_int of_nat_add of_nat_1)
  then have step: "lb_permutations ps (int h) (int c) (int b) = lb_permutations ps1 (int h) (int c) (int (b + 1))"
    using b 1(1) by (subst lb_permutations.simps) (simp add: n Let_def add.commute)
  have "ps1 ! (b' * h + p) = int (lb_perm h b' p)" if "b' < b + 1" "p < h" for b' p
  proof (cases "b' = b")
    case True
    then show ?thesis using 1(3) that by simp
  next
    case False
    then have "b' * h + h \<le> b * h" using mult_le_mono1 [of "b' + 1" b h] that by simp
    then have "\<not> b * h \<le> b' * h + p" using that by linarith
    then show ?thesis using 1(3) Suc.prems(3) False that by simp
  qed
  then show ?case using Suc.hyps(1) [of "b + 1" ps1] Suc.hyps(2) 1(2) b step by simp
qed

section \<open>The search finds the next occurrence\<close>

text \<open>
  The pairs of a position and a backend are numbered in the order of the search: number \<open>q\<close> is backend
  \<open>q mod c\<close> at position \<open>q div c\<close>.
\<close>

definition hits :: "nat \<Rightarrow> nat \<Rightarrow> nat \<Rightarrow> nat \<Rightarrow> nat list" where
  "hits h c i q = filter (\<lambda>q. lb_perm h (q mod c) (q div c) = i) [q..<h * c]"

lemma hits_step:
  "q < h * c \<Longrightarrow> hits h c i q = (if lb_perm h (q mod c) (q div c) = i then [q] else []) @ hits h c i (Suc q)"
  by (simp add: hits_def upt_conv_Cons)

lemma next_pair:
  assumes "0 < c"
  shows "Suc q mod c = (if Suc (q mod c) = c then 0 else Suc (q mod c))"
    "Suc q div c = (if Suc (q mod c) = c then Suc (q div c) else q div c)"
  using assms by (simp_all add: mod_Suc div_Suc)

lemma lb_seek_spec:
  assumes c: "0 < c" and perms: "\<forall>b<c. \<forall>p<h. ps ! (b * h + p) = int (lb_perm h b p)" "length ps = h * (c + 1)"
    and q: "q < h * c"
  shows "lb_seek ps (int h) (int c) (int i) (int (q mod c)) (int (q div c)) =
    (case hits h c i q of [] \<Rightarrow> None | q' # _ \<Rightarrow> Some (int (q' mod c), int (q' div c)))"
  using q
proof (induction "h * c - q" arbitrary: q)
  case 0
  then show ?case by simp
next
  case (Suc x)
  have mc: "q mod c < c" using c by simp
  have dh: "q div c < h" using Suc.prems c by (simp add: div_less_iff_less_mult)
  have "(q mod c) * h + q div c < length ps"
  proof -
    have "(q mod c) * h + h \<le> c * h" using mult_le_mono1 [of "q mod c + 1" c h] mc by simp
    then show ?thesis using dh perms(2) by (simp add: algebra_simps)
  qed
  then have rd: "rd ps (int (q mod c) * int h + int (q div c)) = Some (int (lb_perm h (q mod c) (q div c)))"
    using perms(1) mc dh rd_int [of "(q mod c) * h + q div c" ps] by simp
  show ?case
  proof (cases "lb_perm h (q mod c) (q div c) = i")
    case True
    then show ?thesis using rd by (subst lb_seek.simps) (simp add: hits_step [OF Suc.prems])
  next
    case False
    have hs: "hits h c i q = hits h c i (Suc q)" using hits_step [OF Suc.prems] False by simp
    show ?thesis
    proof (cases "Suc q < h * c")
      case True
      have ih: "lb_seek ps (int h) (int c) (int i) (int (Suc q mod c)) (int (Suc q div c)) =
          (case hits h c i (Suc q) of [] \<Rightarrow> None | q' # _ \<Rightarrow> Some (int (q' mod c), int (q' div c)))"
        using Suc.hyps(1) [of "Suc q"] Suc.hyps(2) True by simp
      show ?thesis
      proof (cases "Suc (q mod c) = c")
        case last: True
        have "Suc q div c < h" using True c by (simp add: div_less_iff_less_mult)
        then have "q div c + 1 < h" using next_pair(2) [OF c, of q] last by simp
        then show ?thesis
          using rd False ih hs next_pair [OF c, of q] last
          by (subst lb_seek.simps) (simp add: add.commute)
      next
        case mid: False
        then have "\<not> c \<le> Suc (q mod c)" using mc by simp
        then show ?thesis
          using rd False ih hs next_pair [OF c, of q] mid
          by (subst lb_seek.simps) (simp add: add.commute)
      qed
    next
      case end_: False
      then have e: "Suc q = h * c" using Suc.prems by simp
      have "Suc (q mod c) = c" "q div c + 1 = h"
        using next_pair [OF c, of q] e c by (auto split: if_splits)
      moreover have "hits h c i (Suc q) = []" by (simp add: hits_def e)
      ultimately show ?thesis using rd False hs by (subst lb_seek.simps) simp
    qed
  qed
qed

section \<open>Every row is a preference list\<close>

definition preference :: "nat \<Rightarrow> nat \<Rightarrow> nat \<Rightarrow> nat list" where
  "preference h c i = map (\<lambda>q. q mod c) (hits h c i 0)"

text \<open>Every backend has exactly one hit, so a row lists every backend exactly once.\<close>

lemma preference_permutation:
  assumes p: "prime_height (int h)" and c: "0 < c" "c < h" and i: "i < h"
  shows "distinct (preference h c i)" "set (preference h c i) = {0..<c}"
proof -
  have mem: "q \<in> set (hits h c i 0) \<longleftrightarrow> q < h * c \<and> lb_perm h (q mod c) (q div c) = i" for q
    by (auto simp: hits_def)
  have inj: "lb_perm h b x = lb_perm h b y \<Longrightarrow> x < h \<Longrightarrow> y < h \<Longrightarrow> x = y" if "b < c" for b x y
    using lb_perm_inj [OF p, of b] that c by (auto simp: inj_on_def)
  have "inj_on (\<lambda>q. q mod c) (set (hits h c i 0))"
  proof (rule inj_onI)
    fix x y assume x: "x \<in> set (hits h c i 0)" and y: "y \<in> set (hits h c i 0)" and eq: "x mod c = y mod c"
    have "x div c < h" "y div c < h" using x y c by (simp_all add: mem div_less_iff_less_mult)
    then have "x div c = y div c" using inj [of "x mod c" "x div c" "y div c"] x y eq c by (simp add: mem)
    then show "x = y" using eq div_mult_mod_eq [of x c] div_mult_mod_eq [of y c] by metis
  qed
  then show "distinct (preference h c i)" by (simp add: preference_def distinct_map hits_def)
  show "set (preference h c i) = {0..<c}"
  proof
    show "set (preference h c i) \<subseteq> {0..<c}" using c by (auto simp: preference_def)
    show "{0..<c} \<subseteq> set (preference h c i)"
    proof
      fix b assume b: "b \<in> {0..<c}"
      then have "i \<in> lb_perm h b ` {0..<h}" using lb_perm_bij [OF p, of b] c i by (simp add: bij_betw_def)
      then obtain x where x: "x < h" "lb_perm h b x = i" by auto
      let ?q = "x * c + b"
      have "?q < h * c" using mult_le_mono1 [of "x + 1" h c] x b by simp
      moreover have "?q mod c = b" "?q div c = x" using b c by simp_all
      ultimately have "?q \<in> set (hits h c i 0)" using x by (simp add: mem)
      then show "b \<in> set (preference h c i)" using \<open>?q mod c = b\<close> by (force simp: preference_def)
    qed
  qed
qed

lemma length_hits:
  assumes "prime_height (int h)" "0 < c" "c < h" "i < h"
  shows "length (hits h c i 0) = c"
  using preference_permutation [OF assms] distinct_card [of "preference h c i"] by (simp add: preference_def)

text \<open>The rows one after the other, the whole table.\<close>

definition preference_table :: "nat \<Rightarrow> nat \<Rightarrow> nat \<Rightarrow> nat" where
  "preference_table h c k = preference h c (k div c) ! (k mod c)"

lemma hits_Cons_tail: "hits h c i q = q' # qs \<Longrightarrow> qs = hits h c i (Suc q') \<and> q' < h * c"
proof (induction "h * c - q" arbitrary: q)
  case 0
  then show ?case by (simp add: hits_def)
next
  case (Suc x)
  then have "q < h * c" by simp
  then show ?case
    using hits_step [of q h c i] Suc.hyps(1) [of "Suc q"] Suc.hyps(2) Suc.prems
    by (cases "lb_perm h (q mod c) (q div c) = i") simp_all
qed

definition holds_row :: "u32 vector \<Rightarrow> nat \<Rightarrow> nat list \<Rightarrow> u32 vector \<Rightarrow> bool" where
  "holds_row cht s row cht' \<longleftrightarrow> v_data cht' = v_data cht \<and> v_elem_size cht' = v_elem_size cht \<and>
     v_capacity cht' = v_capacity cht \<and> length (v_elems cht') = length (v_elems cht) \<and>
     (\<forall>k. v_elems cht' ! k = (if s \<le> k \<and> k < s + length row then word_of_nat (row ! (k - s)) else v_elems cht ! k))"

lemma holds_row_Cons:
  assumes "holds_row (cht\<lparr>v_elems := (v_elems cht)[s := word_of_nat b]\<rparr>) (Suc s) row cht'" "s < length (v_elems cht)"
  shows "holds_row cht s (b # row) cht'"
  using assms by (auto simp: holds_row_def nth_Cons' nth_list_update)

lemma lb_fill_row_spec:
  assumes fits: "cht_fits h c" and c: "0 < c" and i: "i < h"
    and perms: "\<forall>b<c. \<forall>p<h. ps ! (b * h + p) = int (lb_perm h b p)" "length ps = h * (c + 1)"
    and cht: "0 < v_elem_size cht" "length (v_elems cht) = h * c"
    and j: "j + length (hits h c i q) = c"
  shows "\<exists>cht'. lb_fill_row ps cht (int h) (int c) (int i) (int (q mod c)) (int (q div c)) (int j) = Some cht' \<and>
    holds_row cht (i * c + j) (map (\<lambda>q. q mod c) (hits h c i q)) cht'"
  using cht j
proof (induction "c - j" arbitrary: j cht q)
  case 0
  then have "j = c" "length (hits h c i q) = 0" by linarith+
  then show ?case by (subst lb_fill_row.simps) (auto simp: holds_row_def)
next
  case (Suc x)
  then have j: "j < c" by simp
  then obtain q' qs where q': "hits h c i q = q' # qs" using Suc.prems(3) by (cases "hits h c i q") auto
  note tl = hits_Cons_tail [OF q']
  have q: "q < h * c" using q' by (auto simp: hits_def intro: ccontr)
  have dh: "q div c < h" using q c by (simp add: div_less_iff_less_mult)
  have b: "q' mod c < c" using c by simp
  let ?s = "i * c + j"
  have s: "?s < length (v_elems cht)" using mult_le_mono1 [of "i + 1" h c] i j Suc.prems(2) by simp
  have idx: "c_int (int i * int c + int j) = Some (int ?s)"
    using c_int_of_nat [OF cht_fits_bounds(4) [OF fits j i]] by simp
  let ?cht = "cht\<lparr>v_elems := (v_elems cht)[?s := word_of_nat (q' mod c)]\<rparr>"
  have seek: "lb_seek ps (int h) (int c) (int i) (int (q mod c)) (int (q div c)) = Some (int (q' mod c), int (q' div c))"
    using lb_seek_spec [OF c perms q, of i] q' by simp
  have store: "vector_store cht (vector_borrow cht (int ?s)) (word_of_int (int (q' mod c))) = Some ?cht"
    using Suc.prems(1) wr_int [OF s] by (simp only: vector_store_borrow) simp
  have nxt: "(if int c \<le> int (q' mod c) + 1 then (0, int (q' div c) + 1) else (int (q' mod c) + 1, int (q' div c)))
      = (int (Suc q' mod c), int (Suc q' div c))"
    using next_pair [OF c, of q'] b by (auto simp: add.commute)
  have step: "lb_fill_row ps cht (int h) (int c) (int i) (int (q mod c)) (int (q div c)) (int j)
      = lb_fill_row ps ?cht (int h) (int c) (int i) (int (Suc q' mod c)) (int (Suc q' div c)) (int (j + 1))"
    using j dh seek idx store nxt
    by (subst lb_fill_row.simps) (auto simp: Let_def vector_return_def add.commute split: if_splits)
  obtain cht' where r: "lb_fill_row ps ?cht (int h) (int c) (int i) (int (Suc q' mod c)) (int (Suc q' div c)) (int (j + 1)) = Some cht'"
    "holds_row ?cht (i * c + (j + 1)) (map (\<lambda>q. q mod c) (hits h c i (Suc q'))) cht'"
  proof -
    have "x = c - (j + 1)" "j + 1 + length (hits h c i (Suc q')) = c" "0 < v_elem_size ?cht" "length (v_elems ?cht) = h * c"
      using Suc.hyps(2) Suc.prems q' tl by simp_all
    then show thesis using Suc.hyps(1) [of "j + 1" ?cht "Suc q'"] that by blast
  qed
  have "holds_row cht ?s (q' mod c # map (\<lambda>q. q mod c) (hits h c i (Suc q'))) cht'"
    by (rule holds_row_Cons) (use r(2) s in simp_all)
  then show ?case using step r(1) q' tl by simp
qed

definition rows_hold :: "nat \<Rightarrow> nat \<Rightarrow> nat \<Rightarrow> u32 vector \<Rightarrow> bool" where
  "rows_hold h c n cht \<longleftrightarrow> (\<forall>k < n * c. v_elems cht ! k = word_of_nat (preference_table h c k))"

lemma lb_fill_rows_spec:
  assumes fits: "cht_fits h c" and p: "prime_height (int h)" and c: "0 < c"
    and perms: "\<forall>b<c. \<forall>p<h. ps ! (b * h + p) = int (lb_perm h b p)" "length ps = h * (c + 1)"
    and cht: "0 < v_elem_size cht" "length (v_elems cht) = h * c"
    and i: "i \<le> h" "rows_hold h c i cht"
  shows "\<exists>cht'. lb_fill_rows ps cht (int h) (int c) (int i) = Some cht' \<and>
    v_data cht' = v_data cht \<and> v_elem_size cht' = v_elem_size cht \<and> v_capacity cht' = v_capacity cht \<and>
    length (v_elems cht') = h * c \<and> rows_hold h c h cht'"
  using cht i
proof (induction "h - i" arbitrary: i cht)
  case 0
  then show ?case by (subst lb_fill_rows.simps) simp
next
  case (Suc x)
  then have i: "i < h" by simp
  have ch: "c < h" using fits by (simp add: cht_fits_def)
  obtain cht1 where 1: "lb_fill_row ps cht (int h) (int c) (int i) (int (0 mod c)) (int (0 div c)) (int 0) = Some cht1"
    "holds_row cht (i * c + 0) (preference h c i) cht1"
    using lb_fill_row_spec [OF fits c i perms Suc.prems(1,2), of 0 0] length_hits [OF p c ch i]
    by (auto simp: preference_def)
  have len: "length (preference h c i) = c" using length_hits [OF p c ch i] by (simp add: preference_def)
  have "v_elems cht1 ! k = word_of_nat (preference_table h c k)" if k: "k < (i + 1) * c" for k
  proof (cases "k < i * c")
    case True
    then show ?thesis using 1(2) Suc.prems(4) by (simp add: holds_row_def rows_hold_def)
  next
    case False
    then have "k div c = i" "k mod c = k - i * c"
      using k div_nat_eqI [of c i k] by (simp_all add: mult.commute minus_mod_eq_mult_div [symmetric] minus_mult_div_eq_mod [symmetric])
    then show ?thesis using 1(2) len k False by (simp add: holds_row_def preference_table_def)
  qed
  then have "rows_hold h c (i + 1) cht1" by (simp add: rows_hold_def)
  moreover have "lb_fill_rows ps cht (int h) (int c) (int i) = lb_fill_rows ps cht1 (int h) (int c) (int (i + 1))"
    using i 1(1) by (subst lb_fill_rows.simps) (simp add: add.commute)
  ultimately show ?case
    using Suc.hyps(1) [of "i + 1" cht1] Suc.hyps(2) Suc.prems(1,2) 1(2) i by (simp add: holds_row_def)
qed

text \<open>A filled table: row \<open>i\<close> is the preference list of the hash \<open>i\<close>.\<close>

definition cht_filled :: "nat \<Rightarrow> nat \<Rightarrow> u32 vector \<Rightarrow> bool" where
  "cht_filled h c cht \<longleftrightarrow> vector_inv cht \<and> v_capacity cht = int (h * c) \<and> rows_hold h c h cht"

definition cht_row :: "u32 vector \<Rightarrow> nat \<Rightarrow> nat \<Rightarrow> nat list" where
  "cht_row cht c i = map unat (take c (drop (i * c) (v_elems cht)))"

lemma cht_size: "vector_inv cht \<Longrightarrow> v_capacity cht = int (h * c) \<Longrightarrow> length (v_elems cht) = h * c"
  unfolding vector_inv_def by linarith

lemma unat_small: "n < 2 ^ 32 \<Longrightarrow> unat (word_of_nat n :: u32) = n"
  by (simp add: unsigned_of_nat take_bit_nat_eq_self_iff)

lemma preference_bounds:
  assumes "prime_height (int h)" "0 < c" "c < h" "i < h" "j < c"
  shows "length (preference h c i) = c" "preference h c i ! j < c"
proof -
  show len: "length (preference h c i) = c" using length_hits [OF assms(1-4)] by (simp add: preference_def)
  have "preference h c i ! j \<in> set (preference h c i)" using len assms(5) by simp
  then show "preference h c i ! j < c" using preference_permutation(2) [OF assms(1-4)] by simp
qed

lemma cht_fits_small:
  assumes "cht_fits h c"
  shows "h \<le> 2 ^ 31"
proof -
  have "h \<le> h * (c + 1)" by simp
  also have "\<dots> \<le> 2 ^ 31" using assms by (simp add: cht_fits_def)
  finally show ?thesis .
qed

lemma cht_filled_row:
  assumes filled: "cht_filled h c cht" and fits: "cht_fits h c" and p: "prime_height (int h)" "0 < c" and i: "i < h"
  shows "cht_row cht c i = preference h c i"
proof -
  have ch: "c < h" using fits by (simp add: cht_fits_def)
  then have small: "c < 2 ^ 32" using cht_fits_small [OF fits] by simp
  have le: "i * c + c \<le> h * c" using mult_le_mono1 [of "i + 1" h c] i by simp
  have len: "length (v_elems cht) = h * c" using filled cht_size [of cht h c] by (simp only: cht_filled_def)
  have inside: "i * c \<le> length (v_elems cht)" unfolding len using le by linarith
  show ?thesis
  proof (rule nth_equalityI)
    show "length (cht_row cht c i) = length (preference h c i)"
      using len le preference_bounds(1) [OF p(1,2) ch i p(2)] by (simp add: cht_row_def)
    fix j assume "j < length (cht_row cht c i)"
    then have j: "j < c" by (simp add: cht_row_def)
    have "v_elems cht ! (i * c + j) = word_of_nat (preference h c i ! j)"
      using filled le j by (simp add: cht_filled_def rows_hold_def preference_table_def)
    moreover have "preference h c i ! j < c" by (rule preference_bounds(2) [OF p(1,2) ch i j])
    ultimately show "cht_row cht c i ! j = preference h c i ! j"
      using len le j small unat_small [of "preference h c i ! j"] nth_drop [OF inside, of j]
      by (simp add: cht_row_def)
  qed
qed

lemma cht_fits_height: "cht_fits h c \<Longrightarrow> 0 < c \<Longrightarrow> int h < max_height"
proof -
  assume a: "cht_fits h c" "0 < c"
  then have "h * 2 \<le> h * (c + 1)" by (intro mult_le_mono2) simp
  also have "\<dots> \<le> 2 ^ 31" using a by (simp add: cht_fits_def)
  finally show ?thesis by simp
qed

lemma lb_fill_cht_composite:
  assumes "2 \<le> h" "h < max_height" "\<not> prime_height h"
  shows "lb_fill_cht junk cht h c hp = None"
proof -
  have "lb_check_prime 2 h = None" using lb_check_prime_iff [OF assms(1,2)] assms(3) by (cases "lb_check_prime 2 h") auto
  then show ?thesis by (simp add: lb_fill_cht_def)
qed

lemma lb_fill_cht_prime:
  assumes p: "prime_height (int h)" and c: "0 < c" and fits: "cht_fits h c"
    and cht: "vector_inv cht" "v_capacity cht = int (h * c)" and hp: "malloc hp = (Some b, hp')" "heap_ok hp"
  shows "\<exists>cht' hp''. lb_fill_cht junk cht (int h) (int c) hp = Some (cht', hp'') \<and> cht_filled h c cht' \<and>
    v_elem_size cht' = v_elem_size cht \<and> live hp'' = live hp \<and> heap_ok hp''"
proof -
  have ch: "c < h" and h2: "2 \<le> int h" using fits p by (auto simp: cht_fits_def prime_height_def)
  let ?ps = "map (junk b) [0..<h * (c + 1)]"
  have size: "nat (int h * (int c + 1)) = h * (c + 1)"
    by (metis int_ops(2) nat_int of_nat_add of_nat_mult)
  obtain ps where ps: "lb_permutations ?ps (int h) (int c) 0 = Some ps" "length ps = h * (c + 1)"
    "\<forall>b<c. \<forall>p<h. ps ! (b * h + p) = int (lb_perm h b p)"
    using lb_permutations_spec [OF fits, of ?ps 0] by auto
  obtain cht' where r: "lb_fill_rows ps cht (int h) (int c) 0 = Some cht'" "v_elem_size cht' = v_elem_size cht"
    "v_capacity cht' = v_capacity cht" "length (v_elems cht') = h * c" "rows_hold h c h cht'"
    using lb_fill_rows_spec [OF fits p c ps(3,2), of cht 0] cht cht_size [OF cht] by (auto simp: vector_inv_def rows_hold_def)
  have filled: "cht_filled h c cht'" using r cht by (simp add: cht_filled_def vector_inv_def)
  have prime: "lb_check_prime 2 (int h) = Some ()"
    using lb_check_prime_iff [OF h2 cht_fits_height [OF fits c]] p by simp
  note m = malloc_Some [OF hp]
  have "free b hp' = Some (hp'\<lparr>live := live hp\<rparr>)" using m by (simp add: free_def)
  then have "lb_fill_cht junk cht (int h) (int c) hp = Some (cht', hp'\<lparr>live := live hp\<rparr>)"
    using prime ch hp(1) ps(1) r(1) by (simp add: lb_fill_cht_def Let_def size)
  then show ?thesis using filled r(2) m by (auto simp: heap_ok_def)
qed

section \<open>The lookup\<close>

text \<open>The candidates that the lookup tries: \<open>c\<close> consecutive cells of the first \<open>h\<close> cells of the table.\<close>

definition lb_window :: "nat \<Rightarrow> nat \<Rightarrow> nat \<Rightarrow> nat list" where
  "lb_window h c hash = map (\<lambda>i. preference_table h c ((hash + i) mod h)) [0..<c]"

lemma uint_of_u32_small:
  fixes w :: u32
  assumes "unat w = n" "n < 2 ^ 31"
  shows "sint w = int n"
proof -
  have "int (unat w) < int (2 ^ 31)" using assms by (simp only: of_nat_less_iff)
  then have "uint w < 2 ^ 31" by simp
  then have "signed_take_bit 31 (uint w) = uint w" using uint_ge_0 [of w] by (intro signed_take_bit_int_eq_self) linarith+
  then show ?thesis by (simp add: sint_uint flip: assms(1))
qed

lemma candidate_index:
  fixes hash :: u64 and cht_height :: u32
  assumes "unat hash < 2 ^ 31" "i < 2 ^ 31" "unat cht_height = h" "h < 2 ^ 31" "0 < h"
  shows "sint (ucast ((hash + word_of_int (int i)) mod ucast cht_height) :: u32) = int ((unat hash + i) mod h)"
proof -
  have n: "(unat hash + i) mod h < 2 ^ 31" using assms(4,5) mod_less_divisor [of h "unat hash + i"] by linarith
  have "unat (word_of_nat i :: u64) = i" using assms(2) by (simp add: unsigned_of_nat take_bit_nat_eq_self_iff)
  then have "unat (hash + word_of_nat i) = unat hash + i"
    using assms(1,2) by (simp add: unat_word_ariths)
  moreover have "unat (ucast cht_height :: u64) = h"
    using assms(3,4) by (simp add: unsigned_ucast_eq take_bit_nat_eq_self_iff)
  ultimately have u: "unat ((hash + word_of_int (int i)) mod ucast cht_height) = (unat hash + i) mod h"
    by (simp add: unat_mod_distrib)
  have "unat (ucast ((hash + word_of_int (int i)) mod ucast cht_height) :: u32) = (unat hash + i) mod h"
    unfolding unsigned_ucast_eq u using n by (simp add: take_bit_nat_eq_self_iff)
  then show ?thesis using n by (rule uint_of_u32_small)
qed

lemma preference_table_bound:
  assumes "prime_height (int h)" "0 < c" "c < h" "k < h"
  shows "preference_table h c k < c"
proof -
  have "k div c < h" using order_le_less_trans [OF div_le_dividend [of k c] assms(4)] .
  moreover have "k mod c < c" using assms(2) by simp
  ultimately show ?thesis unfolding preference_table_def by (rule preference_bounds(2) [OF assms(1-3)])
qed

lemma lb_find_loop_spec:
  assumes filled: "cht_filled h c cht" and fits: "cht_fits h c" and p: "prime_height (int h)" "0 < c"
    and w: "unat cht_height = h" "uint backend_capacity = int c" "unat hash < 2 ^ 31"
    and active: "\<forall>b<c. dchain_is_index_allocated active_backends (int b) = Some (A b)"
    and i: "i \<le> c"
  shows "lb_find_loop hash cht active_backends cht_height backend_capacity chosen (int i) =
    Some (case find A (drop i (lb_window h c (unat hash))) of None \<Rightarrow> (0, chosen) | Some b \<Rightarrow> (1, int b))"
  using i
proof (induction "c - i" arbitrary: i)
  case 0
  then show ?case using w(2) by (subst lb_find_loop.simps) (simp add: lb_window_def)
next
  case (Suc x)
  then have i: "i < c" by simp
  have ch: "c < h" and h: "h \<le> 2 ^ 31" using fits cht_fits_small by (auto simp: cht_fits_def)
  have hlt: "h < 2 ^ 31" using cht_fits_height [OF fits p(2)] by simp
  let ?k = "(unat hash + i) mod h" let ?b = "preference_table h c ?k"
  have k: "?k < h" using ch by simp
  have b: "?b < c" by (rule preference_table_bound [OF p ch k])
  have kc: "?k < h * c" using mult_le_mono2 [of 1 c h] k p(2) by linarith
  have len: "length (v_elems cht) = h * c" and es: "0 < v_elem_size cht" and cell: "v_elems cht ! ?k = word_of_nat ?b"
    using filled cht_size [of cht h c] kc by (simp_all only: cht_filled_def rows_hold_def) (auto simp: vector_inv_def)
  have idx: "sint (ucast ((hash + word_of_int (int i)) mod ucast cht_height) :: u32) = int ?k"
    using candidate_index [of hash i cht_height h] w(1,3) i ch hlt by simp
  have load: "vector_load cht (vector_borrow cht (int ?k)) = Some (word_of_nat ?b)"
    using es kc len cell by simp
  have sb: "sint (word_of_nat ?b :: u32) = int ?b"
    by (rule uint_of_u32_small [OF unat_small]) (use b ch hlt in simp_all)
  have nz: "cht_height \<noteq> 0" using w(1) ch by auto
  have ib: "int i < uint backend_capacity" using i w(2) by simp
  have dr: "drop i (lb_window h c (unat hash)) = ?b # drop (i + 1) (lb_window h c (unat hash))"
    using i by (simp add: lb_window_def Cons_nth_drop_Suc [symmetric])
  show ?case
  proof (cases "A ?b")
    case True
    then show ?thesis using ib nz idx load sb active b dr by (subst lb_find_loop.simps) (simp add: Let_def)
  next
    case False
    then have "lb_find_loop hash cht active_backends cht_height backend_capacity chosen (int i)
        = lb_find_loop hash cht active_backends cht_height backend_capacity chosen (int (i + 1))"
      using ib nz idx load sb active b by (subst lb_find_loop.simps) (simp add: Let_def add.commute)
    then show ?thesis using Suc.hyps(1) [of "i + 1"] Suc.hyps(2) i dr False by simp
  qed
qed

section \<open>The properties of the table\<close>

text \<open>C8. Filling.\<close>

theorem lb_fill_cht_preference_lists:
  assumes "0 < c" "cht_fits h c" "vector_inv cht" "v_capacity cht = int (h * c)"
    and "outcomes hp = True # later" "heap_ok hp"
  shows "if prime_height (int h)
    then \<exists>cht' hp'. lb_fill_cht junk cht (int h) (int c) hp = Some (cht', hp') \<and> live hp' = live hp \<and>
      (\<forall>i<h. cht_row cht' c i = preference h c i \<and>
        distinct (cht_row cht' c i) \<and> set (cht_row cht' c i) = {0..<c})
    else lb_fill_cht junk cht (int h) (int c) hp = None"
proof (cases "prime_height (int h)")
  case True
  have ch: "c < h" using assms(2) by (simp add: cht_fits_def)
  obtain cht' hp' where r: "lb_fill_cht junk cht (int h) (int c) hp = Some (cht', hp')" "cht_filled h c cht'" "live hp' = live hp"
    using lb_fill_cht_prime [OF True assms(1-4) malloc_all_succeed [OF assms(5)] assms(6), of junk] by auto
  have "cht_row cht' c i = preference h c i" if "i < h" for i
    by (rule cht_filled_row [OF r(2) assms(2) True assms(1) that])
  then show ?thesis using r(1,3) True preference_permutation [OF True assms(1) ch] by auto
next
  case False
  have "2 \<le> int h" using assms(1,2) by (simp add: cht_fits_def)
  then show ?thesis using lb_fill_cht_composite [OF _ cht_fits_height [OF assms(2,1)] False] False by simp
qed

definition small_cht :: "u32 vector" where
  "small_cht = \<lparr>v_data = 4096, v_elem_size = 4, v_capacity = 6, v_elems = [0, 0, 0, 0, 0, 0]\<rparr>"

definition small_cht_heap :: heap where
  "small_cht_heap = \<lparr>outcomes = [True], live = [0], fresh = 1\<rparr>"

lemma prime_height_3: "prime_height 3"
proof -
  have "\<not> d dvd 3" if "1 < d" "d < 3" for d :: int
  proof -
    have "d = 2" using that by simp
    then show ?thesis by simp
  qed
  then show ?thesis by (simp add: prime_height_def)
qed

theorem lb_fill_cht_preference_lists_witness:
  "(\<exists>cht' hp'. lb_fill_cht (\<lambda>_ _. 7) small_cht 3 2 small_cht_heap = Some (cht', hp') \<and> live hp' = [0] \<and>
     (\<forall>i<3. cht_row cht' 2 i = preference 3 2 i \<and> set (cht_row cht' 2 i) = {0..<2})) \<and>
   preference 3 2 1 = [1, 0]"
proof -
  have "cht_fits 3 2" by (simp add: cht_fits_def)
  moreover have "vector_inv small_cht" "v_capacity small_cht = int (3 * 2)" by (simp_all add: small_cht_def vector_inv_def)
  moreover have "outcomes small_cht_heap = True # []" "heap_ok small_cht_heap" by (simp_all add: small_cht_heap_def heap_ok_def)
  moreover have "preference 3 2 1 = [1, 0]" by code_simp
  ultimately show ?thesis
    using lb_fill_cht_preference_lists [of 2 3 small_cht small_cht_heap "[]" "\<lambda>_ _. 7"] prime_height_3
    by (auto simp: small_cht_heap_def)
qed

end
