(* ===== verification/Vigbalancer.thy ===== *)
theory Vigbalancer
  imports LbCht Runs NfUtil
begin

text \<open>
  The load balancer of \<open>dpdk-nfs/nf/vigbalancer\<close>: flows and backends (\<open>lb_data.c\<close>), the balancer
  (\<open>lb_balancer.c\<close>, except the consistent hashing table of theory \<open>LbCht\<close>) and the packet handler
  (\<open>lb_main.c\<close>). Backends announce themselves by heartbeats on their device, clients send through
  device 0 and every flow of a client is sent to one of the active backends.

  The heartbeats, both expiries and the requests of flows whose backend is alive are shown to refine
  operations on two abstract tables, of flows and of backends. A request of a flow whose backend is gone
  leaves the containers incoherent: what still holds of it, and what does not, is stated separately.
\<close>

section \<open>Flows and backends\<close>

record LoadBalancedFlow =
  lbf_src_ip :: u32
  lbf_dst_ip :: u32
  lbf_src_port :: u16
  lbf_dst_port :: u16
  lbf_protocol :: u8

record LoadBalancedBackend =
  lbb_nic :: u16
  lbb_mac :: "u8 list"
  lbb_ip :: u32

definition sizeof_LoadBalancedFlow :: int where
  "sizeof_LoadBalancedFlow = 16"

definition sizeof_LoadBalancedBackend :: int where
  "sizeof_LoadBalancedBackend = 12"

definition lb_flow_equality :: "LoadBalancedFlow \<Rightarrow> LoadBalancedFlow \<Rightarrow> bool" where
  "lb_flow_equality a b \<longleftrightarrow>
     lbf_src_ip a = lbf_src_ip b \<and> lbf_src_port a = lbf_src_port b \<and>
     lbf_dst_port a = lbf_dst_port b \<and> lbf_protocol a = lbf_protocol b"

definition lb_flow_hash :: "LoadBalancedFlow \<Rightarrow> int" where
  "lb_flow_hash flow =
     (let hash = 17 :: u64;
          hash = hash + ucast (lbf_src_port flow);
          hash = hash * 31;
          hash = hash + ucast (lbf_dst_port flow);
          hash = hash * 31;
          hash = hash + ucast (lbf_src_port flow);
          hash = hash * 31;
          hash = hash + ucast (lbf_protocol flow);
          hash = hash * 31;
          hash = hash mod word_of_int INT_MAX
      in sint (ucast hash :: u32))"

definition lb_flow_init :: "LoadBalancedFlow \<Rightarrow> LoadBalancedFlow" where
  "lb_flow_init obj = \<lparr>lbf_src_ip = 0, lbf_dst_ip = 0, lbf_src_port = 0, lbf_dst_port = 0, lbf_protocol = 0\<rparr>"

definition lb_backend_init :: "LoadBalancedBackend \<Rightarrow> LoadBalancedBackend" where
  "lb_backend_init obj = \<lparr>lbb_nic = 0, lbb_mac = [0, 0, 0, 0, 0, 0], lbb_ip = 0\<rparr>"

definition lb_ip_equality :: "u32 \<Rightarrow> u32 \<Rightarrow> bool" where
  "lb_ip_equality a b \<longleftrightarrow> a = b"

definition lb_ip_hash :: "u32 \<Rightarrow> int" where
  "lb_ip_hash obj = sint obj"

definition null_init :: "u32 \<Rightarrow> u32" where
  "null_init obj = 0"

text \<open>
  Neither function on flows reads the destination address: the key of a flow is the rest, and the map
  of flows is a map of such keys.
\<close>

type_synonym lb_key = "u32 \<times> u16 \<times> u16 \<times> u8"

definition lb_key :: "LoadBalancedFlow \<Rightarrow> lb_key" where
  "lb_key f = (lbf_src_ip f, lbf_src_port f, lbf_dst_port f, lbf_protocol f)"

definition lb_flow_of_key :: "lb_key \<Rightarrow> LoadBalancedFlow" where
  "lb_flow_of_key = (\<lambda>(sip, sp, dp, proto).
     \<lparr>lbf_src_ip = sip, lbf_dst_ip = 0, lbf_src_port = sp, lbf_dst_port = dp, lbf_protocol = proto\<rparr>)"

section \<open>The balancer\<close>

record LoadBalancer =
  lb_flow_capacity :: u32
  lb_flow_expiration_time :: u64
  lb_flow_to_flow_id :: "(LoadBalancedFlow keyptr, lb_key) cmap"
  lb_flow_heap :: "LoadBalancedFlow vector"
  lb_flow_chain :: DoubleChain
  lb_flow_id_to_backend_id :: "u32 vector"
  lb_cht_height :: u32
  lb_backend_expiration_time :: u64
  lb_backend_capacity :: u32
  lb_backend_ips :: "u32 vector"
  lb_backends :: "LoadBalancedBackend vector"
  lb_ip_to_backend_id :: "(u32 keyptr, u32) cmap"
  lb_active_backends :: DoubleChain
  lb_cht :: "u32 vector"

text \<open>
  The error path of the allocation frees the structures that the fields point to, not what these
  own. Freeing a null pointer does nothing. The structure of a container is the first block that its
  allocation function takes.
\<close>

definition lb_allocate_err :: "nat list \<Rightarrow> nat \<Rightarrow> heap \<Rightarrow> (LoadBalancer option \<times> heap) option" where
  "lb_allocate_err ptrs balancer h = do {
     h \<leftarrow> free_all ptrs h;
     h \<leftarrow> free balancer h;
     Some (None, h)
   }"

definition lb_allocate_balancer ::
  "LoadBalancedFlow uninit \<Rightarrow> u32 uninit \<Rightarrow> LoadBalancedBackend uninit \<Rightarrow> u32 \<Rightarrow> u32 \<Rightarrow> u32 \<Rightarrow> u64 \<Rightarrow> u64 \<Rightarrow> heap
   \<Rightarrow> (LoadBalancer option \<times> heap) option" where
  "lb_allocate_balancer memf memi memb flow_capacity backend_capacity cht_height backend_expiration_time
     flow_expiration_time h =
     (case malloc h of
        (None, h) \<Rightarrow> Some (None, h)
      | (Some balancer, h) \<Rightarrow> do {
          let p1 = fresh h;
          (r, flow_to_flow_id, h) \<leftarrow> map_allocate (\<lambda>a b. lb_flow_equality (lb_flow_of_key a) (lb_flow_of_key b))
            (\<lambda>a. lb_flow_hash (lb_flow_of_key a)) (sint flow_capacity) None (u_ints memf) (u_ptrs memf) h;
          if r = 0 then lb_allocate_err [] balancer h else do {
          let p2 = fresh h;
          (r, flow_heap, h) \<leftarrow> vector_allocate sizeof_LoadBalancedFlow (uint flow_capacity) lb_flow_init None
            (u_addr memf) (u_elems memf) h;
          if r = 0 then lb_allocate_err [p1] balancer h else do {
          let p3 = fresh h;
          (r, flow_id_to_backend_id, h) \<leftarrow> vector_allocate 4 (uint flow_capacity) null_init None
            (u_addr memi) (u_elems memi) h;
          if r = 0 then lb_allocate_err [p1, p2] balancer h else do {
          let p4 = fresh h;
          (r, flow_chain, h) \<leftarrow> dchain_allocate (sint flow_capacity) None (u_cells memf) (u_times memf) h;
          if r = 0 then lb_allocate_err [p1, p2, p3] balancer h else do {
          let p5 = fresh h;
          (r, backend_ips, h) \<leftarrow> vector_allocate 4 (uint backend_capacity) null_init None
            (u_addr memi) (u_elems memi) h;
          if r = 0 then lb_allocate_err [p1, p2, p4, p3] balancer h else do {
          let p6 = fresh h;
          (r, backends, h) \<leftarrow> vector_allocate sizeof_LoadBalancedBackend (uint backend_capacity) lb_backend_init None
            (u_addr memb) (u_elems memb) h;
          if r = 0 then lb_allocate_err [p1, p2, p4, p3, p5] balancer h else do {
          let p7 = fresh h;
          (r, ip_to_backend_id, h) \<leftarrow> map_allocate lb_ip_equality lb_ip_hash (sint backend_capacity) None
            (u_ints memi) (u_ptrs memi) h;
          if r = 0 then lb_allocate_err [p1, p2, p4, p3, p5, p6] balancer h else do {
          let p8 = fresh h;
          (r, active_backends, h) \<leftarrow> dchain_allocate (sint backend_capacity) None (u_cells memi) (u_times memi) h;
          if r = 0 then lb_allocate_err [p1, p2, p4, p3, p5, p6, p7] balancer h else do {
          (r, cht, h) \<leftarrow> vector_allocate 4 (uint (cht_height * backend_capacity)) null_init None
            (u_addr memi) (u_elems memi) h;
          if r = 0 then lb_allocate_err [p1, p2, p4, p3, p5, p6, p7, p8] balancer h else do {
          (cht, h) \<leftarrow> lb_fill_cht (u_ints memf) (the cht) (sint cht_height) (sint backend_capacity) h;
          Some (Some
            \<lparr>lb_flow_capacity = flow_capacity, lb_flow_expiration_time = flow_expiration_time,
             lb_flow_to_flow_id = the flow_to_flow_id, lb_flow_heap = the flow_heap,
             lb_flow_chain = the flow_chain, lb_flow_id_to_backend_id = the flow_id_to_backend_id,
             lb_cht_height = cht_height, lb_backend_expiration_time = backend_expiration_time,
             lb_backend_capacity = backend_capacity, lb_backend_ips = the backend_ips,
             lb_backends = the backends, lb_ip_to_backend_id = the ip_to_backend_id,
             lb_active_backends = the active_backends, lb_cht = cht\<rparr>, h)
          }}}}}}}}}
        })"

definition lb_find_preferred_available_backend ::
  "LoadBalancedFlow \<Rightarrow> u32 vector \<Rightarrow> DoubleChain \<Rightarrow> u32 \<Rightarrow> u32 \<Rightarrow> int \<Rightarrow> (int \<times> int) option" where
  "lb_find_preferred_available_backend flow cht active_backends cht_height backend_capacity chosen_backend =
     (let hash = word_of_int (lb_flow_hash flow) :: u64
      in lb_find_loop hash cht active_backends cht_height backend_capacity chosen_backend 0)"

text \<open>
  \<open>backend\<close> is what the local variable holds before it is assigned: a request that finds no backend
  sets its device only.
\<close>

partial_function (option) lb_get_backend ::
  "LoadBalancedBackend \<Rightarrow> LoadBalancer \<Rightarrow> LoadBalancedFlow \<Rightarrow> int \<Rightarrow> (LoadBalancedBackend \<times> LoadBalancer) option" where
  "lb_get_backend backend balancer flow now = do {
     (r, flow_index) \<leftarrow> map_get (key_via lb_key (lb_flow_heap balancer)) (lb_flow_to_flow_id balancer) (Obj flow) 0;
     if r = 0 then do {
       (found, backend_index) \<leftarrow> lb_find_preferred_available_backend flow (lb_cht balancer) (lb_active_backends balancer)
         (lb_cht_height balancer) (lb_backend_capacity balancer) 0;
       if found \<noteq> 0 then do {
         (r, flow_chain, flow_index) \<leftarrow> dchain_allocate_new_index (lb_flow_chain balancer) flow_index now;
         let balancer = balancer\<lparr>lb_flow_chain := flow_chain\<rparr>;
         balancer \<leftarrow>
           (if r \<noteq> 0 then do {
              let vec_flow = vector_borrow (lb_flow_heap balancer) flow_index;
              flow_heap \<leftarrow> vector_store (lb_flow_heap balancer) vec_flow flow;
              let p = vector_borrow (lb_flow_id_to_backend_id balancer) flow_index;
              ids \<leftarrow> vector_store (lb_flow_id_to_backend_id balancer) p (word_of_int backend_index);
              let ids = vector_return ids flow_index p;
              m \<leftarrow> map_put (key_via lb_key flow_heap) (lb_flow_to_flow_id balancer) (At vec_flow) flow_index;
              let flow_heap = vector_return flow_heap flow_index vec_flow;
              Some (balancer\<lparr>lb_flow_heap := flow_heap, lb_flow_id_to_backend_id := ids, lb_flow_to_flow_id := m\<rparr>)
            } else Some balancer);
         let vec_backend = vector_borrow (lb_backends balancer) backend_index;
         backend \<leftarrow> vector_load (lb_backends balancer) vec_backend;
         let backends = vector_return (lb_backends balancer) backend_index vec_backend;
         Some (backend, balancer\<lparr>lb_backends := backends\<rparr>)
       } else Some (backend\<lparr>lbb_nic := 0\<rparr>, balancer)
     } else do {
       let p = vector_borrow (lb_flow_id_to_backend_id balancer) flow_index;
       backend_index \<leftarrow> vector_load (lb_flow_id_to_backend_id balancer) p;
       let ids = vector_return (lb_flow_id_to_backend_id balancer) flow_index p;
       let balancer = balancer\<lparr>lb_flow_id_to_backend_id := ids\<rparr>;
       active \<leftarrow> dchain_is_index_allocated (lb_active_backends balancer) (sint backend_index);
       if \<not> active then do {
         let flow_key = vector_borrow (lb_flow_heap balancer) flow_index;
         (m, erased) \<leftarrow> map_erase (key_via lb_key (lb_flow_heap balancer)) (lb_flow_to_flow_id balancer) (Obj flow) (At flow_key);
         let flow_heap = vector_return (lb_flow_heap balancer) flow_index flow_key;
         lb_get_backend backend (balancer\<lparr>lb_flow_to_flow_id := m, lb_flow_heap := flow_heap\<rparr>) flow now
       } else do {
         (r, flow_chain) \<leftarrow> dchain_rejuvenate_index (lb_flow_chain balancer) (sint backend_index) now;
         let balancer = balancer\<lparr>lb_flow_chain := flow_chain\<rparr>;
         let vec_backend = vector_borrow (lb_backends balancer) (sint backend_index);
         backend \<leftarrow> vector_load (lb_backends balancer) vec_backend;
         let backends = vector_return (lb_backends balancer) (sint backend_index) vec_backend;
         Some (backend, balancer\<lparr>lb_backends := backends\<rparr>)
       }
     }
   }"

definition lb_process_heartbit ::
  "LoadBalancer \<Rightarrow> LoadBalancedFlow \<Rightarrow> u8 list \<Rightarrow> int \<Rightarrow> int \<Rightarrow> LoadBalancer option" where
  "lb_process_heartbit balancer flow mac_addr nic now = do {
     (r, backend_index) \<leftarrow> map_get (key_at (lb_backend_ips balancer)) (lb_ip_to_backend_id balancer) (Obj (lbf_src_ip flow)) 0;
     if r = 0 then do {
       (r, active, backend_index) \<leftarrow> dchain_allocate_new_index (lb_active_backends balancer) backend_index now;
       let balancer = balancer\<lparr>lb_active_backends := active\<rparr>;
       if r \<noteq> 0 then do {
         let p = vector_borrow (lb_backends balancer) backend_index;
         new_backend \<leftarrow> vector_load (lb_backends balancer) p;
         backends \<leftarrow> vector_store (lb_backends balancer) p
           (new_backend\<lparr>lbb_ip := lbf_src_ip flow, lbb_mac := mac_addr, lbb_nic := word_of_int nic\<rparr>);
         let backends = vector_return backends backend_index p;
         let ip = vector_borrow (lb_backend_ips balancer) backend_index;
         ips \<leftarrow> vector_store (lb_backend_ips balancer) ip (lbf_src_ip flow);
         m \<leftarrow> map_put (key_at ips) (lb_ip_to_backend_id balancer) (At ip) backend_index;
         let ips = vector_return ips backend_index ip;
         Some (balancer\<lparr>lb_backends := backends, lb_backend_ips := ips, lb_ip_to_backend_id := m\<rparr>)
       } else Some balancer
     } else do {
       (r, active) \<leftarrow> dchain_rejuvenate_index (lb_active_backends balancer) backend_index now;
       Some (balancer\<lparr>lb_active_backends := active\<rparr>)
     }
   }"

definition lb_expire_flows :: "LoadBalancer \<Rightarrow> int \<Rightarrow> LoadBalancer option" where
  "lb_expire_flows balancer now = do {
     assertion (0 \<le> now);
     let now_u = (word_of_int now :: u64);
     let last_time = sint (now_u - lb_flow_expiration_time balancer);
     (count, chain, flow_heap, m) \<leftarrow> expire_items_single_map (key_via lb_key (lb_flow_heap balancer))
       (lb_flow_chain balancer) (lb_flow_heap balancer) (lb_flow_to_flow_id balancer) last_time;
     Some (balancer\<lparr>lb_flow_chain := chain, lb_flow_heap := flow_heap, lb_flow_to_flow_id := m\<rparr>)
   }"

definition lb_expire_backends :: "LoadBalancer \<Rightarrow> int \<Rightarrow> LoadBalancer option" where
  "lb_expire_backends balancer now = do {
     assertion (0 \<le> now);
     let now_u = (word_of_int now :: u64);
     let last_time = sint (now_u - lb_backend_expiration_time balancer);
     (count, chain, ips, m) \<leftarrow> expire_items_single_map (key_at (lb_backend_ips balancer))
       (lb_active_backends balancer) (lb_backend_ips balancer) (lb_ip_to_backend_id balancer) last_time;
     Some (balancer\<lparr>lb_active_backends := chain, lb_backend_ips := ips, lb_ip_to_backend_id := m\<rparr>)
   }"

section \<open>The packet handler\<close>

record lb_config =
  lbc_backend_count :: u16
  lbc_device_macs :: "u8 list list"
  lbc_flow_capacity :: u32
  lbc_flow_expiration_time :: u64
  lbc_backend_capacity :: u32
  lbc_cht_height :: u32
  lbc_backend_expiration_time :: u64

definition lb_core_init ::
  "LoadBalancedFlow uninit \<Rightarrow> u32 uninit \<Rightarrow> LoadBalancedBackend uninit \<Rightarrow> lb_config \<Rightarrow> heap
   \<Rightarrow> (LoadBalancer option \<times> heap) option" where
  "lb_core_init memf memi memb config h =
     lb_allocate_balancer memf memi memb (lbc_flow_capacity config) (lbc_backend_capacity config)
       (lbc_cht_height config) (lbc_backend_expiration_time config) (lbc_flow_expiration_time config) h"

definition lb_core_process ::
  "lb_config \<Rightarrow> LoadBalancedBackend \<Rightarrow> LoadBalancer \<Rightarrow> mbuf \<Rightarrow> int \<Rightarrow> (int \<times> LoadBalancer \<times> mbuf) option" where
  "lb_core_process config junk balancer mbuf now = do {
     balancer \<leftarrow> lb_expire_flows balancer now;
     balancer \<leftarrow> lb_expire_backends balancer now;
     let in_port = uint (mbuf_port mbuf);
     let ether_header = nf_get_mbuf_ether_header mbuf;
     let d = mbuf_data mbuf;
     ip \<leftarrow> nf_get_mbuf_ipv4_header mbuf;
     case ip of None \<Rightarrow> Some (in_port, balancer, mbuf) | Some ipv4_header \<Rightarrow> do {
     l4 \<leftarrow> nf_get_ipv4_tcpudp_header d ipv4_header;
     case l4 of None \<Rightarrow> Some (in_port, balancer, mbuf) | Some tcpudp_header \<Rightarrow> do {
     sa \<leftarrow> ld32 d (ipv4_header + src_addr);
     da \<leftarrow> ld32 d (ipv4_header + dst_addr);
     sp \<leftarrow> ld16 d (tcpudp_header + tcpudp_src_port);
     dp \<leftarrow> ld16 d (tcpudp_header + tcpudp_dst_port);
     proto \<leftarrow> ld8 d (ipv4_header + next_proto_id);
     let flow = \<lparr>lbf_src_ip = sa, lbf_dst_ip = da, lbf_src_port = sp, lbf_dst_port = dp, lbf_protocol = proto\<rparr>;
     if in_port \<noteq> 0 then do {
       mac \<leftarrow> ld_bytes d (ether_header + ether_s_addr) 6;
       balancer \<leftarrow> lb_process_heartbit balancer flow mac in_port now;
       Some (in_port, balancer, mbuf)
     } else do {
       (backend, balancer) \<leftarrow> lb_get_backend junk balancer flow now;
       d \<leftarrow> st32 d (ipv4_header + dst_addr) (lbb_ip backend);
       s_addr \<leftarrow> rd (lbc_device_macs config) (uint (lbb_nic backend));
       d \<leftarrow> st_bytes d (ether_header + ether_s_addr) s_addr;
       d \<leftarrow> st_bytes d (ether_header + ether_d_addr) (lbb_mac backend);
       Some (uint (lbb_nic backend), balancer, mbuf\<lparr>mbuf_data := d\<rparr>)
     }
     }
     }
   }"

section \<open>Keys and hashes\<close>

lemma lb_flow_equality_iff: "lb_flow_equality a b \<longleftrightarrow> lb_key a = lb_key b"
  by (auto simp: lb_flow_equality_def lb_key_def)

text \<open>The functions give the same results on a flow and on the flow made of its key.\<close>

lemma lb_key_of_key [simp]: "lb_key (lb_flow_of_key k) = k"
  by (cases k) (simp add: lb_key_def lb_flow_of_key_def)

lemma lb_flow_hash_key: "lb_flow_hash (lb_flow_of_key (lb_key f)) = lb_flow_hash f"
  by (simp add: lb_flow_hash_def lb_flow_of_key_def lb_key_def)

lemma lb_flow_hash_range: "\<exists>n. lb_flow_hash f = int n \<and> n < 2 ^ 31"
proof -
  have "\<exists>w :: u64. lb_flow_hash f = sint (ucast (w mod word_of_int INT_MAX) :: u32)"
    unfolding lb_flow_hash_def Let_def by blast
  then obtain w :: u64 where w: "lb_flow_hash f = sint (ucast (w mod word_of_int INT_MAX) :: u32)" by blast
  let ?n = "unat (w mod word_of_int INT_MAX)"
  have "unat (word_of_int INT_MAX :: u64) = 2147483647" by (simp add: INT_MAX_def)
  then have n: "?n < 2 ^ 31" using mod_less_divisor [of 2147483647 "unat w"] by (simp add: unat_mod_distrib)
  then have "unat (ucast (w mod word_of_int INT_MAX) :: u32) = ?n"
    by (simp add: unsigned_ucast_eq take_bit_nat_eq_self_iff)
  from uint_of_u32_small [OF this n] show ?thesis using w n by (intro exI [of _ ?n]) simp
qed

lemma lb_hash_word: "unat (word_of_int (lb_flow_hash f) :: u64) = nat (lb_flow_hash f)" "nat (lb_flow_hash f) < 2 ^ 31"
proof -
  obtain n where n: "lb_flow_hash f = int n" "n < 2 ^ 31" using lb_flow_hash_range by blast
  then show "unat (word_of_int (lb_flow_hash f) :: u64) = nat (lb_flow_hash f)" "nat (lb_flow_hash f) < 2 ^ 31"
    by (simp_all add: unsigned_of_nat take_bit_nat_eq_self_iff)
qed

section \<open>The state of the balancer\<close>

text \<open>What no operation changes; \<open>n\<close> is the number of devices.\<close>

definition lb_ok :: "nat \<Rightarrow> LoadBalancer \<Rightarrow> bool" where
  "lb_ok n bal \<longleftrightarrow>
     (let h = unat (lb_cht_height bal); c = unat (lb_backend_capacity bal) in
      0 < c \<and> cht_fits h c \<and> prime_height (int h) \<and> cht_filled h c (lb_cht bal) \<and>
      vector_inv (lb_flow_id_to_backend_id bal) \<and>
      v_capacity (lb_flow_id_to_backend_id bal) = v_capacity (lb_flow_heap bal) \<and> int c \<le> v_capacity (lb_flow_heap bal) \<and>
      vector_inv (lb_backends bal) \<and> v_capacity (lb_backends bal) = int c \<and> v_capacity (lb_backend_ips bal) = int c \<and>
      (\<forall>b \<in> set (v_elems (lb_backends bal)). unat (lbb_nic b) < n \<and> length (lbb_mac b) = 6))"

definition lb_backend_of :: "LoadBalancer \<Rightarrow> int \<Rightarrow> nat" where
  "lb_backend_of bal i = unat (v_elems (lb_flow_id_to_backend_id bal) ! nat i)"

definition lb_backend_at :: "LoadBalancer \<Rightarrow> nat \<Rightarrow> LoadBalancedBackend" where
  "lb_backend_at bal b = v_elems (lb_backends bal) ! b"

text \<open>The two tables: flows by their keys, backends by their addresses.\<close>

definition lb_backends_rep :: "u32 flows \<Rightarrow> int \<Rightarrow> LoadBalancer \<Rightarrow> bool" where
  "lb_backends_rep Tb now bal \<longleftrightarrow>
     flow_rep Tb now (lb_ip_to_backend_id bal) (lb_backend_ips bal) (lb_active_backends bal) \<and>
     (\<forall>(ip, b, t) \<in> set Tb. lbb_ip (lb_backend_at bal (nat b)) = ip)"

definition lb_flows_rep :: "lb_key flows \<Rightarrow> int \<Rightarrow> LoadBalancer \<Rightarrow> bool" where
  "lb_flows_rep Tf now bal \<longleftrightarrow>
     flow_rep_via lb_key Tf now (lb_flow_to_flow_id bal) (lb_flow_heap bal) (lb_flow_chain bal) \<and>
     (\<forall>(k, i, t) \<in> set Tf. lb_backend_of bal i < unat (lb_backend_capacity bal))"

definition lb_rep :: "nat \<Rightarrow> lb_key flows \<Rightarrow> u32 flows \<Rightarrow> int \<Rightarrow> LoadBalancer \<Rightarrow> bool" where
  "lb_rep n Tf Tb now bal \<longleftrightarrow> lb_ok n bal \<and> lb_flows_rep Tf now bal \<and> lb_backends_rep Tb now bal"

definition lb_active :: "u32 flows \<Rightarrow> nat \<Rightarrow> bool" where
  "lb_active Tb b \<longleftrightarrow> (\<exists>ip t. (ip, int b, t) \<in> set Tb)"

text \<open>The backend chosen for a new flow.\<close>

definition lb_choice :: "LoadBalancer \<Rightarrow> u32 flows \<Rightarrow> LoadBalancedFlow \<Rightarrow> nat option" where
  "lb_choice bal Tb flow = find (lb_active Tb)
     (lb_window (unat (lb_cht_height bal)) (unat (lb_backend_capacity bal)) (nat (lb_flow_hash flow)))"

lemma lb_okD:
  assumes "lb_ok n bal"
  shows "0 < unat (lb_backend_capacity bal)" "cht_fits (unat (lb_cht_height bal)) (unat (lb_backend_capacity bal))"
    "prime_height (int (unat (lb_cht_height bal)))"
    "cht_filled (unat (lb_cht_height bal)) (unat (lb_backend_capacity bal)) (lb_cht bal)"
    "vector_inv (lb_flow_id_to_backend_id bal)"
    "v_capacity (lb_flow_id_to_backend_id bal) = v_capacity (lb_flow_heap bal)"
    "vector_inv (lb_backends bal)" "v_capacity (lb_backends bal) = int (unat (lb_backend_capacity bal))"
    "v_capacity (lb_backend_ips bal) = int (unat (lb_backend_capacity bal))"
    "\<forall>b \<in> set (v_elems (lb_backends bal)). unat (lbb_nic b) < n \<and> length (lbb_mac b) = 6"
    "int (unat (lb_backend_capacity bal)) \<le> v_capacity (lb_flow_heap bal)"
  using assms unfolding lb_ok_def Let_def by blast+

lemma lb_is_active:
  assumes "lb_ok n bal" "lb_backends_rep Tb now bal" "b < unat (lb_backend_capacity bal)"
  shows "dchain_is_index_allocated (lb_active_backends bal) (int b) = Some (lb_active Tb b)"
proof -
  have r: "flow_rep Tb now (lb_ip_to_backend_id bal) (lb_backend_ips bal) (lb_active_backends bal)"
    using assms(2) by (simp add: lb_backends_rep_def)
  have "int b < v_capacity (lb_backend_ips bal)"
    unfolding lb_okD(9) [OF assms(1)] using assms(3) by (simp only: of_nat_less_iff)
  then show ?thesis by (simp add: lb_active_def flow_is_allocated [OF r])
qed

lemma lb_find_spec:
  assumes ok: "lb_ok n bal" and b: "lb_backends_rep Tb now bal"
  shows "lb_find_preferred_available_backend flow (lb_cht bal) (lb_active_backends bal) (lb_cht_height bal)
      (lb_backend_capacity bal) x =
    Some (case lb_choice bal Tb flow of None \<Rightarrow> (0, x) | Some b \<Rightarrow> (1, int b))"
proof -
  let ?h = "unat (lb_cht_height bal)" and ?c = "unat (lb_backend_capacity bal)"
  have active: "\<forall>b<?c. dchain_is_index_allocated (lb_active_backends bal) (int b) = Some (lb_active Tb b)"
    using lb_is_active [OF ok b] by blast
  have "unat (word_of_int (lb_flow_hash flow) :: u64) < 2 ^ 31" using lb_hash_word [of flow] by simp
  from lb_find_loop_spec [OF lb_okD(4,2,3,1) [OF ok] refl _ this active, of "lb_backend_capacity bal" 0 x]
  show ?thesis
    by (simp add: lb_find_preferred_available_backend_def lb_choice_def lb_hash_word(1))
qed

lemma lb_choice_bound:
  assumes "lb_ok n bal" "lb_choice bal Tb flow = Some b"
  shows "b < unat (lb_backend_capacity bal)" "lb_active Tb b"
proof -
  let ?h = "unat (lb_cht_height bal)" and ?c = "unat (lb_backend_capacity bal)"
  have b: "b \<in> set (lb_window ?h ?c (nat (lb_flow_hash flow)))" "lb_active Tb b"
    using assms(2) by (auto simp: lb_choice_def find_Some_iff)
  show "lb_active Tb b" by (rule b(2))
  have ch: "?c < ?h" using lb_okD(2) [OF assms(1)] by (simp add: cht_fits_def)
  show "b < ?c" using b(1) preference_table_bound [OF lb_okD(3,1) [OF assms(1)] ch] ch by (auto simp: lb_window_def)
qed

section \<open>Requests, branch by branch\<close>

abbreviation lb_lookup :: "LoadBalancer \<Rightarrow> LoadBalancedFlow \<Rightarrow> (int \<times> int) option" where
  "lb_lookup bal flow \<equiv> map_get (key_via lb_key (lb_flow_heap bal)) (lb_flow_to_flow_id bal) (Obj flow) 0"

lemma lb_same [simp]:
  "bal\<lparr>lb_backends := lb_backends bal\<rparr> = bal"
  "bal\<lparr>lb_flow_id_to_backend_id := lb_flow_id_to_backend_id bal\<rparr> = bal"
  "bal\<lparr>lb_flow_heap := lb_flow_heap bal\<rparr> = bal"
  "bal\<lparr>lb_flow_chain := lb_flow_chain bal\<rparr> = bal"
  by simp_all

lemma lb_backend_load:
  assumes "lb_ok n bal" "b < unat (lb_backend_capacity bal)"
  shows "vector_load (lb_backends bal) (vector_borrow (lb_backends bal) (int b)) = Some (lb_backend_at bal b)"
    "lb_backend_at bal b \<in> set (v_elems (lb_backends bal))"
proof -
  have len: "length (v_elems (lb_backends bal)) = unat (lb_backend_capacity bal)"
    using lb_okD(7,8) [OF assms(1)] unfolding vector_inv_def by linarith
  then show "lb_backend_at bal b \<in> set (v_elems (lb_backends bal))" using assms(2) by (simp add: lb_backend_at_def)
  show "vector_load (lb_backends bal) (vector_borrow (lb_backends bal) (int b)) = Some (lb_backend_at bal b)"
    using len assms(2) lb_okD(7) [OF assms(1)] by (simp add: vector_inv_def lb_backend_at_def)
qed

lemma lb_get_drop:
  assumes "lb_ok n bal" "lb_backends_rep Tb t bal" "lb_lookup bal flow = Some (0, x)" "lb_choice bal Tb flow = None"
  shows "lb_get_backend junk bal flow now = Some (junk\<lparr>lbb_nic := 0\<rparr>, bal)"
  using assms(3,4) lb_find_spec [OF assms(1,2), of flow 0] by (subst lb_get_backend.simps) simp

lemma lb_get_full:
  assumes "lb_ok n bal" "lb_backends_rep Tb t bal" "lb_lookup bal flow = Some (0, x)" "lb_choice bal Tb flow = Some b"
    and "dchain_allocate_new_index (lb_flow_chain bal) x now = Some (0, lb_flow_chain bal, y)"
  shows "lb_get_backend junk bal flow now = Some (lb_backend_at bal b, bal)"
  using assms(3,4,5) lb_find_spec [OF assms(1,2), of flow 0] lb_backend_load(1) [OF assms(1) lb_choice_bound(1) [OF assms(1,4)]]
  by (subst lb_get_backend.simps) (simp add: Let_def vector_return_def)

text \<open>The state after a new flow was stored.\<close>

definition lb_stored ::
  "LoadBalancer \<Rightarrow> LoadBalancedFlow \<Rightarrow> int \<Rightarrow> nat \<Rightarrow> DoubleChain \<Rightarrow> (LoadBalancedFlow keyptr, lb_key) cmap \<Rightarrow> LoadBalancer" where
  "lb_stored bal flow i b chain m =
     bal\<lparr>lb_flow_chain := chain, lb_flow_to_flow_id := m,
       lb_flow_heap := (lb_flow_heap bal)\<lparr>v_elems := (v_elems (lb_flow_heap bal))[nat i := flow]\<rparr>,
       lb_flow_id_to_backend_id := (lb_flow_id_to_backend_id bal)
         \<lparr>v_elems := (v_elems (lb_flow_id_to_backend_id bal))[nat i := word_of_nat b]\<rparr>\<rparr>"

lemma lb_get_new:
  assumes ok: "lb_ok n bal" and "lb_backends_rep Tb t bal" "lb_lookup bal flow = Some (0, x)" and b: "lb_choice bal Tb flow = Some b"
    and a: "dchain_allocate_new_index (lb_flow_chain bal) x now = Some (1, chain, i)" "0 \<le> i" "i < v_capacity (lb_flow_heap bal)"
    and v: "vector_inv (lb_flow_heap bal)"
    and m: "map_put (key_via lb_key ((lb_flow_heap bal)\<lparr>v_elems := (v_elems (lb_flow_heap bal))[nat i := flow]\<rparr>))
      (lb_flow_to_flow_id bal) (At (vector_borrow (lb_flow_heap bal) i)) i = Some m"
  shows "lb_get_backend junk bal flow now = Some (lb_backend_at bal b, lb_stored bal flow i b chain m)"
proof -
  let ?v = "(lb_flow_heap bal)\<lparr>v_elems := (v_elems (lb_flow_heap bal))[nat i := flow]\<rparr>"
    and ?ids = "(lb_flow_id_to_backend_id bal)\<lparr>v_elems := (v_elems (lb_flow_id_to_backend_id bal))[nat i := word_of_nat b]\<rparr>"
  have s1: "vector_store (lb_flow_heap bal) (vector_borrow (lb_flow_heap bal) i) flow = Some ?v"
    using v a(2,3) by (simp add: vector_inv_def)
  have "i < int (length (v_elems (lb_flow_id_to_backend_id bal)))"
    using lb_okD(5,6) [OF ok] a(3) by (simp add: vector_inv_def)
  then have s2: "vector_store (lb_flow_id_to_backend_id bal) (vector_borrow (lb_flow_id_to_backend_id bal) i)
      (word_of_int (int b)) = Some ?ids"
    using lb_okD(5) [OF ok] a(2) by (simp add: vector_inv_def)
  show ?thesis
    using assms(3) b a(1) m s1 s2 lb_find_spec [OF assms(1,2), of flow 0] lb_backend_load(1) [OF ok lb_choice_bound(1) [OF ok b]]
    by (subst lb_get_backend.simps) (simp add: Let_def vector_return_def lb_stored_def)
qed

lemma lb_assigned_load:
  assumes "lb_ok n bal" "0 \<le> i" "i < v_capacity (lb_flow_heap bal)" "lb_backend_of bal i < unat (lb_backend_capacity bal)"
  shows "\<exists>w. vector_load (lb_flow_id_to_backend_id bal) (vector_borrow (lb_flow_id_to_backend_id bal) i) = Some w \<and>
    sint w = int (lb_backend_of bal i)"
proof (intro exI conjI)
  let ?w = "v_elems (lb_flow_id_to_backend_id bal) ! nat i"
  show "vector_load (lb_flow_id_to_backend_id bal) (vector_borrow (lb_flow_id_to_backend_id bal) i) = Some ?w"
    using lb_okD(5,6) [OF assms(1)] assms(2,3) by (simp add: vector_inv_def)
  have "unat (lb_backend_capacity bal) < 2 ^ 31"
    using lb_okD(2) [OF assms(1)] cht_fits_small [of "unat (lb_cht_height bal)" "unat (lb_backend_capacity bal)"]
    by (simp add: cht_fits_def)
  then show "sint ?w = int (lb_backend_of bal i)"
    using assms(4) unfolding lb_backend_of_def by (intro uint_of_u32_small) simp_all
qed

lemma lb_get_alive:
  assumes ok: "lb_ok n bal" and r: "lb_backends_rep Tb t bal" and g: "lb_lookup bal flow = Some (1, i)"
    and i: "0 \<le> i" "i < v_capacity (lb_flow_heap bal)" "lb_backend_of bal i < unat (lb_backend_capacity bal)"
    and alive: "lb_active Tb (lb_backend_of bal i)"
    and rj: "dchain_rejuvenate_index (lb_flow_chain bal) (int (lb_backend_of bal i)) now = Some (y, chain)"
  shows "lb_get_backend junk bal flow now =
    Some (lb_backend_at bal (lb_backend_of bal i), bal\<lparr>lb_flow_chain := chain\<rparr>)"
proof -
  obtain w where w: "vector_load (lb_flow_id_to_backend_id bal) (vector_borrow (lb_flow_id_to_backend_id bal) i) = Some w"
    "sint w = int (lb_backend_of bal i)"
    using lb_assigned_load [OF ok i] by blast
  show ?thesis
    using g w rj lb_is_active [OF ok r i(3)] alive lb_backend_load(1) [OF ok i(3)]
    by (subst lb_get_backend.simps) (simp add: Let_def vector_return_def)
qed

lemma lb_get_dead:
  assumes ok: "lb_ok n bal" and r: "lb_backends_rep Tb t bal" and g: "lb_lookup bal flow = Some (1, i)"
    and i: "0 \<le> i" "i < v_capacity (lb_flow_heap bal)" "lb_backend_of bal i < unat (lb_backend_capacity bal)"
    and dead: "\<not> lb_active Tb (lb_backend_of bal i)"
    and e: "map_erase (key_via lb_key (lb_flow_heap bal)) (lb_flow_to_flow_id bal) (Obj flow)
      (At (vector_borrow (lb_flow_heap bal) i)) = Some (m, q)"
  shows "lb_get_backend junk bal flow now = lb_get_backend junk (bal\<lparr>lb_flow_to_flow_id := m\<rparr>) flow now"
proof -
  obtain w where w: "vector_load (lb_flow_id_to_backend_id bal) (vector_borrow (lb_flow_id_to_backend_id bal) i) = Some w"
    "sint w = int (lb_backend_of bal i)"
    using lb_assigned_load [OF ok i] by blast
  have same: "bal\<lparr>lb_flow_to_flow_id := m, lb_flow_heap := lb_flow_heap bal\<rparr> = bal\<lparr>lb_flow_to_flow_id := m\<rparr>" by simp
  show ?thesis
    using g w e lb_is_active [OF ok r i(3)] dead
    by (subst lb_get_backend.simps) (simp add: Let_def vector_return_def same)
qed

section \<open>Requests of flows whose backend is alive\<close>

lemma lb_ok_chain [simp]: "lb_ok n (bal\<lparr>lb_flow_chain := chain\<rparr>) = lb_ok n bal"
  "lb_ok n (bal\<lparr>lb_flow_to_flow_id := m\<rparr>) = lb_ok n bal"
  by (simp_all add: lb_ok_def)

lemma lb_ok_stored [simp]: "lb_ok n (lb_stored bal flow i b chain m) = lb_ok n bal"
  by (simp add: lb_ok_def lb_stored_def vector_inv_def)

lemma lb_frame [simp]:
  "lb_backends_rep Tb t (bal\<lparr>lb_flow_chain := chain\<rparr>) = lb_backends_rep Tb t bal"
  "lb_backends_rep Tb t (bal\<lparr>lb_flow_to_flow_id := m\<rparr>) = lb_backends_rep Tb t bal"
  "lb_backends_rep Tb t (lb_stored bal flow i b chain m) = lb_backends_rep Tb t bal"
  "lb_backend_at (bal\<lparr>lb_flow_chain := chain\<rparr>) c = lb_backend_at bal c"
  "lb_backend_at (bal\<lparr>lb_flow_to_flow_id := m\<rparr>) c = lb_backend_at bal c"
  "lb_backend_at (lb_stored bal flow i b chain m) c = lb_backend_at bal c"
  "lb_backends (lb_stored bal flow i b chain m) = lb_backends bal"
  "lb_backend_of (bal\<lparr>lb_flow_chain := chain\<rparr>) j = lb_backend_of bal j"
  "lb_backend_of (bal\<lparr>lb_flow_to_flow_id := m\<rparr>) j = lb_backend_of bal j"
  "lb_choice (bal\<lparr>lb_flow_to_flow_id := m\<rparr>) Tb flow = lb_choice bal Tb flow"
  by (simp_all add: lb_backends_rep_def lb_backend_at_def lb_backend_of_def lb_stored_def lb_choice_def)

lemma lb_backends_rep_later: "lb_backends_rep Tb t bal \<Longrightarrow> t \<le> now \<Longrightarrow> lb_backends_rep Tb now bal"
  using flow_rep_later by (auto simp: lb_backends_rep_def)

lemma lb_flows_rep_later: "lb_flows_rep Tf t bal \<Longrightarrow> t \<le> now \<Longrightarrow> lb_flows_rep Tf now bal"
  using flow_rep_later by (auto simp: lb_flows_rep_def)

lemma lb_rep_later: "lb_rep n Tf Tb t bal \<Longrightarrow> t \<le> now \<Longrightarrow> lb_rep n Tf Tb now bal"
  using lb_backends_rep_later lb_flows_rep_later by (auto simp: lb_rep_def)

lemma lb_backend_of_stored:
  assumes "lb_ok n bal" "0 \<le> i" "i < v_capacity (lb_flow_heap bal)" "0 \<le> j" "b < 2 ^ 32"
  shows "lb_backend_of (lb_stored bal flow i b chain m) j = (if j = i then b else lb_backend_of bal j)"
proof -
  have "nat i < length (v_elems (lb_flow_id_to_backend_id bal))"
    using lb_okD(5,6) [OF assms(1)] assms(2,3) by (simp add: vector_inv_def)
  then show ?thesis
    using assms(2,4) unat_small [OF assms(5)] by (auto simp: lb_backend_of_def lb_stored_def nth_list_update nat_eq_iff)
qed

definition lb_same_sizes :: "LoadBalancer \<Rightarrow> LoadBalancer \<Rightarrow> bool" where
  "lb_same_sizes bal bal' \<longleftrightarrow>
     lb_backend_capacity bal' = lb_backend_capacity bal \<and> lb_cht_height bal' = lb_cht_height bal \<and>
     v_capacity (lb_flow_heap bal') = v_capacity (lb_flow_heap bal) \<and>
     lb_flow_expiration_time bal' = lb_flow_expiration_time bal \<and>
     lb_backend_expiration_time bal' = lb_backend_expiration_time bal"

lemma lb_same_sizes_steps [simp]:
  "lb_same_sizes bal bal" "lb_same_sizes bal (bal\<lparr>lb_flow_chain := chain\<rparr>)" "lb_same_sizes bal (bal\<lparr>lb_flow_to_flow_id := m\<rparr>)"
  "lb_same_sizes bal (lb_stored bal flow i b chain m)"
  "lb_same_sizes bal (lb_stored (bal\<lparr>lb_flow_to_flow_id := m'\<rparr>) flow i b chain m)"
  by (simp_all add: lb_same_sizes_def lb_stored_def)

text \<open>
  What a request does to the table of flows: the flow of a new key is added with the backend chosen for it,
  unless the table is full. A known flow goes to its backend.
\<close>

definition lb_request_spec ::
  "LoadBalancer \<Rightarrow> lb_key flows \<Rightarrow> u32 flows \<Rightarrow> LoadBalancedFlow \<Rightarrow> int \<Rightarrow> LoadBalancedBackend
   \<Rightarrow> LoadBalancedBackend \<Rightarrow> LoadBalancer \<Rightarrow> lb_key flows \<Rightarrow> bool" where
  "lb_request_spec bal Tf Tb flow now junk backend bal' Tf' \<longleftrightarrow>
     lb_backends bal' = lb_backends bal \<and> lb_same_sizes bal bal' \<and>
     (\<forall>(k, i, t) \<in> set Tf. lb_backend_of bal' i = lb_backend_of bal i) \<and>
     (case find_flow Tf (lb_key flow) of
        Some i \<Rightarrow> backend = lb_backend_at bal (lb_backend_of bal i) \<and> Tf' = touch_flow Tf (int (lb_backend_of bal i)) now
      | None \<Rightarrow>
     (case lb_choice bal Tb flow of
        None \<Rightarrow> backend = junk\<lparr>lbb_nic := 0\<rparr> \<and> Tf' = Tf
      | Some b \<Rightarrow> backend = lb_backend_at bal b \<and>
          (if int (length Tf) = v_capacity (lb_flow_heap bal) then Tf' = Tf
           else \<exists>i. (\<forall>k t. (k, i, t) \<notin> set Tf) \<and> Tf' = add_flow Tf (lb_key flow) i now \<and> lb_backend_of bal' i = b)))"

lemma lb_lookup_flow:
  assumes "lb_flows_rep Tf t bal"
  shows "lb_lookup bal flow = Some (case find_flow Tf (lb_key flow) of None \<Rightarrow> (0, 0) | Some i \<Rightarrow> (1, i))"
  by (rule flow_get [where now = t and chain = "lb_flow_chain bal"]) (use assms in \<open>simp add: lb_flows_rep_def\<close>)

lemma lb_flow_index:
  assumes "lb_flows_rep Tf t bal" "find_flow Tf k = Some i"
  shows "0 \<le> i" "i < v_capacity (lb_flow_heap bal)" "lb_backend_of bal i < unat (lb_backend_capacity bal)"
proof -
  have r: "flow_rep_via lb_key Tf t (lb_flow_to_flow_id bal) (lb_flow_heap bal) (lb_flow_chain bal)"
    using assms(1) by (simp add: lb_flows_rep_def)
  obtain u where u: "(k, i, u) \<in> set Tf" using assms(2) find_flow_Some [OF flow_rep_wf [OF r]] by blast
  show "0 \<le> i" "i < v_capacity (lb_flow_heap bal)" using flows_wfD [OF flow_rep_wf [OF r] u] by simp_all
  show "lb_backend_of bal i < unat (lb_backend_capacity bal)" using assms(1) u by (auto simp: lb_flows_rep_def)
qed

lemma lb_request_new:
  assumes rep: "lb_rep n Tf Tb t bal" and t: "t \<le> now" and new: "find_flow Tf (lb_key flow) = None"
  shows "\<exists>backend bal' Tf'. lb_get_backend junk bal flow now = Some (backend, bal') \<and> lb_rep n Tf' Tb now bal' \<and>
    lb_request_spec bal Tf Tb flow now junk backend bal' Tf'"
proof -
  have ok: "lb_ok n bal" and f: "lb_flows_rep Tf t bal" and b: "lb_backends_rep Tb t bal" using rep by (simp_all add: lb_rep_def)
  have r: "flow_rep_via lb_key Tf t (lb_flow_to_flow_id bal) (lb_flow_heap bal) (lb_flow_chain bal)"
    using f by (simp add: lb_flows_rep_def)
  have g: "lb_lookup bal flow = Some (0, 0)" using lb_lookup_flow [OF f] new by simp
  note same = lb_rep_later [OF rep t]
  show ?thesis
  proof (cases "lb_choice bal Tb flow")
    case None
    then show ?thesis using lb_get_drop [OF ok b g None] same new by (auto simp: lb_request_spec_def)
  next
    case (Some c)
    show ?thesis
    proof (cases "int (length Tf) = v_capacity (lb_flow_heap bal)")
      case True
      then show ?thesis
        using lb_get_full [OF ok b g Some flow_allocate_full [OF r True]] same new Some by (auto simp: lb_request_spec_def)
    next
      case False
      then have "int (length Tf) < v_capacity (lb_flow_heap bal)" using flow_length [OF r] by simp
      from flow_allocate [OF r this new t, of 0] obtain chain i m where
        a: "dchain_allocate_new_index (lb_flow_chain bal) 0 now = Some (1, chain, i)" "0 \<le> i" "i < v_capacity (lb_flow_heap bal)"
        and unused: "\<forall>k t. (k, i, t) \<notin> set Tf"
        and m: "map_put (key_via lb_key ((lb_flow_heap bal)\<lparr>v_elems := (v_elems (lb_flow_heap bal))[nat i := flow]\<rparr>))
          (lb_flow_to_flow_id bal) (At (vector_borrow (lb_flow_heap bal) i)) i = Some m"
        and r': "flow_rep_via lb_key (add_flow Tf (lb_key flow) i now) now m
          ((lb_flow_heap bal)\<lparr>v_elems := (v_elems (lb_flow_heap bal))[nat i := flow]\<rparr>) chain"
        by blast
      let ?bal = "lb_stored bal flow i c chain m"
      have c: "c < unat (lb_backend_capacity bal)" by (rule lb_choice_bound(1) [OF ok Some])
      have c32: "c < 2 ^ 32" using c unsigned_less [of "lb_backend_capacity bal", where ?'a = nat] by simp
      have get: "lb_get_backend junk bal flow now = Some (lb_backend_at bal c, ?bal)"
        by (rule lb_get_new [OF ok b g Some a flow_vector(1) [OF r] m])
      have of: "lb_backend_of ?bal j = (if j = i then c else lb_backend_of bal j)" if "0 \<le> j" for j
        by (rule lb_backend_of_stored [OF ok a(2,3) that c32])
      have old: "lb_backend_of ?bal j = lb_backend_of bal j" if "(k, j, u) \<in> set Tf" for k j u
      proof -
        have "j \<noteq> i" using unused that by blast
        then show ?thesis using of [of j] flows_wfD [OF flow_rep_wf [OF r] that] by simp
      qed
      have "lb_flows_rep (add_flow Tf (lb_key flow) i now) now ?bal"
        using r' f c of [OF a(2)] old by (auto simp: lb_flows_rep_def lb_stored_def add_flow_def)
      then have "lb_rep n (add_flow Tf (lb_key flow) i now) Tb now ?bal"
        using ok lb_backends_rep_later [OF b t] by (simp add: lb_rep_def)
      moreover have "lb_request_spec bal Tf Tb flow now junk (lb_backend_at bal c) ?bal (add_flow Tf (lb_key flow) i now)"
        using new Some False unused of [OF a(2)] old by (auto simp: lb_request_spec_def)
      ultimately show ?thesis using get by blast
    qed
  qed
qed

lemma flow_rejuvenate_any:
  assumes r: "flow_rep_via kv T t m v chain" and "0 \<le> i" "i < v_capacity v" "t \<le> now"
  shows "\<exists>y chain'. dchain_rejuvenate_index chain i now = Some (y, chain') \<and> flow_rep_via kv (touch_flow T i now) now m v chain'"
proof (cases "\<exists>k u. (k, i, u) \<in> set T")
  case True
  then obtain k u where "(k, i, u) \<in> set T" by blast
  then show ?thesis using flow_rejuvenate [OF r _ assms(4)] by blast
next
  case False
  then have absent: "\<forall>k u. (k, i, u) \<notin> set T" by blast
  show ?thesis
    using flow_rejuvenate_absent [OF r assms(2,3) absent] flow_rep_later [OF r assms(4)]
    unfolding touch_flow_absent [OF absent] by blast
qed

lemma lb_request_known:
  assumes rep: "lb_rep n Tf Tb t bal" and t: "t \<le> now" and old: "find_flow Tf (lb_key flow) = Some i"
    and alive: "lb_active Tb (lb_backend_of bal i)"
  shows "\<exists>backend bal' Tf'. lb_get_backend junk bal flow now = Some (backend, bal') \<and> lb_rep n Tf' Tb now bal' \<and>
    lb_request_spec bal Tf Tb flow now junk backend bal' Tf'"
proof -
  have ok: "lb_ok n bal" and f: "lb_flows_rep Tf t bal" and b: "lb_backends_rep Tb t bal" using rep by (simp_all add: lb_rep_def)
  have r: "flow_rep_via lb_key Tf t (lb_flow_to_flow_id bal) (lb_flow_heap bal) (lb_flow_chain bal)"
    using f by (simp add: lb_flows_rep_def)
  have g: "lb_lookup bal flow = Some (1, i)" using lb_lookup_flow [OF f] old by simp
  note i = lb_flow_index [OF f old]
  let ?b = "int (lb_backend_of bal i)" let ?T = "touch_flow Tf ?b now"
  have "?b < v_capacity (lb_flow_heap bal)" using i(3) lb_okD(11) [OF ok] by linarith
  from flow_rejuvenate_any [OF r _ this t] obtain y chain where
    rj: "dchain_rejuvenate_index (lb_flow_chain bal) ?b now = Some (y, chain)"
    and r': "flow_rep_via lb_key ?T now (lb_flow_to_flow_id bal) (lb_flow_heap bal) chain" by auto
  have "lb_flows_rep ?T now (bal\<lparr>lb_flow_chain := chain\<rparr>)"
    using r' f unfolding lb_flows_rep_def by (fastforce simp: touch_flow_member split: if_splits)
  then have "lb_rep n ?T Tb now (bal\<lparr>lb_flow_chain := chain\<rparr>)"
    using ok lb_backends_rep_later [OF b t] by (simp add: lb_rep_def)
  moreover have "lb_request_spec bal Tf Tb flow now junk (lb_backend_at bal (lb_backend_of bal i)) (bal\<lparr>lb_flow_chain := chain\<rparr>) ?T"
    using old by (simp add: lb_request_spec_def)
  ultimately show ?thesis using lb_get_alive [OF ok b g i alive rj] by blast
qed

section \<open>Requests of flows whose backend is gone\<close>

text \<open>
  The entry of the map goes, and a new backend is chosen as for a new flow. The old index stays allocated,
  without an entry in the map.
\<close>

lemma lb_erased:
  assumes f: "lb_flows_rep Tf t bal" and old: "find_flow Tf (lb_key flow) = Some i"
  shows "\<exists>m q. map_erase (key_via lb_key (lb_flow_heap bal)) (lb_flow_to_flow_id bal) (Obj flow) z = Some (m, q) \<and>
    map_inv (key_via lb_key (lb_flow_heap bal)) m \<and> map_cap m = map_cap (lb_flow_to_flow_id bal) \<and>
    map_entries m = map_entries (lb_flow_to_flow_id bal) - {slot (lb_flow_heap bal) i} \<and>
    map_abs (key_via lb_key (lb_flow_heap bal)) m (lb_key flow) = None"
proof -
  let ?d = "key_via lb_key (lb_flow_heap bal)" and ?m = "lb_flow_to_flow_id bal"
  have r: "flow_rep_via lb_key Tf t ?m (lb_flow_heap bal) (lb_flow_chain bal)" using f by (simp add: lb_flows_rep_def)
  then obtain ch where co: "map_vec_chain_coherent lb_key ?m (lb_flow_heap bal) ch" by (auto simp: flow_rep_via_def)
  note inv = mvc_coherentD(1) [OF co]
  have "map_abs ?d ?m (lb_key flow) = Some i" using map_abs_flows [OF r] old by simp
  then obtain q where q: "(q, i) \<in> map_entries ?m" "?d q = ?d (Obj flow)" using map_abs_Some [OF inv] by auto
  have qs: "(q, i) = slot (lb_flow_heap bal) i"
    using q(1) co by (auto simp: map_vec_chain_coherent_def coherent_over_def slot_def)
  obtain m where m: "map_erase ?d ?m (Obj flow) z = Some (m, q)" "map_inv ?d m" "map_entries m = map_entries ?m - {(q, i)}"
    "map_cap m = map_cap ?m"
    using hm.erase_old [OF inv q, of z] by blast
  have "map_abs ?d m (lb_key flow) = None"
    unfolding map_abs_None [OF m(2)] m(3) using hm.entries_inj [OF inv _ q(1)] q(2) by auto
  then show ?thesis using m qs by auto
qed

definition lb_leaked :: "LoadBalancer \<Rightarrow> int \<Rightarrow> bool" where
  "lb_leaked bal i \<longleftrightarrow>
     dchain_is_index_allocated (lb_flow_chain bal) i = Some True \<and> (\<forall>q. (q, i) \<notin> map_entries (lb_flow_to_flow_id bal))"

lemma lb_request_dead:
  assumes rep: "lb_rep n Tf Tb t bal" and t: "t \<le> now" and old: "find_flow Tf (lb_key flow) = Some i"
    and dead: "\<not> lb_active Tb (lb_backend_of bal i)"
  shows "\<exists>bal'. lb_get_backend junk bal flow now =
      Some (case lb_choice bal Tb flow of None \<Rightarrow> junk\<lparr>lbb_nic := 0\<rparr> | Some b \<Rightarrow> lb_backend_at bal b, bal') \<and>
    lb_ok n bal' \<and> lb_same_sizes bal bal' \<and> lb_backends_rep Tb now bal' \<and> lb_leaked bal' i"
proof -
  have ok: "lb_ok n bal" and f: "lb_flows_rep Tf t bal" and b: "lb_backends_rep Tb t bal" using rep by (simp_all add: lb_rep_def)
  have r: "flow_rep_via lb_key Tf t (lb_flow_to_flow_id bal) (lb_flow_heap bal) (lb_flow_chain bal)"
    using f by (simp add: lb_flows_rep_def)
  obtain ch where ch: "double_chainp ch (lb_flow_chain bal)" "map_vec_chain_coherent lb_key (lb_flow_to_flow_id bal) (lb_flow_heap bal) ch"
    "dchain_high_fp ch \<le> t" and T: "Tf = flows_of lb_key (lb_flow_heap bal) ch"
    using r by (auto simp: flow_rep_via_def)
  note co = mvc_coherentD [OF ch(2)] note i = lb_flow_index [OF f old]
  obtain u where u: "(lb_key flow, i, u) \<in> set Tf" using old find_flow_Some [OF flow_rep_wf [OF r]] by blast
  then have iS: "i \<in> set (dchain_indexes_fp ch)" by (auto simp: T flows_of_member index_member)
  let ?S = "set (dchain_indexes_fp ch)" and ?v = "lb_flow_heap bal"
  have ent: "map_entries (lb_flow_to_flow_id bal) = slot ?v ` ?S" and cap: "v_capacity ?v \<le> int (map_cap (lb_flow_to_flow_id bal))"
    using ch(2) by (auto simp: map_vec_chain_coherent_def coherent_over_def)
  obtain m q where e: "map_erase (key_via lb_key ?v) (lb_flow_to_flow_id bal) (Obj flow) (At (vector_borrow ?v i)) = Some (m, q)"
    and m: "map_inv (key_via lb_key ?v) m" "map_cap m = map_cap (lb_flow_to_flow_id bal)"
      "map_entries m = slot ?v ` ?S - {slot ?v i}" "map_abs (key_via lb_key ?v) m (lb_key flow) = None"
    using lb_erased [OF f old, of "At (vector_borrow ?v i)"] unfolding ent by blast
  have gone: "(q, i) \<notin> map_entries m" for q unfolding m(3) by (auto simp: slot_def)
  have still: "dchain_is_index_allocated (lb_flow_chain bal) i = Some True"
    using dc.is_allocated [OF ch(1) i(1)] i(2) co(3) iS by simp
  let ?bal = "bal\<lparr>lb_flow_to_flow_id := m\<rparr>"
  have again: "lb_get_backend junk bal flow now = lb_get_backend junk ?bal flow now"
    using lb_get_dead [OF ok b _ i dead e] lb_lookup_flow [OF f] old by simp
  have ok': "lb_ok n ?bal" and b': "lb_backends_rep Tb t ?bal" using ok b by simp_all
  have g: "lb_lookup ?bal flow = Some (0, 0)" using map_get_abs [OF m(1), of "Obj flow" 0] m(4) by simp
  have leaked: "lb_leaked ?bal i" using still gone by (simp add: lb_leaked_def)
  show ?thesis
  proof (cases "lb_choice bal Tb flow")
    case None
    then show ?thesis
      using again lb_get_drop [OF ok' b' g] leaked ok lb_backends_rep_later [OF b t] by (intro exI [of _ ?bal]) simp
  next
    case (Some c)
    then have c': "lb_choice ?bal Tb flow = Some c" by simp
    show ?thesis
    proof (cases "dchain_out_of_space_fp ch")
      case True
      then have "dchain_allocate_new_index (lb_flow_chain ?bal) 0 now = Some (0, lb_flow_chain ?bal, 0)"
        using dc.allocate_full [OF ch(1)] by simp
      from lb_get_full [OF ok' b' g c' this] show ?thesis
        using again Some leaked ok lb_backends_rep_later [OF b t] by (intro exI [of _ ?bal]) simp
    next
      case False
      obtain chain j where j: "dchain_allocate_new_index (lb_flow_chain bal) 0 now = Some (1, chain, j)" "j \<notin> ?S"
        "0 \<le> j" "j < v_capacity ?v" "double_chainp (dchain_allocate_fp ch j now) chain"
        using dc.allocate_new [OF ch(1) _ False, of now 0] ch(3) t co(3) by auto
      have "map_entries m \<subseteq> slot ?v ` ?S" "?S \<subseteq> {0..<v_capacity ?v}" "v_capacity ?v \<le> int (map_cap m)"
        using m(2,3) cap dc.rep_range [OF ch(1)] co(3) by auto
      from ft.put_slot [OF m(1) co(2) this(3,1,2) m(4) j(2-4)] obtain m' where
        m': "map_put (key_via lb_key (?v\<lparr>v_elems := (v_elems ?v)[nat j := flow]\<rparr>)) m (At (vector_borrow ?v j)) j = Some m'"
        "map_entries m' = insert (slot ?v j) (map_entries m)"
        by blast
      let ?bal' = "lb_stored ?bal flow j c chain m'"
      have get: "lb_get_backend junk ?bal flow now = Some (lb_backend_at bal c, ?bal')"
        using lb_get_new [OF ok' b' g c', of now chain j m' junk] j(1,3,4) co(2) m'(1) by simp
      have "i \<noteq> j" using iS j(2) by blast
      then have "(q, i) \<notin> map_entries m'" for q using gone m'(2) by (auto simp: slot_def)
      moreover have "dchain_is_index_allocated chain i = Some True"
        using dc.is_allocated [OF j(5) i(1)] i(2) co(3) iS by (simp add: dchain_allocate_fp_def dchain_indexes_fp_def)
      ultimately have "lb_leaked ?bal' i" by (simp add: lb_leaked_def lb_stored_def)
      then show ?thesis using get again Some ok lb_backends_rep_later [OF b t] by (intro exI [of _ ?bal']) simp
    qed
  qed
qed

section \<open>Heartbeats and expiry\<close>

text \<open>
  A heartbeat of a known backend keeps it alive, one of a new address enters the backend, unless the
  table is full. The device and the Ethernet address of a known backend stay what they were.
\<close>

definition lb_heartbeat_spec ::
  "LoadBalancer \<Rightarrow> u32 flows \<Rightarrow> LoadBalancedBackend \<Rightarrow> int \<Rightarrow> LoadBalancer \<Rightarrow> u32 flows \<Rightarrow> bool" where
  "lb_heartbeat_spec bal Tb backend now bal' Tb' \<longleftrightarrow>
     (case find_flow Tb (lbb_ip backend) of
        Some b \<Rightarrow> Tb' = touch_flow Tb b now \<and> lb_backends bal' = lb_backends bal
      | None \<Rightarrow>
          (if int (length Tb) = v_capacity (lb_backend_ips bal) then Tb' = Tb \<and> lb_backends bal' = lb_backends bal
           else \<exists>b. lb_backend_at bal' b = backend \<and> (\<forall>ip t. (ip, int b, t) \<notin> set Tb) \<and>
             Tb' = add_flow Tb (lbb_ip backend) (int b) now \<and> (\<forall>c. c \<noteq> b \<longrightarrow> lb_backend_at bal' c = lb_backend_at bal c)))"

lemma lb_flows_frame:
  "lb_flows_rep Tf t (bal\<lparr>lb_active_backends := c\<rparr>) = lb_flows_rep Tf t bal"
  "lb_flows_rep Tf t (bal\<lparr>lb_active_backends := c, lb_backends := bs, lb_backend_ips := ips, lb_ip_to_backend_id := m\<rparr>) = lb_flows_rep Tf t bal"
  "lb_flows_rep Tf t (bal\<lparr>lb_active_backends := c, lb_backend_ips := ips, lb_ip_to_backend_id := m\<rparr>) = lb_flows_rep Tf t bal"
  "lb_ok n (bal\<lparr>lb_active_backends := c\<rparr>) = lb_ok n bal"
  by (simp_all add: lb_flows_rep_def lb_backend_of_def lb_ok_def)

lemma lb_heartbeat:
  assumes rep: "lb_rep n Tf Tb t bal" and t: "t \<le> now"
    and nic: "0 \<le> nic" "nic < int n" "n \<le> 2 ^ 16" and mac: "length mac = 6"
  shows "\<exists>bal' Tb'. lb_process_heartbit bal flow mac nic now = Some bal' \<and> lb_rep n Tf Tb' now bal' \<and>
    lb_heartbeat_spec bal Tb \<lparr>lbb_nic = word_of_int nic, lbb_mac = mac, lbb_ip = lbf_src_ip flow\<rparr> now bal' Tb'"
proof -
  let ?ip = "lbf_src_ip flow" and ?v = "lb_backend_ips bal"
  let ?new = "\<lparr>lbb_nic = word_of_int nic, lbb_mac = mac, lbb_ip = ?ip\<rparr>"
  have ok: "lb_ok n bal" and f: "lb_flows_rep Tf t bal" and b: "lb_backends_rep Tb t bal" using rep by (simp_all add: lb_rep_def)
  have r: "flow_rep Tb t (lb_ip_to_backend_id bal) ?v (lb_active_backends bal)" using b by (simp add: lb_backends_rep_def)
  note f' = lb_flows_rep_later [OF f t]
  have g: "map_get (key_at ?v) (lb_ip_to_backend_id bal) (Obj ?ip) 0
      = Some (case find_flow Tb ?ip of None \<Rightarrow> (0, 0) | Some i \<Rightarrow> (1, i))"
    by (rule flow_get [OF r])
  show ?thesis
  proof (cases "find_flow Tb ?ip")
    case (Some i)
    then obtain u where u: "(?ip, i, u) \<in> set Tb" using find_flow_Some [OF flow_rep_wf [OF r]] by blast
    obtain chain where c: "dchain_rejuvenate_index (lb_active_backends bal) i now = Some (1, chain)"
      "flow_rep (touch_flow Tb i now) now (lb_ip_to_backend_id bal) ?v chain"
      using flow_rejuvenate [OF r u t] by blast
    let ?bal = "bal\<lparr>lb_active_backends := chain\<rparr>"
    have "lb_backends_rep (touch_flow Tb i now) now ?bal"
      using c(2) b unfolding lb_backends_rep_def
      by (fastforce simp: touch_flow_member lb_backend_at_def split: if_splits)
    then have "lb_rep n Tf (touch_flow Tb i now) now ?bal" using ok f' by (simp add: lb_rep_def lb_flows_frame)
    then show ?thesis
      using g Some c(1) by (intro exI [of _ ?bal] exI [of _ "touch_flow Tb i now"])
        (simp add: lb_process_heartbit_def lb_heartbeat_spec_def)
  next
    case None
    show ?thesis
    proof (cases "int (length Tb) = v_capacity ?v")
      case True
      have "lb_process_heartbit bal flow mac nic now = Some bal"
        using g None flow_allocate_full [OF r True, of 0 now] by (simp add: lb_process_heartbit_def)
      then show ?thesis using lb_rep_later [OF rep t] None True by (auto simp: lb_heartbeat_spec_def)
    next
      case False
      then have "int (length Tb) < v_capacity ?v" using flow_length [OF r] by simp
      from flow_allocate [OF r this None t, of 0] obtain chain i m where
        a: "dchain_allocate_new_index (lb_active_backends bal) 0 now = Some (1, chain, i)" "0 \<le> i" "i < v_capacity ?v"
        and unused: "\<forall>k t. (k, i, t) \<notin> set Tb"
        and st: "vector_store ?v (vector_borrow ?v i) ?ip = Some (?v\<lparr>v_elems := (v_elems ?v)[nat i := ?ip]\<rparr>)"
        and m: "map_put (key_at (?v\<lparr>v_elems := (v_elems ?v)[nat i := ?ip]\<rparr>)) (lb_ip_to_backend_id bal) (At (vector_borrow ?v i)) i = Some m"
        and r': "flow_rep (add_flow Tb ?ip i now) now m (?v\<lparr>v_elems := (v_elems ?v)[nat i := ?ip]\<rparr>) chain"
        by blast
      obtain b' where b': "i = int b'" using a(2) nonneg_int_cases by blast
      have lt: "b' < unat (lb_backend_capacity bal)" using a(3) lb_okD(9) [OF ok] b' by linarith
      have len: "b' < length (v_elems (lb_backends bal))"
        using lt lb_okD(7,8) [OF ok] unfolding vector_inv_def by linarith
      let ?bs = "(lb_backends bal)\<lparr>v_elems := (v_elems (lb_backends bal))[b' := ?new]\<rparr>"
      have st2: "vector_store (lb_backends bal) (vector_borrow (lb_backends bal) i)
          ((lb_backend_at bal b')\<lparr>lbb_ip := ?ip, lbb_mac := mac, lbb_nic := word_of_int nic\<rparr>) = Some ?bs"
      proof -
        have "(lb_backend_at bal b')\<lparr>lbb_ip := ?ip, lbb_mac := mac, lbb_nic := word_of_int nic\<rparr> = ?new" by simp
        then show ?thesis using len lb_okD(7) [OF ok] b' by (simp only:) (simp add: vector_inv_def)
      qed
      let ?bal = "bal\<lparr>lb_active_backends := chain, lb_backends := ?bs,
        lb_backend_ips := ?v\<lparr>v_elems := (v_elems ?v)[nat i := ?ip]\<rparr>, lb_ip_to_backend_id := m\<rparr>"
      have run: "lb_process_heartbit bal flow mac nic now = Some ?bal"
        using g None a(1) st st2 m lb_backend_load(1) [OF ok lt]
        by (simp add: lb_process_heartbit_def Let_def vector_return_def b')
      have at: "lb_backend_at ?bal c = (if c = b' then ?new else lb_backend_at bal c)" for c
        using len by (simp add: lb_backend_at_def)
      have "unat (word_of_int nic :: u16) < n"
        using nic take_bit_int_eq_self [of nic 16] by (simp add: unsigned_of_int nat_less_iff)
      then have "lb_ok n ?bal"
        using ok mac set_update_subset_insert [of "v_elems (lb_backends bal)" b' ?new]
        unfolding lb_ok_def Let_def by (auto simp: vector_inv_def)
      moreover have "lb_backends_rep (add_flow Tb ?ip i now) now ?bal"
      proof -
        have "lbb_ip (lb_backend_at ?bal (nat c)) = k" if "(k, c, u) \<in> set Tb" for k c u
        proof -
          have "c \<noteq> i" "0 \<le> c" using unused that flows_wfD [OF flow_rep_wf [OF r] that] by blast+
          then have "nat c \<noteq> b'" using b' by auto
          then show ?thesis using at b that by (auto simp: lb_backends_rep_def)
        qed
        then show ?thesis using r' at b' by (auto simp: lb_backends_rep_def add_flow_def)
      qed
      moreover have "lb_heartbeat_spec bal Tb ?new now ?bal (add_flow Tb ?ip i now)"
        using None False unused at b' by (auto simp: lb_heartbeat_spec_def)
      ultimately show ?thesis using run f' by (auto simp: lb_rep_def lb_flows_frame)
    qed
  qed
qed

definition lb_last :: "int \<Rightarrow> u64 \<Rightarrow> int" where
  "lb_last now expiration = sint ((word_of_int now :: u64) - expiration)"

text \<open>What both expiries may change.\<close>

definition lb_same_data :: "LoadBalancer \<Rightarrow> LoadBalancer \<Rightarrow> bool" where
  "lb_same_data bal bal' \<longleftrightarrow>
     (\<exists>fc fm bc bm. bal' = bal\<lparr>lb_flow_chain := fc, lb_flow_to_flow_id := fm, lb_active_backends := bc, lb_ip_to_backend_id := bm\<rparr>)"

lemma lb_same_dataD:
  assumes "lb_same_data bal bal'"
  shows "lb_backends bal' = lb_backends bal" "lb_backend_of bal' = lb_backend_of bal"
    "lb_backend_at bal' = lb_backend_at bal" "lb_choice bal' = lb_choice bal" "lb_flow_heap bal' = lb_flow_heap bal"
    "lb_backend_ips bal' = lb_backend_ips bal" "lb_same_sizes bal' = lb_same_sizes bal"
  using assms by (auto simp: lb_same_data_def lb_same_sizes_def fun_eq_iff lb_backend_of_def lb_backend_at_def lb_choice_def)

lemma lb_same_data_spec:
  assumes "lb_same_data bal bal'"
  shows "lb_request_spec bal' = lb_request_spec bal" "lb_heartbeat_spec bal' = lb_heartbeat_spec bal"
  unfolding lb_request_spec_def lb_heartbeat_spec_def lb_same_dataD [OF assms] by (rule refl)+

lemma lb_expiries:
  assumes rep: "lb_rep n Tf Tb t bal" and now: "0 \<le> now"
  shows "\<exists>bal1 bal2. lb_expire_flows bal now = Some bal1 \<and> lb_expire_backends bal1 now = Some bal2 \<and>
    lb_same_data bal bal2 \<and>
    lb_rep n (expire_flows Tf (lb_last now (lb_flow_expiration_time bal))) (expire_flows Tb (lb_last now (lb_backend_expiration_time bal))) t bal2"
proof -
  have ok: "lb_ok n bal" and f: "lb_flows_rep Tf t bal" and b: "lb_backends_rep Tb t bal" using rep by (simp_all add: lb_rep_def)
  have rf: "flow_rep_via lb_key Tf t (lb_flow_to_flow_id bal) (lb_flow_heap bal) (lb_flow_chain bal)"
    and rb: "flow_rep Tb t (lb_ip_to_backend_id bal) (lb_backend_ips bal) (lb_active_backends bal)"
    using f b by (simp_all add: lb_flows_rep_def lb_backends_rep_def)
  let ?Tf = "expire_flows Tf (lb_last now (lb_flow_expiration_time bal))"
    and ?Tb = "expire_flows Tb (lb_last now (lb_backend_expiration_time bal))"
  obtain n1 fc fm where 1: "expire_items_single_map (key_via lb_key (lb_flow_heap bal)) (lb_flow_chain bal) (lb_flow_heap bal)
      (lb_flow_to_flow_id bal) (lb_last now (lb_flow_expiration_time bal)) = Some (n1, fc, lb_flow_heap bal, fm)"
    "flow_rep_via lb_key ?Tf t fm (lb_flow_heap bal) fc"
    using flow_expire [OF rf] by blast
  obtain n2 bc bm where 2: "expire_items_single_map (key_at (lb_backend_ips bal)) (lb_active_backends bal) (lb_backend_ips bal)
      (lb_ip_to_backend_id bal) (lb_last now (lb_backend_expiration_time bal)) = Some (n2, bc, lb_backend_ips bal, bm)"
    "flow_rep ?Tb t bm (lb_backend_ips bal) bc"
    using flow_expire [OF rb] by blast
  let ?bal1 = "bal\<lparr>lb_flow_chain := fc, lb_flow_heap := lb_flow_heap bal, lb_flow_to_flow_id := fm\<rparr>"
  let ?bal2 = "bal\<lparr>lb_flow_chain := fc, lb_flow_to_flow_id := fm, lb_active_backends := bc, lb_ip_to_backend_id := bm\<rparr>"
  have e1: "lb_expire_flows bal now = Some ?bal1"
    using 1(1) now by (simp add: lb_expire_flows_def lb_last_def)
  have e2: "lb_expire_backends ?bal1 now = Some ?bal2"
    using 2(1) now by (simp add: lb_expire_backends_def lb_last_def)
  have "lb_flows_rep ?Tf t ?bal2" using 1(2) f by (auto simp: lb_flows_rep_def lb_backend_of_def expire_flows_def)
  moreover have "lb_backends_rep ?Tb t ?bal2" using 2(2) b by (auto simp: lb_backends_rep_def lb_backend_at_def expire_flows_def)
  moreover have "lb_ok n ?bal2" using ok by (simp add: lb_ok_def)
  ultimately show ?thesis using e1 e2 by (auto simp: lb_rep_def lb_same_data_def)
qed

section \<open>The packet handler\<close>

definition lb_flow_of :: "u8 list \<Rightarrow> LoadBalancedFlow" where
  "lb_flow_of d = \<lparr>lbf_src_ip = get32 d 26, lbf_dst_ip = get32 d 30, lbf_src_port = get16 d (l4_off d),
     lbf_dst_port = get16 d (l4_off d + 2), lbf_protocol = d ! 23\<rparr>"

definition lb_config_ok :: "lb_config \<Rightarrow> nat \<Rightarrow> bool" where
  "lb_config_ok config n \<longleftrightarrow> 0 < n \<and> n \<le> 2 ^ 16 \<and> length (lbc_device_macs config) = n \<and>
     (\<forall>mac \<in> set (lbc_device_macs config). length mac = 6)"

text \<open>The packet that leaves for a backend: only the destination address and the Ethernet addresses change.\<close>

definition lb_sent :: "lb_config \<Rightarrow> LoadBalancedBackend \<Rightarrow> u8 list \<Rightarrow> u8 list \<Rightarrow> bool" where
  "lb_sent config backend d d' \<longleftrightarrow>
     length d' = length d \<and> get32 d' 30 = lbb_ip backend \<and> take 6 d' = lbb_mac backend \<and>
     take 6 (drop 6 d') = lbc_device_macs config ! unat (lbb_nic backend) \<and>
     (\<forall>j. 12 \<le> j \<and> j < 30 \<or> 34 \<le> j \<longrightarrow> d' ! j = d ! j)"

lemma lb_rewrite:
  assumes "54 \<le> length d" "length s = 6" "length (lbb_mac backend) = 6" "s = lbc_device_macs config ! unat (lbb_nic backend)"
  shows "lb_sent config backend d (put_bytes (put_bytes (put32 d 30 (lbb_ip backend)) 6 s) 0 (lbb_mac backend))"
proof -
  let ?d1 = "put32 d 30 (lbb_ip backend)" let ?d2 = "put_bytes ?d1 6 s" let ?d3 = "put_bytes ?d2 0 (lbb_mac backend)"
  have "take 6 (drop 6 ?d3) = take 6 (drop 6 ?d2)" using assms(2,3) by (simp add: put_bytes_def)
  then have "take 6 (drop 6 ?d3) = s" using take_put_bytes [of 6 s ?d1] assms(1,2) by simp
  moreover have "take 6 ?d3 = lbb_mac backend" using take_put_bytes [of 0 "lbb_mac backend" ?d2] assms by simp
  moreover have "?d3 ! j = d ! j" if "12 \<le> j \<and> j < 30 \<or> 34 \<le> j" for j
    using that assms by (auto simp: nth_put_bytes nth_put32)
  moreover have "get32 ?d3 30 = lbb_ip backend"
    using assms by (simp add: get32_put_bytes get32_put32)
  ultimately show ?thesis using assms by (auto simp: lb_sent_def)
qed

text \<open>What the handler does with one packet.\<close>

definition lb_step_spec ::
  "lb_config \<Rightarrow> LoadBalancedBackend \<Rightarrow> LoadBalancer \<Rightarrow> lb_key flows \<Rightarrow> u32 flows \<Rightarrow> mbuf \<Rightarrow> int
   \<Rightarrow> int \<Rightarrow> LoadBalancer \<Rightarrow> u8 list \<Rightarrow> lb_key flows \<Rightarrow> u32 flows \<Rightarrow> bool" where
  "lb_step_spec config junk bal Tf Tb mbuf now out bal' d' Tf' Tb' \<longleftrightarrow>
     (let d = mbuf_data mbuf in
      if \<not> (is_ipv4 d \<and> is_tcpudp d) then out = uint (mbuf_port mbuf) \<and> d' = d \<and> Tf' = Tf \<and> Tb' = Tb
      else if mbuf_port mbuf \<noteq> 0 then
        out = uint (mbuf_port mbuf) \<and> d' = d \<and> Tf' = Tf \<and>
        lb_heartbeat_spec bal Tb \<lparr>lbb_nic = mbuf_port mbuf, lbb_mac = take 6 (drop 6 d), lbb_ip = get32 d 26\<rparr> now bal' Tb'
      else Tb' = Tb \<and> (\<exists>backend. lb_request_spec bal Tf Tb (lb_flow_of d) now junk backend bal' Tf' \<and>
        out = uint (lbb_nic backend) \<and> lb_sent config backend d d'))"

lemma lb_known_backend_ok:
  assumes "lb_rep n Tf Tb t bal" "lb_request_spec bal Tf Tb flow now junk backend bal' Tf'" "length (lbb_mac junk) = 6" "0 < n"
  shows "unat (lbb_nic backend) < n" "length (lbb_mac backend) = 6"
proof -
  have ok: "lb_ok n bal" and f: "lb_flows_rep Tf t bal" using assms(1) by (simp_all add: lb_rep_def)
  have "backend = junk\<lparr>lbb_nic := 0\<rparr> \<or> (\<exists>b < unat (lb_backend_capacity bal). backend = lb_backend_at bal b)"
    using assms(2) lb_flow_index(3) [OF f, of "lb_key flow"] lb_choice_bound(1) [OF ok, of Tb flow]
    by (cases "find_flow Tf (lb_key flow)"; cases "lb_choice bal Tb flow") (auto simp: lb_request_spec_def)
  then show "unat (lbb_nic backend) < n" "length (lbb_mac backend) = 6"
    using lb_backend_load(2) [OF ok] lb_okD(10) [OF ok] assms(3,4) by auto
qed

lemma lb_process_correct:
  assumes rep: "lb_rep n Tf Tb t bal" and time: "0 \<le> now" "t \<le> now" and mbuf: "mbuf_ok mbuf" "unat (mbuf_port mbuf) < n"
    and cfg: "lb_config_ok config n" and junk: "length (lbb_mac junk) = 6"
    and Tf1: "Tf1 = expire_flows Tf (lb_last now (lb_flow_expiration_time bal))"
    and Tb1: "Tb1 = expire_flows Tb (lb_last now (lb_backend_expiration_time bal))"
    and alive: "\<forall>i. find_flow Tf1 (lb_key (lb_flow_of (mbuf_data mbuf))) = Some i \<longrightarrow> lb_active Tb1 (lb_backend_of bal i)"
  shows "\<exists>out bal' d' Tf' Tb'. lb_core_process config junk bal mbuf now = Some (out, bal', mbuf\<lparr>mbuf_data := d'\<rparr>) \<and>
    lb_rep n Tf' Tb' now bal' \<and> lb_step_spec config junk bal Tf1 Tb1 mbuf now out bal' d' Tf' Tb'"
proof -
  let ?d = "mbuf_data mbuf" and ?flow = "lb_flow_of (mbuf_data mbuf)"
  obtain bal1 bal2 where e: "lb_expire_flows bal now = Some bal1" "lb_expire_backends bal1 now = Some bal2"
    and same: "lb_same_data bal bal2" and rep2: "lb_rep n Tf1 Tb1 t bal2"
    using lb_expiries [OF rep time(1)] unfolding Tf1 Tb1 by blast
  note sd = lb_same_dataD [OF same] and ss = lb_same_data_spec [OF same]
  have len: "54 \<le> length ?d" using mbuf(1) by (simp add: mbuf_ok_def)
  have l4: "l4_off ?d + 3 < length ?d" using l4_off_le [of ?d] len by linarith
  show ?thesis
  proof (cases "is_ipv4 ?d \<and> is_tcpudp ?d")
    case False
    then have "lb_core_process config junk bal mbuf now = Some (uint (mbuf_port mbuf), bal2, mbuf)"
      using e parsed_headers [OF mbuf(1)] by (auto simp: lb_core_process_def Let_def)
    then show ?thesis
      using False lb_rep_later [OF rep2 time(2)]
      by (intro exI [of _ "uint (mbuf_port mbuf)"] exI [of _ bal2] exI [of _ ?d] exI [of _ Tf1] exI [of _ Tb1])
        (simp add: lb_step_spec_def)
  next
    case parsed: True
    show ?thesis
    proof (cases "mbuf_port mbuf = 0")
      case False
      have "n \<le> 2 ^ 16" using cfg by (simp add: lb_config_ok_def)
      moreover have "uint (mbuf_port mbuf) < int n" using mbuf(2) by (metis of_nat_less_iff of_nat_unat)
      ultimately obtain bal' Tb' where h: "lb_process_heartbit bal2 ?flow (take 6 (drop 6 ?d)) (uint (mbuf_port mbuf)) now = Some bal'"
        "lb_rep n Tf1 Tb' now bal'"
        "lb_heartbeat_spec bal2 Tb1 \<lparr>lbb_nic = mbuf_port mbuf, lbb_mac = take 6 (drop 6 ?d), lbb_ip = get32 ?d 26\<rparr> now bal' Tb'"
        using lb_heartbeat [OF rep2 time(2), of "uint (mbuf_port mbuf)" "take 6 (drop 6 ?d)" ?flow] len
        by (auto simp: lb_flow_of_def)
      have "lb_core_process config junk bal mbuf now = Some (uint (mbuf_port mbuf), bal', mbuf)"
        using e parsed_headers [OF mbuf(1)] parsed False h(1) len l4
        by (simp add: lb_core_process_def Let_def layout pkt ld_bytes_def nf_get_mbuf_ether_header_def lb_flow_of_def
            uint_0_iff add.commute)
      then show ?thesis
        using h(2,3) parsed False ss
        by (intro exI [of _ "uint (mbuf_port mbuf)"] exI [of _ bal'] exI [of _ ?d] exI [of _ Tf1] exI [of _ Tb'])
          (simp add: lb_step_spec_def)
    next
      case True
      obtain backend bal' Tf' where g: "lb_get_backend junk bal2 ?flow now = Some (backend, bal')" "lb_rep n Tf' Tb1 now bal'"
        "lb_request_spec bal2 Tf1 Tb1 ?flow now junk backend bal' Tf'"
        using lb_request_new [OF rep2 time(2)] lb_request_known [OF rep2 time(2)] alive sd
        by (cases "find_flow Tf1 (lb_key ?flow)") (metis, metis)
      have n: "0 < n" using cfg by (simp add: lb_config_ok_def)
      note bk = lb_known_backend_ok [OF rep2 g(3) junk n]
      let ?s = "lbc_device_macs config ! unat (lbb_nic backend)"
      have s: "length ?s = 6" "rd (lbc_device_macs config) (uint (lbb_nic backend)) = Some ?s"
        using bk(1) cfg rd_mac [of "lbb_nic backend" "lbc_device_macs config"] by (auto simp: lb_config_ok_def)
      let ?d' = "put_bytes (put_bytes (put32 ?d 30 (lbb_ip backend)) 6 ?s) 0 (lbb_mac backend)"
      have "lb_core_process config junk bal mbuf now = Some (uint (lbb_nic backend), bal', mbuf\<lparr>mbuf_data := ?d'\<rparr>)"
        using e parsed_headers [OF mbuf(1)] parsed True g(1) len l4 s bk(2)
        by (simp add: lb_core_process_def Let_def layout pkt st_bytes_def nf_get_mbuf_ether_header_def lb_flow_of_def add.commute)
      moreover have "lb_sent config backend ?d ?d'" by (rule lb_rewrite [OF len s(1) bk(2) refl])
      ultimately show ?thesis
        using g(2,3) parsed True ss
        by (intro exI [of _ "uint (lbb_nic backend)"] exI [of _ bal'] exI [of _ ?d'] exI [of _ Tf'] exI [of _ Tb1])
          (auto simp: lb_step_spec_def Let_def)
    qed
  qed
qed

section \<open>Allocation\<close>

lemma cht_fits_lt: "cht_fits h c \<Longrightarrow> 0 < c \<Longrightarrow> h < 2 ^ 31"
  using cht_fits_height [of h c] by simp

lemma lb_fill_cht_success:
  assumes "lb_fill_cht junk cht (int h) (int c) hp = Some (cht', hp')" "0 < c" "cht_fits h c" "vector_inv cht"
    "v_capacity cht = int (h * c)" "heap_ok hp"
  shows "prime_height (int h) \<and> cht_filled h c cht' \<and> heap_ok hp'"
proof -
  have "2 \<le> int h" using assms(2,3) by (simp add: cht_fits_def)
  then have p: "prime_height (int h)" using lb_fill_cht_composite [OF _ cht_fits_height [OF assms(3,2)]] assms(1) by force
  obtain b hp1 where "malloc hp = (Some b, hp1)"
    using assms(1) by (cases "malloc hp"; cases "fst (malloc hp)") (auto simp: lb_fill_cht_def bind_eq_Some_conv)
  from lb_fill_cht_prime [OF p assms(2-5) this assms(6), of junk] show ?thesis using p assms(1) by auto
qed

lemma lb_allocate_steps:
  assumes "lb_allocate_balancer memf memi memb flow_capacity backend_capacity cht_height bexp fexp h = Some (Some bal, h')"
  obtains b h0 r1 fm h1 r2 fh h2 r3 ids h3 r4 fc h4 r5 ips h5 r6 bs h6 r7 bm h7 r8 bc h8 r9 cht h9 cht' where
    "malloc h = (Some b, h0)"
    "map_allocate (\<lambda>a b. lb_flow_equality (lb_flow_of_key a) (lb_flow_of_key b)) (\<lambda>a. lb_flow_hash (lb_flow_of_key a))
      (sint flow_capacity) None (u_ints memf) (u_ptrs memf) h0 = Some (r1, fm, h1)" "r1 \<noteq> 0"
    "vector_allocate sizeof_LoadBalancedFlow (uint flow_capacity) lb_flow_init None (u_addr memf) (u_elems memf) h1 = Some (r2, fh, h2)" "r2 \<noteq> 0"
    "vector_allocate 4 (uint flow_capacity) null_init None (u_addr memi) (u_elems memi) h2 = Some (r3, ids, h3)" "r3 \<noteq> 0"
    "dchain_allocate (sint flow_capacity) None (u_cells memf) (u_times memf) h3 = Some (r4, fc, h4)" "r4 \<noteq> 0"
    "vector_allocate 4 (uint backend_capacity) null_init None (u_addr memi) (u_elems memi) h4 = Some (r5, ips, h5)" "r5 \<noteq> 0"
    "vector_allocate sizeof_LoadBalancedBackend (uint backend_capacity) lb_backend_init None (u_addr memb) (u_elems memb) h5 = Some (r6, bs, h6)" "r6 \<noteq> 0"
    "map_allocate lb_ip_equality lb_ip_hash (sint backend_capacity) None (u_ints memi) (u_ptrs memi) h6 = Some (r7, bm, h7)" "r7 \<noteq> 0"
    "dchain_allocate (sint backend_capacity) None (u_cells memi) (u_times memi) h7 = Some (r8, bc, h8)" "r8 \<noteq> 0"
    "vector_allocate 4 (uint (cht_height * backend_capacity)) null_init None (u_addr memi) (u_elems memi) h8 = Some (r9, cht, h9)" "r9 \<noteq> 0"
    "lb_fill_cht (u_ints memf) (the cht) (sint cht_height) (sint backend_capacity) h9 = Some (cht', h')"
    "bal = \<lparr>lb_flow_capacity = flow_capacity, lb_flow_expiration_time = fexp,
             lb_flow_to_flow_id = the fm, lb_flow_heap = the fh, lb_flow_chain = the fc, lb_flow_id_to_backend_id = the ids,
             lb_cht_height = cht_height, lb_backend_expiration_time = bexp,
             lb_backend_capacity = backend_capacity, lb_backend_ips = the ips,
             lb_backends = the bs, lb_ip_to_backend_id = the bm, lb_active_backends = the bc, lb_cht = cht'\<rparr>"
  using assms
  by (auto simp: lb_allocate_balancer_def lb_allocate_err_def bind_eq_Some_conv Let_def split: prod.splits option.splits if_splits)

text \<open>
  The sizes for which the allocation is sound: no size of a block overflows, both maps have a capacity they
  support, and there are at least as many indexes for flows as for backends, because a request of a known
  flow passes the index of its backend to the allocator of flow indexes.
\<close>

definition lb_sizes_ok :: "u32 \<Rightarrow> u32 \<Rightarrow> u32 \<Rightarrow> bool" where
  "lb_sizes_ok flow_capacity backend_capacity cht_height \<longleftrightarrow>
     capacity_ok (unat flow_capacity) \<and> capacity_ok (unat backend_capacity) \<and>
     unat backend_capacity \<le> unat flow_capacity \<and> 16 * unat flow_capacity < 2 ^ 32 \<and> 12 * unat backend_capacity < 2 ^ 32 \<and>
     cht_fits (unat cht_height) (unat backend_capacity) \<and> 4 * (unat cht_height * unat backend_capacity) < 2 ^ 32"

lemma vector_allocated_init:
  assumes "heap_ok h" "0 < elem_size" "elem_size * int n < 2 ^ 32"
    "vector_allocate elem_size (int n) init None addr junk h = Some (r, fv, h')" "r \<noteq> 0"
  shows "\<exists>v. fv = Some v \<and> heap_ok h' \<and> vector_inv v \<and> v_capacity v = int n \<and> (\<forall>e \<in> set (v_elems v). e \<in> range init)"
  using vector_allocate_spec [OF assms(1-3), of init None addr junk] assms(4,5)
  by (auto simp: vector_allocated_def)

lemma small_product:
  assumes "a * n < (2 ^ 32 :: nat)" "b \<le> a"
  shows "int b * int n < 2 ^ 32"
proof -
  have "b * n < 2 ^ 32" using order_le_less_trans [OF mult_le_mono1 [OF assms(2)] assms(1)] .
  then have "int (b * n) < int (2 ^ 32)" by (simp only: of_nat_less_iff)
  then show ?thesis by simp
qed

lemma lb_allocate_rep:
  assumes al: "lb_allocate_balancer memf memi memb flow_capacity backend_capacity cht_height bexp fexp h = Some (Some bal, h')"
    and h: "heap_ok h" and sizes: "lb_sizes_ok flow_capacity backend_capacity cht_height" and n: "0 < n"
  shows "lb_rep n [] [] 0 bal \<and> heap_ok h' \<and> v_capacity (lb_flow_heap bal) = int (unat flow_capacity)"
proof -
  let ?f = "unat flow_capacity" and ?c = "unat backend_capacity" and ?h = "unat cht_height"
  have cap: "capacity_ok ?f" "capacity_ok ?c" and pos: "0 < ?f" "0 < ?c"
    and le: "?c \<le> ?f" and small: "16 * ?f < 2 ^ 32" "12 * ?c < 2 ^ 32" and fits: "cht_fits ?h ?c" and area: "4 * (?h * ?c) < 2 ^ 32"
    using sizes by (auto simp: lb_sizes_ok_def capacity_ok_def)
  have hlt: "?h < 2 ^ 31" by (rule cht_fits_lt [OF fits pos(2)])
  have sm: "16 * int ?f < 2 ^ 32" "4 * int ?f < 2 ^ 32" "12 * int ?c < 2 ^ 32" "4 * int ?c < 2 ^ 32" "4 * int (?h * ?c) < 2 ^ 32"
    using small_product [OF small(1), of 16] small_product [OF small(1), of 4] small_product [OF small(2), of 12]
      small_product [OF small(2), of 4] small_product [OF area, of 4] by simp_all
  have u: "uint flow_capacity = int ?f" "uint backend_capacity = int ?c" by simp_all
  have s: "sint flow_capacity = int ?f" "sint backend_capacity = int ?c" "sint cht_height = int ?h"
    by (rule uint_of_u32_small [OF refl]; use small hlt in simp)+
  have prod: "uint (cht_height * backend_capacity) = int (?h * ?c)"
  proof -
    have "unat (cht_height * backend_capacity) = ?h * ?c"
      using area mod_less [of "?h * ?c" "2 ^ 32"] by (simp add: unat_word_ariths mult.commute)
    then show ?thesis by (metis of_nat_unat)
  qed
  obtain b h0 r1 fm h1 r2 fh h2 r3 ids h3 r4 fc h4 r5 ips h5 r6 bs h6 r7 bm h7 r8 bc h8 r9 cht h9 cht' where
    m0: "malloc h = (Some b, h0)"
    and a1: "map_allocate (\<lambda>a b. lb_flow_equality (lb_flow_of_key a) (lb_flow_of_key b)) (\<lambda>a. lb_flow_hash (lb_flow_of_key a))
      (int ?f) None (u_ints memf) (u_ptrs memf) h0 = Some (r1, fm, h1)" "r1 \<noteq> 0"
    and a2: "vector_allocate sizeof_LoadBalancedFlow (int ?f) lb_flow_init None (u_addr memf) (u_elems memf) h1 = Some (r2, fh, h2)" "r2 \<noteq> 0"
    and a3: "vector_allocate 4 (int ?f) null_init None (u_addr memi) (u_elems memi) h2 = Some (r3, ids, h3)" "r3 \<noteq> 0"
    and a4: "dchain_allocate (int ?f) None (u_cells memf) (u_times memf) h3 = Some (r4, fc, h4)" "r4 \<noteq> 0"
    and a5: "vector_allocate 4 (int ?c) null_init None (u_addr memi) (u_elems memi) h4 = Some (r5, ips, h5)" "r5 \<noteq> 0"
    and a6: "vector_allocate sizeof_LoadBalancedBackend (int ?c) lb_backend_init None (u_addr memb) (u_elems memb) h5 = Some (r6, bs, h6)" "r6 \<noteq> 0"
    and a7: "map_allocate lb_ip_equality lb_ip_hash (int ?c) None (u_ints memi) (u_ptrs memi) h6 = Some (r7, bm, h7)" "r7 \<noteq> 0"
    and a8: "dchain_allocate (int ?c) None (u_cells memi) (u_times memi) h7 = Some (r8, bc, h8)" "r8 \<noteq> 0"
    and a9: "vector_allocate 4 (int (?h * ?c)) null_init None (u_addr memi) (u_elems memi) h8 = Some (r9, cht, h9)" "r9 \<noteq> 0"
    and fill: "lb_fill_cht (u_ints memf) (the cht) (int ?h) (int ?c) h9 = Some (cht', h')"
    and bal: "bal = \<lparr>lb_flow_capacity = flow_capacity, lb_flow_expiration_time = fexp,
             lb_flow_to_flow_id = the fm, lb_flow_heap = the fh, lb_flow_chain = the fc, lb_flow_id_to_backend_id = the ids,
             lb_cht_height = cht_height, lb_backend_expiration_time = bexp,
             lb_backend_capacity = backend_capacity, lb_backend_ips = the ips,
             lb_backends = the bs, lb_ip_to_backend_id = the bm, lb_active_backends = the bc, lb_cht = cht'\<rparr>"
    by (rule lb_allocate_steps [OF al, unfolded s prod u])
  have ok0: "heap_ok h0" by (rule malloc_Some(3) [OF m0 h])
  obtain fm' where 1: "fm = Some fm'" "heap_ok h1" "\<And>d. map_inv d fm' \<and> map_cap fm' = ?f \<and> map_abs d fm' = Map.empty"
    using map_allocate_success [OF ok0 cap(1) _ a1] by (simp add: lb_flow_equality_iff) (metis option.inject)
  obtain fh' where 2: "fh = Some fh'" "heap_ok h2" "vector_inv fh'" "v_capacity fh' = int ?f"
    using vector_allocate_success [OF 1(2) _ sm(1) a2 [unfolded sizeof_LoadBalancedFlow_def]] by auto
  obtain ids' where 3: "ids = Some ids'" "heap_ok h3" "vector_inv ids'" "v_capacity ids' = int ?f"
    using vector_allocate_success [OF 2(2) _ sm(2) a3] by auto
  obtain fc' where 4: "fc = Some fc'" "heap_ok h4" "double_chainp (empty_dchain_fp (int ?f) 0) fc'"
    using dchain_allocate_success [OF 3(2) pos(1) a4] by blast
  obtain ips' where 5: "ips = Some ips'" "heap_ok h5" "vector_inv ips'" "v_capacity ips' = int ?c"
    using vector_allocate_success [OF 4(2) _ sm(4) a5] by auto
  obtain bs' where 6: "bs = Some bs'" "heap_ok h6" "vector_inv bs'" "v_capacity bs' = int ?c"
    "\<forall>e \<in> set (v_elems bs'). e \<in> range lb_backend_init"
    using vector_allocated_init [OF 5(2) _ sm(3) a6 [unfolded sizeof_LoadBalancedBackend_def]] by auto
  obtain bm' where 7: "bm = Some bm'" "heap_ok h7" "\<And>d. map_inv d bm' \<and> map_cap bm' = ?c \<and> map_abs d bm' = Map.empty"
    using map_allocate_success [OF 6(2) cap(2) _ a7] by (simp add: lb_ip_equality_def) (metis option.inject)
  obtain bc' where 8: "bc = Some bc'" "heap_ok h8" "double_chainp (empty_dchain_fp (int ?c) 0) bc'"
    using dchain_allocate_success [OF 7(2) pos(2) a8] by blast
  obtain cv where 9: "cht = Some cv" "heap_ok h9" "vector_inv cv" "v_capacity cv = int (?h * ?c)"
    using vector_allocate_success [OF 8(2) _ sm(5) a9] by auto
  have filled: "prime_height (int ?h) \<and> cht_filled ?h ?c cht' \<and> heap_ok h'"
    using lb_fill_cht_success [OF fill pos(2) fits _ _ 9(2)] 9 by simp
  have "uint backend_capacity \<le> uint flow_capacity" using le u by linarith
  then have "lb_ok n bal"
    using filled fits pos 2 3 5 6 n by (auto simp: lb_ok_def Let_def bal lb_backend_init_def)
  moreover have "lb_flows_rep [] 0 bal"
    using flow_rep_empty [of lb_key fh' fm' ?f fc'] 1 2 4 by (simp add: lb_flows_rep_def bal)
  moreover have "lb_backends_rep [] 0 bal"
    using flow_rep_empty [of "\<lambda>k. k" ips' bm' ?c bc'] 5 7 8 by (simp add: lb_backends_rep_def bal)
  ultimately show ?thesis using filled 2 by (simp add: lb_rep_def bal)
qed

section \<open>An example\<close>

definition example_lb_config :: lb_config where
  "example_lb_config = \<lparr>lbc_backend_count = 1, lbc_device_macs = [[1, 1, 1, 1, 1, 1], [2, 2, 2, 2, 2, 2]],
     lbc_flow_capacity = 2, lbc_flow_expiration_time = 10, lbc_backend_capacity = 2, lbc_cht_height = 3,
     lbc_backend_expiration_time = 10\<rparr>"

definition example_lb_flow :: "u16 \<Rightarrow> LoadBalancedFlow" where
  "example_lb_flow p = \<lparr>lbf_src_ip = 7, lbf_dst_ip = 0, lbf_src_port = p, lbf_dst_port = 80, lbf_protocol = 6\<rparr>"

definition example_lb_backend :: LoadBalancedBackend where
  "example_lb_backend = \<lparr>lbb_nic = 9, lbb_mac = [9, 9, 9, 9, 9, 9], lbb_ip = 9\<rparr>"

definition example_uninit :: "'e \<Rightarrow> 'e uninit" where
  "example_uninit e = \<lparr>u_ints = \<lambda>_ _. 5, u_ptrs = \<lambda>_ _. At 0, u_cells = \<lambda>_ _. \<lparr>cell_prev = 0, cell_next = 0\<rparr>,
     u_times = \<lambda>_ _. 0, u_addr = \<lambda>b. 4096 * int b, u_elems = \<lambda>_ _. e\<rparr>"

definition example_lb_init :: "bool list \<Rightarrow> (LoadBalancer option \<times> heap) option" where
  "example_lb_init memory = lb_core_init (example_uninit (example_lb_flow 1)) (example_uninit 1) (example_uninit example_lb_backend)
     example_lb_config \<lparr>outcomes = memory, live = [], fresh = 0\<rparr>"

definition lb_started :: "(LoadBalancer option \<times> heap) option \<Rightarrow> bool" where
  "lb_started r = (case r of Some (Some bal, h) \<Rightarrow> True | _ \<Rightarrow> False)"

text \<open>The balancer started with enough memory, after a heartbeat on device 1.\<close>

definition example_lb_one :: "LoadBalancer option" where
  "example_lb_one =
     (case example_lb_init (replicate 30 True) of
        Some (Some bal, h) \<Rightarrow> lb_process_heartbit bal (example_lb_flow 1) [3, 3, 3, 3, 3, 3] 1 0
      | _ \<Rightarrow> None)"

lemma example_lb_started: "lb_started (example_lb_init (replicate 30 True))"
  by code_simp

lemma example_lb_index: "(case example_lb_one of Some bal \<Rightarrow> dchain_is_index_allocated (lb_active_backends bal) 0 | None \<Rightarrow> None) = Some True"
  by code_simp

lemma example_lb_sizes: "lb_sizes_ok 2 2 3"
  by (auto simp: lb_sizes_ok_def capacity_ok_def cht_fits_def intro: exI [of _ 1])

lemma lb_constants:
  assumes "lb_allocate_balancer memf memi memb fcap bcap ht bexp fexp h = Some (Some bal, h')"
    "heap_ok h" "lb_sizes_ok fcap bcap ht"
  shows "lb_backend_capacity bal = bcap" "lb_cht_height bal = ht" "lb_flow_expiration_time bal = fexp"
    "lb_backend_expiration_time bal = bexp"
  by (rule lb_allocate_steps [OF assms(1)], simp)+

lemma lb_heartbit_constants:
  assumes "lb_process_heartbit bal flow mac nic now = Some bal'"
  shows "lb_backend_capacity bal' = lb_backend_capacity bal" "lb_cht_height bal' = lb_cht_height bal"
    "lb_flow_heap bal' = lb_flow_heap bal" "lb_flow_expiration_time bal' = lb_flow_expiration_time bal"
    "lb_backend_expiration_time bal' = lb_backend_expiration_time bal"
  using assms by (auto simp: lb_process_heartbit_def bind_eq_Some_conv Let_def split: if_splits)

lemma example_lb_empty:
  obtains bal h where "example_lb_init (replicate 30 True) = Some (Some bal, h)" "lb_rep 2 [] [] 0 bal"
    "lb_backend_capacity bal = 2" "lb_cht_height bal = 3" "v_capacity (lb_flow_heap bal) = 2"
    "lb_flow_expiration_time bal = 10" "lb_backend_expiration_time bal = 10"
proof -
  obtain bal h where i: "example_lb_init (replicate 30 True) = Some (Some bal, h)"
    using example_lb_started by (auto simp: lb_started_def split: option.splits prod.splits)
  have ok: "heap_ok \<lparr>outcomes = replicate 30 True, live = [], fresh = 0\<rparr>" by (simp add: heap_ok_def)
  note a = i [unfolded example_lb_init_def lb_core_init_def example_lb_config_def lb_config.simps]
  show thesis
    using that [OF i] lb_allocate_rep [OF a ok example_lb_sizes, of 2] lb_constants [OF a ok example_lb_sizes] by simp
qed

text \<open>One backend, at index 0.\<close>

lemma example_lb_backend_at_0:
  obtains bal where "example_lb_one = Some bal" "lb_rep 2 [] [(7, 0, 0)] 0 bal"
    "lb_backend_capacity bal = 2" "lb_cht_height bal = 3" "v_capacity (lb_flow_heap bal) = 2"
    "lb_flow_expiration_time bal = 10" "lb_backend_expiration_time bal = 10"
proof -
  obtain bal0 h where b: "example_lb_init (replicate 30 True) = Some (Some bal0, h)" "lb_rep 2 [] [] 0 bal0"
    and c: "lb_backend_capacity bal0 = 2" "lb_cht_height bal0 = 3" "v_capacity (lb_flow_heap bal0) = 2"
      "lb_flow_expiration_time bal0 = 10" "lb_backend_expiration_time bal0 = 10"
    by (rule example_lb_empty)
  obtain bal Tb where h: "lb_process_heartbit bal0 (example_lb_flow 1) [3, 3, 3, 3, 3, 3] 1 0 = Some bal" "lb_rep 2 [] Tb 0 bal"
    "lb_heartbeat_spec bal0 [] \<lparr>lbb_nic = 1, lbb_mac = [3, 3, 3, 3, 3, 3], lbb_ip = 7\<rparr> 0 bal Tb"
    using lb_heartbeat [OF b(2), of 0 1 "[3, 3, 3, 3, 3, 3]" "example_lb_flow 1"] by (auto simp: example_lb_flow_def)
  note k = lb_heartbit_constants [OF h(1)]
  have "v_capacity (lb_backend_ips bal0) = 2"
    using b(2) c lb_okD(9) [of 2 bal0] by (simp add: lb_rep_def)
  then obtain b' where Tb: "Tb = [(7, int b', 0)]"
    using h(3) by (auto simp: lb_heartbeat_spec_def find_flow_def add_flow_def)
  have one: "example_lb_one = Some bal" using b(1) h(1) by (simp add: example_lb_one_def)
  have "lb_active Tb 0"
    using example_lb_index [unfolded one] lb_is_active [of 2 bal Tb 0 0] h(2) k(1) c(1) by (simp add: lb_rep_def)
  then have "Tb = [(7, 0, 0)]" by (simp add: Tb lb_active_def)
  then show thesis using that [OF one] h(2) k c by simp
qed

lemma preference_3_2: "preference 3 2 0 = [0, 1]" "preference 3 2 1 = [1, 0]" "preference 3 2 2 = [0, 1]"
  by code_simp+

lemma window_3_2:
  "lb_window 3 2 n = (if n mod 3 = 0 then [0, 1] else if n mod 3 = 1 then [1, 1] else [1, 0])"
proof -
  have "n mod 3 = 0 \<or> n mod 3 = 1 \<or> n mod 3 = 2" by linarith
  moreover have "(n + 1) mod 3 = (n mod 3 + 1) mod 3" by (simp add: mod_Suc_eq)
  ultimately show ?thesis
    by (auto simp: lb_window_def preference_table_def preference_3_2 preference_3_2(2) [simplified] upt_rec nth_Cons' mod_Suc)
qed

lemma example_lb_hash:
  "lb_flow_hash (example_lb_flow 0) mod 3 = 1" "lb_flow_hash (example_lb_flow 1) mod 3 = 0" "lb_flow_hash (example_lb_flow 2) mod 3 = 2"
  by code_simp+

lemma example_lb_key: "lb_key (example_lb_flow p) = (7, p, 80, 6)"
  by (simp add: lb_key_def example_lb_flow_def)


section \<open>Properties\<close>

text \<open>
  Starting with sizes for which no product overflows, if \<open>nf_core_init\<close> gets its memory, then the height
  of the consistent hashing table is prime, both tables are empty and all containers are coherent.
\<close>

lemma lb_core_init_establishes:
  assumes "lb_core_init memf memi memb config h = Some (Some bal, h')" "heap_ok h"
    "lb_sizes_ok (lbc_flow_capacity config) (lbc_backend_capacity config) (lbc_cht_height config)" "0 < n"
  shows "lb_rep n [] [] 0 bal \<and> prime_height (uint (lbc_cht_height config)) \<and> heap_ok h'"
proof -
  note a = assms(1) [unfolded lb_core_init_def]
  have r: "lb_rep n [] [] 0 bal" "heap_ok h'" using lb_allocate_rep [OF a assms(2-4)] by simp_all
  then have "prime_height (int (unat (lb_cht_height bal)))" using lb_okD(3) by (auto simp: lb_rep_def)
  then show ?thesis using r lb_constants(2) [OF a assms(2,3)] by simp
qed

text \<open>
  C21. \<open>nf_core_process\<close>, on a packet whose flow is not assigned to a backend that is gone, returns and does
  what the two tables say, after their expiry: a heartbeat enters or refreshes its backend, a request is sent
  to the backend of its flow or to the active backend chosen for it, rewritten in the destination address
  and the Ethernet addresses only, and every other packet is dropped.
\<close>

theorem lb_core_process_refines:
  assumes "lb_rep n Tf Tb t bal" "0 \<le> now" "t \<le> now" "mbuf_ok mbuf" "unat (mbuf_port mbuf) < n"
    "lb_config_ok config n" "length (lbb_mac junk) = 6"
    "\<forall>i. find_flow (expire_flows Tf (lb_last now (lb_flow_expiration_time bal))) (lb_key (lb_flow_of (mbuf_data mbuf))) = Some i \<longrightarrow>
      lb_active (expire_flows Tb (lb_last now (lb_backend_expiration_time bal))) (lb_backend_of bal i)"
  shows "\<exists>out bal' d' Tf' Tb'. lb_core_process config junk bal mbuf now = Some (out, bal', mbuf\<lparr>mbuf_data := d'\<rparr>) \<and>
    lb_rep n Tf' Tb' now bal' \<and>
    lb_step_spec config junk bal (expire_flows Tf (lb_last now (lb_flow_expiration_time bal)))
      (expire_flows Tb (lb_last now (lb_backend_expiration_time bal))) mbuf now out bal' d' Tf' Tb'"
  by (rule lb_process_correct [OF assms(1-7) refl refl assms(8)])

theorem lb_core_process_refines_witness:
  "\<exists>bal h out bal' d'. example_lb_init (replicate 30 True) = Some (Some bal, h) \<and>
     lb_core_process example_lb_config example_lb_backend bal (example_tcp 0 80) 5 = Some (out, bal', (example_tcp 0 80)\<lparr>mbuf_data := d'\<rparr>) \<and>
     out = 0"
proof -
  obtain bal h where i: "example_lb_init (replicate 30 True) = Some (Some bal, h)" "lb_rep 2 [] [] 0 bal"
    "lb_backend_capacity bal = 2" "v_capacity (lb_flow_heap bal) = 2"
    by (rule example_lb_empty)
  have c: "lb_config_ok example_lb_config 2" by (simp add: lb_config_ok_def example_lb_config_def)
  have "\<exists>out bal' d' Tf' Tb'. lb_core_process example_lb_config example_lb_backend bal (example_tcp 0 80) 5
      = Some (out, bal', (example_tcp 0 80)\<lparr>mbuf_data := d'\<rparr>) \<and> lb_rep 2 Tf' Tb' 5 bal' \<and>
    lb_step_spec example_lb_config example_lb_backend bal (expire_flows [] (lb_last 5 (lb_flow_expiration_time bal)))
      (expire_flows [] (lb_last 5 (lb_backend_expiration_time bal))) (example_tcp 0 80) 5 out bal' d' Tf' Tb'"
    by (rule lb_core_process_refines [OF i(2) _ _ example_tcp_ok(1) _ c])
      (use i(3,4) in \<open>simp_all add: example_tcp_ok example_lb_backend_def find_flow_def expire_flows_def\<close>)
  then obtain out bal' d' Tf' Tb' where o: "lb_core_process example_lb_config example_lb_backend bal (example_tcp 0 80) 5
      = Some (out, bal', (example_tcp 0 80)\<lparr>mbuf_data := d'\<rparr>)"
    "lb_step_spec example_lb_config example_lb_backend bal [] [] (example_tcp 0 80) 5 out bal' d' Tf' Tb'"
    by (auto simp: expire_flows_def)
  have "lb_choice bal [] flow = None" for flow by (simp add: lb_choice_def lb_active_def find_None_iff)
  then have "out = 0" using o(2) example_tcp_ok by (auto simp: lb_step_spec_def Let_def lb_request_spec_def find_flow_def)
  then show ?thesis using i(1) o(1) by blast
qed

text \<open>
  A request returns, in every coherent state: the recursive call after the erasure of a flow whose backend
  is gone happens at most once. The device of the result exists, and the backends are untouched.
\<close>

lemma lb_get_backend_returns:
  assumes "lb_rep n Tf Tb t bal" "t \<le> now" "0 < n" "length (lbb_mac junk) = 6"
  shows "\<exists>backend bal'. lb_get_backend junk bal flow now = Some (backend, bal') \<and>
    unat (lbb_nic backend) < n \<and> length (lbb_mac backend) = 6 \<and> lb_ok n bal' \<and> lb_backends_rep Tb now bal'"
proof -
  have ok: "lb_ok n bal" using assms(1) by (simp add: lb_rep_def)
  have good: "unat (lbb_nic (lb_backend_at bal b)) < n \<and> length (lbb_mac (lb_backend_at bal b)) = 6"
    if "b < unat (lb_backend_capacity bal)" for b
    using lb_backend_load(2) [OF ok that] lb_okD(10) [OF ok] by blast
  have coherent: ?thesis
    if r: "\<exists>backend bal' Tf'. lb_get_backend junk bal flow now = Some (backend, bal') \<and> lb_rep n Tf' Tb now bal' \<and>
      lb_request_spec bal Tf Tb flow now junk backend bal' Tf'"
    using r lb_known_backend_ok [OF assms(1) _ assms(4,3)] unfolding lb_rep_def by blast
  show ?thesis
  proof (cases "find_flow Tf (lb_key flow)")
    case None
    then show ?thesis by (intro coherent lb_request_new [OF assms(1,2)])
  next
    case (Some i)
    show ?thesis
    proof (cases "lb_active Tb (lb_backend_of bal i)")
      case True
      then show ?thesis by (intro coherent lb_request_known [OF assms(1,2) Some])
    next
      case False
      obtain bal' where d: "lb_get_backend junk bal flow now =
          Some (case lb_choice bal Tb flow of None \<Rightarrow> junk\<lparr>lbb_nic := 0\<rparr> | Some b \<Rightarrow> lb_backend_at bal b, bal')"
        "lb_ok n bal'" "lb_backends_rep Tb now bal'"
        using lb_request_dead [OF assms(1,2) Some False] by blast
      then show ?thesis
        using assms(3,4) good lb_choice_bound(1) [OF ok] by (cases "lb_choice bal Tb flow") auto
    qed
  qed
qed


lemma example_lb_choice:
  assumes "lb_backend_capacity bal = 2" "lb_cht_height bal = 3" "p = 1 \<or> p = 2"
  shows "lb_choice bal [(7, 0, u)] (example_lb_flow p) = Some 0"
proof -
  have "nat (lb_flow_hash (example_lb_flow p)) mod 3 = nat (lb_flow_hash (example_lb_flow p) mod 3)"
    using lb_flow_hash_range [of "example_lb_flow p"] by (auto simp: nat_mod_distrib)
  then have "nat (lb_flow_hash (example_lb_flow p)) mod 3 \<noteq> 1" using assms(3) example_lb_hash by auto
  then show ?thesis using assms(1,2) by (auto simp: lb_choice_def window_3_2 lb_active_def)
qed


text \<open>
  C38. A request of a known flow does not refresh the flow: the allocator of flow indexes is given the index of
  the backend. Unless the two indexes happen to agree, the flow keeps its old time and expires as if the request
  had not been made.
\<close>

theorem lb_known_flow_not_refreshed:
  assumes rep: "lb_rep n Tf Tb t bal" and time: "t \<le> now" and old: "(lb_key flow, i, u) \<in> set Tf"
    and alive: "lb_active Tb (lb_backend_of bal i)" and other: "int (lb_backend_of bal i) \<noteq> i"
  shows "\<exists>bal' Tf'. lb_get_backend junk bal flow now = Some (lb_backend_at bal (lb_backend_of bal i), bal') \<and>
    lb_rep n Tf' Tb now bal' \<and> (lb_key flow, i, u) \<in> set Tf' \<and>
    (\<forall>time > u. find_flow (expire_flows Tf' time) (lb_key flow) = None)"
proof -
  have r: "flow_rep_via lb_key Tf t (lb_flow_to_flow_id bal) (lb_flow_heap bal) (lb_flow_chain bal)"
    using rep by (simp add: lb_rep_def lb_flows_rep_def)
  have find: "find_flow Tf (lb_key flow) = Some i" using find_flow_Some [OF flow_rep_wf [OF r]] old by blast
  obtain backend bal' Tf' where g: "lb_get_backend junk bal flow now = Some (backend, bal')" "lb_rep n Tf' Tb now bal'"
    "lb_request_spec bal Tf Tb flow now junk backend bal' Tf'"
    using lb_request_known [OF rep time find alive] by blast
  have Tf': "Tf' = touch_flow Tf (int (lb_backend_of bal i)) now" "backend = lb_backend_at bal (lb_backend_of bal i)"
    using g(3) find by (simp_all add: lb_request_spec_def)
  have mem: "(lb_key flow, i, u) \<in> set Tf'" using old other by (simp add: Tf'(1) touch_flow_member)
  have "flow_rep_via lb_key Tf' now (lb_flow_to_flow_id bal') (lb_flow_heap bal') (lb_flow_chain bal')"
    using g(2) by (simp add: lb_rep_def lb_flows_rep_def)
  then have "distinct (map fst Tf')" using flow_rep_wf by (fastforce simp: flows_wf_def)
  then have only: "j = i \<and> u' = u" if "(lb_key flow, j, u') \<in> set Tf'" for j u'
    using that mem by (metis Pair_inject eq_key_imp_eq_value)
  have "find_flow (expire_flows Tf' time) (lb_key flow) = None" if "u < time" for time
    using that only by (auto simp: find_flow_None expire_flows_member)
  then show ?thesis using g(1,2) Tf'(2) mem by blast
qed

text \<open>Two flows of the only backend: at least one of them does not have the index of the backend.\<close>

lemma example_lb_two_flows:
  obtains bal Tf p i where "lb_rep 2 Tf [(7, 0, 0)] 2 bal" "(lb_key (example_lb_flow p), i, int (unat p)) \<in> set Tf"
    "p = 1 \<or> p = 2" "i \<noteq> 0" "lb_backend_of bal i = 0"
    "lb_flow_expiration_time bal = 10" "lb_backend_expiration_time bal = 10"
proof -
  let ?Tb = "[(7 :: u32, 0, 0)]" and ?f = example_lb_flow
  obtain bal where b: "lb_rep 2 [] ?Tb 0 bal" "lb_backend_capacity bal = 2" "lb_cht_height bal = 3"
    "v_capacity (lb_flow_heap bal) = 2"
    "lb_flow_expiration_time bal = 10" "lb_backend_expiration_time bal = 10"
    by (rule example_lb_backend_at_0)
  obtain x bal1 Tf1 where 1: "lb_get_backend example_lb_backend bal (?f 1) 1 = Some (x, bal1)" "lb_rep 2 Tf1 ?Tb 1 bal1"
    "lb_request_spec bal [] ?Tb (?f 1) 1 example_lb_backend x bal1 Tf1"
    using lb_request_new [OF b(1), of 1 "?f 1" example_lb_backend] by (auto simp: find_flow_def)
  obtain i1 where i1: "Tf1 = [(lb_key (?f 1), i1, 1)]" "lb_backend_of bal1 i1 = 0"
    using 1(3) b(4) example_lb_choice [OF b(2,3), of 1] by (auto simp: lb_request_spec_def find_flow_def add_flow_def)
  have c1: "lb_same_sizes bal bal1" using 1(3) by (simp add: lb_request_spec_def)
  have new: "find_flow Tf1 (lb_key (?f 2)) = None" by (simp add: i1(1) find_flow_def example_lb_key)
  obtain y bal2 Tf2 where 2: "lb_rep 2 Tf2 ?Tb 2 bal2" "lb_request_spec bal1 Tf1 ?Tb (?f 2) 2 example_lb_backend y bal2 Tf2"
    using lb_request_new [OF 1(2) _ new, of 2 example_lb_backend] by auto
  obtain i2 where i2: "Tf2 = [(lb_key (?f 1), i1, 1), (lb_key (?f 2), i2, 2)]" "lb_backend_of bal2 i2 = 0" "i2 \<noteq> i1"
    using 2(2) new c1 b(2-4) example_lb_choice [of bal1 2] i1(1) by (auto simp: lb_request_spec_def add_flow_def lb_same_sizes_def)
  have "lb_backend_of bal2 i1 = 0" using 2(2) i1 by (simp add: lb_request_spec_def)
  moreover have "lb_same_sizes bal1 bal2" using 2(2) by (simp add: lb_request_spec_def)
  then have "lb_flow_expiration_time bal2 = 10" "lb_backend_expiration_time bal2 = 10"
    using c1 b(5,6) by (simp_all add: lb_same_sizes_def)
  ultimately show thesis using that [OF 2(1), of 1 i1] that [OF 2(1), of 2 i2] i2 by (cases "i1 = 0") simp_all
qed

theorem lb_known_flow_not_refreshed_witness:
  "\<exists>bal Tf p i bal' Tf'. lb_rep 2 Tf [(7, 0, 0)] 2 bal \<and>
     lb_get_backend example_lb_backend bal (example_lb_flow p) 8 = Some (lb_backend_at bal 0, bal') \<and>
     lb_rep 2 Tf' [(7, 0, 0)] 8 bal' \<and> find_flow Tf (lb_key (example_lb_flow p)) = Some i \<and>
     find_flow (expire_flows Tf' 3) (lb_key (example_lb_flow p)) = None"
proof -
  obtain bal Tf p i where b: "lb_rep 2 Tf [(7, 0, 0)] 2 bal" "(lb_key (example_lb_flow p), i, int (unat p)) \<in> set Tf"
    "p = 1 \<or> p = 2" "i \<noteq> 0" "lb_backend_of bal i = 0"
    by (rule example_lb_two_flows)
  have a: "lb_active [(7, 0, 0)] (lb_backend_of bal i)" using b(5) by (simp add: lb_active_def)
  have o: "int (lb_backend_of bal i) \<noteq> i" using b(4,5) by simp
  obtain bal' Tf' where g: "lb_get_backend example_lb_backend bal (example_lb_flow p) 8 = Some (lb_backend_at bal 0, bal')"
    "lb_rep 2 Tf' [(7, 0, 0)] 8 bal'"
    "\<forall>time > int (unat p). find_flow (expire_flows Tf' time) (lb_key (example_lb_flow p)) = None"
    using lb_known_flow_not_refreshed [OF b(1) _ b(2) a o, of 8 example_lb_backend] b(5) by auto
  have "flow_rep_via lb_key Tf 2 (lb_flow_to_flow_id bal) (lb_flow_heap bal) (lb_flow_chain bal)"
    using b(1) by (simp add: lb_rep_def lb_flows_rep_def)
  from find_flow_Some [OF flow_rep_wf [OF this]] have "find_flow Tf (lb_key (example_lb_flow p)) = Some i" using b(2) by blast
  moreover have "find_flow (expire_flows Tf' 3) (lb_key (example_lb_flow p)) = None" using g(3) b(3) by auto
  ultimately show ?thesis using b(1) g(1,2) by blast
qed

text \<open>
  C39. A request of a flow whose backend is gone is answered with a backend chosen anew, but the index of the flow
  is not returned: it stays allocated with no entry in the map, so that the containers are no longer coherent.
\<close>

theorem lb_dead_backend_leaks_index:
  assumes "lb_rep n Tf Tb t bal" "t \<le> now" "(lb_key flow, i, u) \<in> set Tf" "\<not> lb_active Tb (lb_backend_of bal i)"
  shows "\<exists>bal'. lb_get_backend junk bal flow now =
      Some (case lb_choice bal Tb flow of None \<Rightarrow> junk\<lparr>lbb_nic := 0\<rparr> | Some b \<Rightarrow> lb_backend_at bal b, bal') \<and>
    lb_leaked bal' i \<and> (\<forall>Tf' t'. \<not> lb_flows_rep Tf' t' bal')"
proof -
  have r: "flow_rep_via lb_key Tf t (lb_flow_to_flow_id bal) (lb_flow_heap bal) (lb_flow_chain bal)"
    using assms(1) by (simp add: lb_rep_def lb_flows_rep_def)
  have find: "find_flow Tf (lb_key flow) = Some i" using find_flow_Some [OF flow_rep_wf [OF r]] assms(3) by blast
  obtain bal' where g: "lb_get_backend junk bal flow now =
      Some (case lb_choice bal Tb flow of None \<Rightarrow> junk\<lparr>lbb_nic := 0\<rparr> | Some b \<Rightarrow> lb_backend_at bal b, bal')" "lb_leaked bal' i" "lb_same_sizes bal bal'"
    using lb_request_dead [OF assms(1,2) find assms(4)] by blast
  have "\<not> lb_flows_rep Tf' t' bal'" for Tf' t'
  proof
    assume "lb_flows_rep Tf' t' bal'"
    then obtain ch where ch: "double_chainp ch (lb_flow_chain bal')"
      "map_vec_chain_coherent lb_key (lb_flow_to_flow_id bal') (lb_flow_heap bal') ch"
      by (auto simp: lb_flows_rep_def flow_rep_via_def)
    have range: "0 \<le> i" "i < v_capacity (lb_flow_heap bal')"
      using flows_wfD [OF flow_rep_wf [OF r] assms(3)] g(3) by (simp_all add: lb_same_sizes_def)
    have "i \<in> set (dchain_indexes_fp ch)"
      using g(2) dc.is_allocated [OF ch(1) range(1)] range(2) mvc_coherentD(3) [OF ch(2)] by (simp add: lb_leaked_def)
    then show False using g(2) ch(2) by (auto simp: lb_leaked_def map_vec_chain_coherent_def coherent_over_def slot_def)
  qed
  then show ?thesis using g by blast
qed

theorem lb_dead_backend_leaks_index_witness:
  "\<exists>bal bal' Tf p i. lb_rep 2 Tf [] 2 bal \<and> find_flow Tf (lb_key (example_lb_flow p)) = Some i \<and>
     lb_get_backend example_lb_backend bal (example_lb_flow p) 12 = Some (example_lb_backend\<lparr>lbb_nic := 0\<rparr>, bal') \<and> lb_leaked bal' i"
proof -
  obtain bal Tf p i where b: "lb_rep 2 Tf [(7, 0, 0)] 2 bal" "(lb_key (example_lb_flow p), i, int (unat p)) \<in> set Tf"
    "p = 1 \<or> p = 2" "lb_flow_expiration_time bal = 10" "lb_backend_expiration_time bal = 10"
    by (rule example_lb_two_flows)
  have last: "lb_last 11 10 = 1" by (simp add: lb_last_def)
  have gone: "expire_flows [(7 :: u32, 0, 0)] 1 = []" by (simp add: expire_flows_def)
  obtain bal2 where r: "lb_rep 2 (expire_flows Tf 1) [] 2 bal2"
    using lb_expiries [OF b(1), of 11] unfolding b(4,5) last gone by auto
  have m: "(lb_key (example_lb_flow p), i, int (unat p)) \<in> set (expire_flows Tf 1)"
    using b(2,3) by (auto simp: expire_flows_member)
  have "\<not> lb_active [] (lb_backend_of bal2 i)" by (simp add: lb_active_def)
  have none: "lb_choice bal2 [] (example_lb_flow p) = None" by (simp add: lb_choice_def lb_active_def find_None_iff)
  from lb_dead_backend_leaks_index [OF r _ m \<open>\<not> lb_active [] (lb_backend_of bal2 i)\<close>, of 12 example_lb_backend]
  obtain bal' where g: "lb_get_backend example_lb_backend bal2 (example_lb_flow p) 12 = Some (example_lb_backend\<lparr>lbb_nic := 0\<rparr>, bal')"
    "lb_leaked bal' i"
    by (auto simp: none)
  have "flow_rep_via lb_key (expire_flows Tf 1) 2 (lb_flow_to_flow_id bal2) (lb_flow_heap bal2) (lb_flow_chain bal2)"
    using r by (simp add: lb_rep_def lb_flows_rep_def)
  from find_flow_Some [OF flow_rep_wf [OF this]] have "find_flow (expire_flows Tf 1) (lb_key (example_lb_flow p)) = Some i"
    using m by blast
  then show ?thesis using r g by blast
qed

text \<open>
  The lookup does not read the preference list of the hash: it tries consecutive cells at the start of the
  table. With a table of height 3 for two backends, when only backend 0 is active, a new flow whose hash is 1
  modulo 3 is dropped, although its preference list names backend 0.
\<close>

lemma lb_active_backend_missed:
  assumes rep: "lb_rep n Tf [(ip, 0, u)] t bal" and size: "lb_cht_height bal = 3" "lb_backend_capacity bal = 2"
    and new: "find_flow Tf (lb_key flow) = None" and hash: "lb_flow_hash flow mod 3 = 1"
  shows "lb_get_backend junk bal flow now = Some (junk\<lparr>lbb_nic := 0\<rparr>, bal) \<and>
    cht_row (lb_cht bal) 2 (nat (lb_flow_hash flow mod 3)) = [1, 0] \<and>
    dchain_is_index_allocated (lb_active_backends bal) 0 = Some True"
proof -
  have ok: "lb_ok n bal" and f: "lb_flows_rep Tf t bal" and br: "lb_backends_rep [(ip, 0, u)] t bal"
    using rep by (simp_all add: lb_rep_def)
  have "nat (lb_flow_hash flow) mod 3 = nat (lb_flow_hash flow mod 3)"
    using lb_flow_hash_range [of flow] by (auto simp: nat_mod_distrib)
  then have "nat (lb_flow_hash flow) mod 3 = 1" using hash by simp
  then have "lb_choice bal [(ip, 0, u)] flow = None" using size by (simp add: lb_choice_def window_3_2 lb_active_def)
  from lb_get_drop [OF ok br _ this] have "lb_get_backend junk bal flow now = Some (junk\<lparr>lbb_nic := 0\<rparr>, bal)"
    using lb_lookup_flow [OF f] new by simp
  moreover have "cht_row (lb_cht bal) 2 1 = [1, 0]"
    using cht_filled_row [OF lb_okD(4,2,3,1) [OF ok], of 1] size preference_3_2 by simp
  moreover have "dchain_is_index_allocated (lb_active_backends bal) 0 = Some True"
    using lb_is_active [OF ok br, of 0] size by (simp add: lb_active_def)
  ultimately show ?thesis using hash by simp
qed

text \<open>
  When the memory runs out after the map of flows was allocated, the error path of
  \<open>lb_allocate_balancer\<close> frees the structure of the map but not the five arrays that it owns.
\<close>

lemma lb_allocate_balancer_leaks:
  "map_option (\<lambda>(bal, h). (bal = None, live h)) (example_lb_init (replicate 7 True @ [False])) = Some (True, [6, 5, 4, 3, 2])"
  by code_simp

end
