(* ===== verification/Router.thy ===== *)
theory Router
  imports Vignat
begin

text \<open>
  The router of \<open>dpdk-nfs/nf/router\<close>: the timestamp option of IPv4 headers (\<open>router_options.c\<close>) and the
  packet handler (\<open>router.c\<close>). The loop over the options is not bounded by the header, so that it may read
  past it, or never end; \<open>Fault\<close> is an access to memory outside the packet.
\<close>

section \<open>The code\<close>

text \<open>One round of the loop: it ends with the verdict of the function, or goes on at an address.\<close>

datatype round = Return bool "u8 list" | Continue "u8 list" int

definition rd32 :: "u8 list \<Rightarrow> int \<Rightarrow> u32 option" where
  "rd32 d p = (if 0 \<le> p then ld32 d (nat p) else None)"

definition wr32 :: "u8 list \<Rightarrow> int \<Rightarrow> u32 \<Rightarrow> u8 list option" where
  "wr32 d p x = (if 0 \<le> p then st32 d (nat p) x else None)"

definition timestamp_full :: "u8 list \<Rightarrow> int \<Rightarrow> u8 \<Rightarrow> round option" where
  "timestamp_full d options_bytes opt_length = do {
     b \<leftarrow> rd d options_bytes;
     let timestamp_overflow = drop_bit 4 (and b 0xF0);
     if timestamp_overflow = 0xF then Some (Return False d)
     else do {
       b \<leftarrow> rd d options_bytes;
       let timestamp_flag = and b 0xF;
       d \<leftarrow> wr d options_bytes (push_bit 4 (timestamp_overflow + 1) + timestamp_flag);
       let options_bytes = options_bytes + 1;
       b \<leftarrow> rd d options_bytes;
       d \<leftarrow> wr d options_bytes (b + (opt_length - 2 - 2));
       Some (Continue d options_bytes)
     }
   }"

definition timestamp_room ::
  "u32 \<Rightarrow> u32 \<Rightarrow> u8 list \<Rightarrow> int \<Rightarrow> int \<Rightarrow> u8 \<Rightarrow> u8 \<Rightarrow> round option" where
  "timestamp_room router_ip current_milliseconds_utc d timestamp_pointer_ptr options_bytes opt_length timestamp_pointer = do {
     b \<leftarrow> rd d options_bytes;
     let timestamp_flag = and b 0xF;
     let options_bytes = options_bytes + 1;
     let remaining_length = opt_length - (timestamp_pointer - 1);
     let required_length = (if timestamp_flag = 0 then 4 else 8);
     if remaining_length < required_length then Some (Return False d)
     else do {
       let options_bytes = options_bytes + (uint timestamp_pointer - 5);
       let timestamp_bytes = options_bytes;
       ours \<leftarrow> (if timestamp_flag = 3 then map_option (\<lambda>x. x = router_ip) (rd32 d timestamp_bytes) else Some True);
       if \<not> ours then Some (Continue d options_bytes)
       else do {
         let timestamp_bytes = (if timestamp_flag = 3 then timestamp_bytes + 4 else timestamp_bytes);
         (d, timestamp_bytes) \<leftarrow>
           (if timestamp_flag = 1 then do { d \<leftarrow> wr32 d timestamp_bytes router_ip; Some (d, timestamp_bytes + 4) }
            else Some (d, timestamp_bytes));
         d \<leftarrow> wr32 d timestamp_bytes current_milliseconds_utc;
         x \<leftarrow> rd d timestamp_pointer_ptr;
         d \<leftarrow> wr d timestamp_pointer_ptr (x + required_length);
         Some (Continue d (timestamp_pointer_ptr + uint opt_length - 2))
       }
     }
   }"

definition handle_option :: "u32 \<Rightarrow> u32 \<Rightarrow> u8 list \<Rightarrow> int \<Rightarrow> round option" where
  "handle_option router_ip current_milliseconds_utc d options_bytes = do {
     opt_type \<leftarrow> rd d options_bytes;
     let options_bytes = options_bytes + 1;
     if opt_type = 0 then Some (Return True d)
     else if opt_type = 1 then Some (Continue d options_bytes)
     else do {
       opt_length \<leftarrow> rd d options_bytes;
       let options_bytes = options_bytes + 1;
       if opt_type \<noteq> 68 then Some (Continue d (options_bytes + (uint opt_length - 2)))
       else do {
         let timestamp_pointer_ptr = options_bytes;
         timestamp_pointer \<leftarrow> rd d options_bytes;
         let options_bytes = options_bytes + 1;
         if opt_length < timestamp_pointer then timestamp_full d options_bytes opt_length
         else timestamp_room router_ip current_milliseconds_utc d timestamp_pointer_ptr options_bytes opt_length timestamp_pointer
       }
     }
   }"

text \<open>
  The condition of the loop is on \<open>options_bytes_count\<close>, which the body does not change: the loop is entered when
  there are options, and left only from its body.
\<close>

partial_function (option) options_loop :: "u32 \<Rightarrow> u32 \<Rightarrow> u8 list \<Rightarrow> int \<Rightarrow> (bool \<times> u8 list) run option" where
  "options_loop router_ip current_milliseconds_utc d options_bytes =
     (case handle_option router_ip current_milliseconds_utc d options_bytes of
        None \<Rightarrow> Some Fault
      | Some (Return good d) \<Rightarrow> Some (Done (good, d))
      | Some (Continue d options_bytes) \<Rightarrow> options_loop router_ip current_milliseconds_utc d options_bytes)"

definition handle_packet_timestamp :: "u8 list \<Rightarrow> nat \<Rightarrow> u32 \<Rightarrow> u32 \<Rightarrow> (bool \<times> u8 list) run option" where
  "handle_packet_timestamp d header router_ip current_milliseconds_utc =
     (case ld8 d (header + version_ihl) of
        None \<Rightarrow> Some Fault
      | Some v \<Rightarrow>
          (let options_length = and v 0xF - 5 :: u8;
               options_bytes = int header + 20;
               options_bytes_count = options_length * 4
           in if 0 < options_bytes_count then options_loop router_ip current_milliseconds_utc d options_bytes
              else Some (Done (True, d))))"

text \<open>The end of the handler: the device, as eight bits, and its Ethernet addresses.\<close>

definition router_forward :: "nat_config \<Rightarrow> mbuf \<Rightarrow> nat \<Rightarrow> u8 list \<Rightarrow> (int \<times> mbuf) run" where
  "router_forward config mbuf ether_header d =
     (let dst_device = ucast (if mbuf_port mbuf = ncfg_lan_main_device config then ncfg_wan_device config
                              else ncfg_lan_main_device config) :: u8
      in case do {
           s_addr \<leftarrow> rd (ncfg_device_macs config) (uint dst_device);
           d \<leftarrow> st_bytes d (ether_header + ether_s_addr) s_addr;
           d_addr \<leftarrow> rd (ncfg_endpoint_macs config) (uint dst_device);
           d \<leftarrow> st_bytes d (ether_header + ether_d_addr) d_addr;
           Some (uint dst_device, mbuf\<lparr>mbuf_data := d\<rparr>)
         } of None \<Rightarrow> Fault | Some r \<Rightarrow> Done r)"

definition router_core_process :: "nat_config \<Rightarrow> mbuf \<Rightarrow> int \<Rightarrow> (int \<times> mbuf) run option" where
  "router_core_process config mbuf now =
     (let router_ip = 0x12345678;
          in_port = uint (mbuf_port mbuf);
          d = mbuf_data mbuf;
          ether_header = nf_get_mbuf_ether_header mbuf
      in case nf_get_mbuf_ipv4_header mbuf of
           None \<Rightarrow> Some Fault
         | Some None \<Rightarrow> Some (Done (in_port, mbuf))
         | Some (Some ip_header) \<Rightarrow>
        (case ld8 d (ip_header + version_ihl) of
           None \<Rightarrow> Some Fault
         | Some v \<Rightarrow>
             if 5 < and v 0xF then do {
               r \<leftarrow> handle_packet_timestamp d ip_header router_ip 100;
               case r of
                 Fault \<Rightarrow> Some Fault
               | Done (good, d) \<Rightarrow>
                   if \<not> good then Some (Done (in_port, mbuf\<lparr>mbuf_data := d\<rparr>))
                   else Some (router_forward config mbuf ether_header d)
             }
             else Some (router_forward config mbuf ether_header d)))"

section \<open>Well-formed options\<close>

text \<open>The options other than end-of-list and timestamp, as bytes: the length counts type and length.\<close>

datatype ip_option = No_op | Option u8 "u8 list"

fun option_bytes :: "ip_option \<Rightarrow> u8 list" where
  "option_bytes No_op = [1]"
| "option_bytes (Option t data) = t # word_of_nat (length data + 2) # data"

fun option_ok :: "ip_option \<Rightarrow> bool" where
  "option_ok No_op \<longleftrightarrow> True"
| "option_ok (Option t data) \<longleftrightarrow> t \<noteq> 0 \<and> t \<noteq> 1 \<and> t \<noteq> 68 \<and> length data \<le> 253"

lemma rd_from:
  assumes "drop n d = x # xs"
  shows "rd d (int n) = Some x" "drop (Suc n) d = xs" "n < length d"
proof -
  show n: "n < length d" using assms by (cases "n < length d") auto
  have "x # xs = d ! n # drop (Suc n) d" using assms Cons_nth_drop_Suc [OF n] by simp
  then show "rd d (int n) = Some x" "drop (Suc n) d = xs" using n by simp_all
qed

lemma byte_of_nat: "n < 256 \<Longrightarrow> uint (word_of_nat n :: u8) = int n"
  by (simp add: unsigned_of_nat take_bit_nat_eq_self_iff)

lemma handle_option_skips:
  assumes "drop n d = option_bytes opt @ rest" "option_ok opt"
  shows "handle_option ip ms d (int n) = Some (Continue d (int (n + length (option_bytes opt))))"
proof (cases opt)
  case No_op
  then show ?thesis using assms rd_from(1) [of n d 1 rest] by (simp add: handle_option_def)
next
  case (Option t data)
  have t: "rd d (int n) = Some t" "drop (Suc n) d = word_of_nat (length data + 2) # data @ rest"
    using assms(1) rd_from [of n d t] by (simp_all add: Option)
  have l: "rd d (int n + 1) = Some (word_of_nat (length data + 2))" using rd_from(1) [OF t(2)] by (simp add: add.commute)
  have "uint (word_of_nat (length data + 2) :: u8) = int (length data) + 2"
    using byte_of_nat [of "length data + 2"] assms(2) by (simp add: Option)
  then show ?thesis using t(1) l assms(2) by (simp add: handle_option_def Option Let_def)
qed

lemma options_loop_skips:
  assumes "drop n d = concat (map option_bytes opts) @ 0 # rest" "\<forall>opt \<in> set opts. option_ok opt"
  shows "options_loop ip ms d (int n) = Some (Done (True, d))"
  using assms
proof (induction opts arbitrary: n)
  case Nil
  then show ?case using rd_from(1) [of n d 0 rest]
    by (subst options_loop.simps) (simp add: handle_option_def)
next
  case (Cons opt opts)
  let ?m = "n + length (option_bytes opt)"
  have "drop ?m d = concat (map option_bytes opts) @ 0 # rest"
    using Cons.prems(1) by (simp add: drop_drop [symmetric] add.commute [of n] del: drop_drop)
  from Cons.IH [OF this] have "options_loop ip ms d (int ?m) = Some (Done (True, d))" using Cons.prems(2) by simp
  moreover have "handle_option ip ms d (int n) = Some (Continue d (int ?m))"
    using handle_option_skips [of n d opt] Cons.prems by simp
  ultimately show ?case by (subst options_loop.simps) simp
qed

section \<open>Options that do not end\<close>

text \<open>An option that says it has length zero: the loop comes back to its first byte.\<close>

lemma options_loop_hangs:
  assumes "rd d p = Some t" "t \<noteq> 0" "t \<noteq> 1" "t \<noteq> 68" "rd d (p + 1) = Some 0"
  shows "options_loop ip ms d p = None"
proof (rule ccontr)
  assume "options_loop ip ms d p \<noteq> None"
  then obtain r where r: "options_loop ip ms d p = Some r" by blast
  have again: "handle_option ip ms d p = Some (Continue d p)" using assms by (simp add: handle_option_def)
  have "\<not> (d' = d \<and> p' = p \<and> ip' = ip \<and> ms' = ms)" if "options_loop ip' ms' d' p' = Some r" for ip' ms' d' p'
  proof (rule options_loop.raw_induct [OF _ that, where P = "\<lambda>ip' ms' d' p' r. \<not> (d' = d \<and> p' = p \<and> ip' = ip \<and> ms' = ms)"])
    fix f ip' ms' d' p' r'
    assume ih: "\<And>ip' ms' d' p' r. f ip' ms' d' p' = Some r \<Longrightarrow> \<not> (d' = d \<and> p' = p \<and> ip' = ip \<and> ms' = ms)"
      and eq: "(case handle_option ip' ms' d' p' of None \<Rightarrow> Some Fault | Some (Return good d) \<Rightarrow> Some (Done (good, d))
        | Some (Continue d options_bytes) \<Rightarrow> f ip' ms' d options_bytes) = Some r'"
    show "\<not> (d' = d \<and> p' = p \<and> ip' = ip \<and> ms' = ms)" using ih [of ip ms d p r'] eq again by auto
  qed
  then show False using r by blast
qed

text \<open>No-operation options up to the end of the packet: the loop runs off it.\<close>

lemma options_loop_runs_off:
  assumes "\<forall>i. n \<le> i \<and> i < length d \<longrightarrow> d ! i = 1" "n \<le> length d"
  shows "options_loop ip ms d (int n) = Some Fault"
  using assms
proof (induction "length d - n" arbitrary: n)
  case 0
  then show ?case by (subst options_loop.simps) (simp add: handle_option_def rd_out)
next
  case (Suc x)
  then have "n < length d" "d ! n = 1" by simp_all
  then have "handle_option ip ms d (int n) = Some (Continue d (int (Suc n)))" by (simp add: handle_option_def add.commute)
  moreover have "options_loop ip ms d (int (Suc n)) = Some Fault" using Suc.hyps(1) [of "Suc n"] Suc.hyps(2) Suc.prems by simp
  ultimately show ?case by (subst options_loop.simps) simp
qed

section \<open>The timestamp option\<close>

lemma handle_timestamp_room:
  assumes d: "n + unat len \<le> length d" "d ! n = 68" "d ! (n + 1) = len" "d ! (n + 2) = ptr" "and (d ! (n + 3)) 0xF = 0"
    and ptr: "5 \<le> unat ptr" "unat ptr + 3 \<le> unat len"
  shows "handle_option ip ms d (int n) =
    Some (Continue ((put32 d (n + unat ptr - 1) ms)[n + 2 := ptr + 4]) (int (n + unat len)))"
proof -
  let ?q = "n + unat ptr - 1"
  have len: "n + 3 < length d" "?q + 3 < length d" using d(1) ptr by simp_all
  have rds: "rd d (int n) = Some 68" "rd d (int n + 1) = Some len" "rd d (int n + 2) = Some ptr"
    "rd d (int n + 3) = Some (d ! (n + 3))"
    using d len rd_int [of "n + 1" d] rd_int [of "n + 2" d] rd_int [of "n + 3" d] by (simp_all add: add.commute)
  have not_full: "\<not> len < ptr" using ptr by (simp add: word_less_nat_alt)
  have one: "unat (ptr - 1) = unat ptr - 1" using ptr by (simp add: unat_sub word_le_nat_alt)
  have "ptr - 1 \<le> len" using one ptr by (simp add: word_le_nat_alt)
  then have "unat (len - (ptr - 1)) = unat len - (unat ptr - 1)" using one by (simp add: unat_sub)
  then have room: "\<not> len - (ptr - 1) < 4" using ptr by (simp add: word_less_nat_alt)
  have "int ?q = int n + int (unat ptr) - 1" using ptr(1) by linarith
  then have at: "int n + 4 + (uint ptr - 5) = int ?q" by simp
  have st: "wr32 d (int ?q) ms = Some (put32 d ?q ms)" using len by (simp add: wr32_def st_in)
  have keep: "put32 d ?q ms ! (n + 2) = ptr" using d(4) ptr by (simp add: nth_put32)
  have rd2: "rd (put32 d ?q ms) (int n + 2) = Some ptr"
    using keep len rd_int [of "n + 2" "put32 d ?q ms"] by (simp add: add.commute)
  have wr2: "wr (put32 d ?q ms) (int n + 2) (ptr + 4) = Some ((put32 d ?q ms)[n + 2 := ptr + 4])"
    using len wr_int [of "n + 2" "put32 d ?q ms"] by (simp add: add.commute)
  show ?thesis
    using rds not_full room at st rd2 wr2 d(5)
    by (simp add: handle_option_def timestamp_room_def Let_def add.assoc)
qed

text \<open>The option is full: its overflow count goes up, and the loop goes on inside the option, after changing a byte of it.\<close>

lemma handle_timestamp_full:
  assumes d: "n + 4 < length d" "d ! n = 68" "d ! (n + 1) = len" "d ! (n + 2) = ptr" "len < ptr"
    and ov: "drop_bit 4 (and (d ! (n + 3)) 0xF0) \<noteq> 0xF"
  shows "handle_option ip ms d (int n) =
    Some (Continue (d[n + 3 := push_bit 4 (drop_bit 4 (and (d ! (n + 3)) 0xF0) + 1) + and (d ! (n + 3)) 0xF,
      n + 4 := d ! (n + 4) + (len - 4)]) (int (n + 4)))"
proof -
  have rds: "rd d (int n) = Some 68" "rd d (int n + 1) = Some len" "rd d (int n + 2) = Some ptr"
    "rd d (int n + 3) = Some (d ! (n + 3))"
    using d rd_int [of "n + 1" d] rd_int [of "n + 2" d] rd_int [of "n + 3" d] by (simp_all add: add.commute)
  have wr3: "wr d (int n + 3) x = Some (d[n + 3 := x])" for x using d(1) wr_int [of "n + 3" d] by (simp add: add.commute)
  have rd4: "rd (d[n + 3 := x]) (int n + 4) = Some (d ! (n + 4))" for x
    using d(1) rd_int [of "n + 4" "d[n + 3 := x]"] by (simp add: add.commute)
  have wr4: "wr (d[n + 3 := x]) (int n + 4) y = Some (d[n + 3 := x, n + 4 := y])" for x y
    using d(1) wr_int [of "n + 4" "d[n + 3 := x]"] by (simp add: add.commute)
  have "len - 2 - 2 = len - 4" by simp
  then show ?thesis
    using rds wr3 rd4 wr4 d(5) ov by (simp add: handle_option_def timestamp_full_def Let_def add.assoc)
qed

section \<open>The packet handler\<close>

definition router_out :: "nat_config \<Rightarrow> u16 \<Rightarrow> u16" where
  "router_out config port = (if port = ncfg_lan_main_device config then ncfg_wan_device config else ncfg_lan_main_device config)"

text \<open>Only the Ethernet addresses change.\<close>

definition l2_sent :: "nat_config \<Rightarrow> u16 \<Rightarrow> u8 list \<Rightarrow> u8 list \<Rightarrow> bool" where
  "l2_sent config dev d d' \<longleftrightarrow>
     length d' = length d \<and> take 6 d' = ncfg_endpoint_macs config ! unat dev \<and>
     take 6 (drop 6 d') = ncfg_device_macs config ! unat dev \<and> (\<forall>j\<ge>12. d' ! j = d ! j)"

lemma put_macs:
  assumes "12 \<le> length d" "length s = 6" "length e = 6"
  shows "take 6 (put_bytes (put_bytes d 6 s) 0 e) = e" "take 6 (drop 6 (put_bytes (put_bytes d 6 s) 0 e)) = s"
    "length (put_bytes (put_bytes d 6 s) 0 e) = length d"
    "12 \<le> j \<Longrightarrow> put_bytes (put_bytes d 6 s) 0 e ! j = d ! j"
proof -
  show "take 6 (put_bytes (put_bytes d 6 s) 0 e) = e" using take_put_bytes [of 0 e "put_bytes d 6 s"] assms by simp
  have "take 6 (drop 6 (put_bytes (put_bytes d 6 s) 0 e)) = take 6 (drop 6 (put_bytes d 6 s))"
    using assms(3) by (simp add: put_bytes_def)
  then show "take 6 (drop 6 (put_bytes (put_bytes d 6 s) 0 e)) = s" using take_put_bytes [of 6 s d] assms by simp
qed (use assms in \<open>simp_all add: nth_put_bytes\<close>)

lemma small_device: "unat (dev :: u16) < 256 \<Longrightarrow> unat (ucast dev :: u8) = unat dev"
  by (simp add: unsigned_ucast_eq take_bit_nat_eq_self_iff)

lemma router_forward_ok:
  assumes "12 \<le> length d" "nat_config_ok config (router_out config (mbuf_port mbuf))" "unat (router_out config (mbuf_port mbuf)) < 256"
  shows "\<exists>d'. router_forward config mbuf 0 d = Done (uint (router_out config (mbuf_port mbuf)), mbuf\<lparr>mbuf_data := d'\<rparr>) \<and>
    l2_sent config (router_out config (mbuf_port mbuf)) d d'"
proof -
  let ?dev = "router_out config (mbuf_port mbuf)"
  let ?s = "ncfg_device_macs config ! unat ?dev" and ?e = "ncfg_endpoint_macs config ! unat ?dev"
  let ?d = "put_bytes (put_bytes d 6 ?s) 0 ?e"
  have m: "length ?s = 6" "length ?e = 6" "unat ?dev < length (ncfg_device_macs config)" "unat ?dev < length (ncfg_endpoint_macs config)"
    using assms(2) by (simp_all add: nat_config_ok_def)
  have u: "uint (ucast ?dev :: u8) = uint ?dev" using arg_cong [OF small_device [OF assms(3)], of int] by simp
  have "router_forward config mbuf 0 d = Done (uint ?dev, mbuf\<lparr>mbuf_data := ?d\<rparr>)"
    using m assms(1) u rd_mac [OF m(3)] rd_mac [OF m(4)]
    by (simp add: router_forward_def router_out_def [symmetric] Let_def layout st_bytes_def)
  then show ?thesis using put_macs [OF assms(1) m(1,2)] by (auto simp: l2_sent_def)
qed

lemma options_present:
  fixes v :: u8
  assumes "5 < and v 0xF"
  shows "0 < (and v 0xF - 5) * 4"
proof -
  let ?w = "and v 0xF"
  have "?w = take_bit 4 v" using take_bit_eq_mask [of 4 v] by (simp add: mask_eq_exp_minus_1)
  then have "unat ?w \<le> 15" using ihl_le [of v] by (simp add: ihl_def)
  moreover have gt: "5 < unat ?w" using assms by (simp add: word_less_nat_alt)
  moreover have x: "unat (?w - 5) = unat ?w - 5" using gt by (simp add: unat_sub word_le_nat_alt)
  ultimately have "unat ((?w - 5) * 4) = (unat ?w - 5) * 4"
    unfolding unat_word_ariths(2) x by (simp only: unat_numeral) simp
  then show ?thesis unfolding word_less_nat_alt using gt by (simp only: unat_0)
qed

lemma router_process_options:
  assumes "mbuf_ok mbuf" "is_ipv4 (mbuf_data mbuf)" "5 < and (mbuf_data mbuf ! 14) 0xF"
  shows "router_core_process config mbuf now =
    (case options_loop 0x12345678 100 (mbuf_data mbuf) 34 of
       None \<Rightarrow> None
     | Some Fault \<Rightarrow> Some Fault
     | Some (Done (good, d)) \<Rightarrow>
         Some (if good then router_forward config mbuf 0 d else Done (uint (mbuf_port mbuf), mbuf\<lparr>mbuf_data := d\<rparr>)))"
  using assms options_present [OF assms(3)] parsed_headers(1) [OF assms(1)]
  by (auto simp: router_core_process_def handle_packet_timestamp_def nf_get_mbuf_ether_header_def mbuf_ok_def layout ld_in Let_def
      split: option.splits run.splits)

section \<open>Examples\<close>

definition example_router_config :: nat_config where
  "example_router_config = \<lparr>ncfg_lan_main_device = 0, ncfg_wan_device = 1, ncfg_external_addr = 0,
     ncfg_device_macs = [[1, 1, 1, 1, 1, 1], [2, 2, 2, 2, 2, 2]],
     ncfg_endpoint_macs = [[3, 3, 3, 3, 3, 3], [4, 4, 4, 4, 4, 4]],
     ncfg_start_port = 0, ncfg_expiration_time = 0, ncfg_max_flows = 0\<rparr>"

text \<open>An IPv4 packet from device 0 with a header of ten words, then its options and what follows them.\<close>

definition example_options :: "u8 list \<Rightarrow> mbuf" where
  "example_options opts = \<lparr>mbuf_port = 0, mbuf_data = replicate 12 0 @ [8, 0, 0x4A] @ replicate 19 0 @ opts\<rparr>"

lemma example_options_ok:
  assumes "20 \<le> length opts"
  shows "mbuf_ok (example_options opts)" "is_ipv4 (mbuf_data (example_options opts))"
    "5 < and (mbuf_data (example_options opts) ! 14) 0xF" "drop 34 (mbuf_data (example_options opts)) = opts"
    "mbuf_port (example_options opts) = 0" "length (mbuf_data (example_options opts)) = 34 + length opts"
    "mbuf_data (example_options opts) ! (34 + i) = opts ! i"
  using assms by (simp_all add: example_options_def mbuf_ok_def is_ipv4_def get16_def nth_append)

lemma example_router_config_ok:
  "nat_config_ok example_router_config (router_out example_router_config 0)" "router_out example_router_config 0 = 1"
  by (simp_all add: nat_config_ok_def router_out_def example_router_config_def)

section \<open>Properties\<close>

text \<open>
  C31. On an IPv4 packet with options, none of them a timestamp, that ends its options with an end-of-list option, the
  loop over the options ends, and the packet is forwarded with only its Ethernet addresses changed.
\<close>

theorem router_skips_options:
  assumes "mbuf_ok mbuf" "is_ipv4 (mbuf_data mbuf)" "5 < and (mbuf_data mbuf ! 14) 0xF"
    and "drop 34 (mbuf_data mbuf) = concat (map option_bytes opts) @ 0 # rest" "\<forall>opt \<in> set opts. option_ok opt"
    and "nat_config_ok config (router_out config (mbuf_port mbuf))" "unat (router_out config (mbuf_port mbuf)) < 256"
  shows "\<exists>d'. router_core_process config mbuf now =
      Some (Done (uint (router_out config (mbuf_port mbuf)), mbuf\<lparr>mbuf_data := d'\<rparr>)) \<and>
    l2_sent config (router_out config (mbuf_port mbuf)) (mbuf_data mbuf) d'"
proof -
  have "options_loop 0x12345678 100 (mbuf_data mbuf) 34 = Some (Done (True, mbuf_data mbuf))"
    using options_loop_skips [OF assms(4,5)] by simp
  then have "router_core_process config mbuf now = Some (router_forward config mbuf 0 (mbuf_data mbuf))"
    using router_process_options [OF assms(1-3)] by simp
  moreover have "12 \<le> length (mbuf_data mbuf)" using assms(1) by (simp add: mbuf_ok_def)
  ultimately show ?thesis using router_forward_ok [OF _ assms(6,7)] by simp
qed

theorem router_skips_options_witness:
  "\<exists>d'. router_core_process example_router_config
      (example_options (concat (map option_bytes [No_op, Option 7 [9, 9]]) @ 0 # replicate 20 5)) 3 =
    Some (Done (1, (example_options (concat (map option_bytes [No_op, Option 7 [9, 9]]) @ 0 # replicate 20 5))\<lparr>mbuf_data := d'\<rparr>))"
proof -
  let ?o = "concat (map option_bytes [No_op, Option 7 [9, 9]]) @ 0 # replicate 20 5"
  have l: "20 \<le> length ?o" by simp
  have p: "mbuf_port (example_options ?o) = 0" by (rule example_options_ok(5) [OF l])
  from router_skips_options [OF example_options_ok(1-4) [OF l], of example_router_config 3, unfolded p example_router_config_ok]
  show ?thesis using example_router_config_ok by auto
qed

text \<open>
  C40. One packet stops the router: an option, of a type other than end-of-list, no-operation and timestamp, that gives
  its length as zero makes the loop over the options return to that option for ever.
\<close>

theorem router_zero_length_option_hangs:
  assumes "mbuf_ok mbuf" "is_ipv4 (mbuf_data mbuf)" "5 < and (mbuf_data mbuf ! 14) 0xF"
    and "mbuf_data mbuf ! 34 \<notin> {0, 1, 68}" "mbuf_data mbuf ! 35 = 0"
  shows "router_core_process config mbuf now = None"
proof -
  have len: "35 < length (mbuf_data mbuf)" using assms(1) by (simp add: mbuf_ok_def)
  have "options_loop 0x12345678 100 (mbuf_data mbuf) 34 = None"
    by (rule options_loop_hangs [where t = "mbuf_data mbuf ! 34"])
      (use len assms(4,5) in \<open>simp_all add: rd_def\<close>)
  then show ?thesis using router_process_options [OF assms(1-3)] by simp
qed

theorem router_zero_length_option_hangs_witness:
  "router_core_process example_router_config (example_options (7 # 0 # replicate 20 0)) 3 = None"
proof -
  have l: "20 \<le> length (7 # 0 # replicate 20 0 :: u8 list)" by simp
  show ?thesis
    by (rule router_zero_length_option_hangs [OF example_options_ok(1-3) [OF l]])
      (use example_options_ok(7) [OF l, of 0] example_options_ok(7) [OF l, of 1] in simp_all)
qed

text \<open>
  The loop is not bounded by the header: options that consist of no-operation options are read on into the data of the packet,
  and outside of it when its bytes look like no-operation options too.
\<close>

lemma router_options_run_off:
  assumes "mbuf_ok mbuf" "is_ipv4 (mbuf_data mbuf)" "5 < and (mbuf_data mbuf ! 14) 0xF"
    and "\<forall>i. 34 \<le> i \<and> i < length (mbuf_data mbuf) \<longrightarrow> mbuf_data mbuf ! i = 1"
  shows "router_core_process config mbuf now = Some Fault"
  using options_loop_runs_off [OF assms(4)] router_process_options [OF assms(1-3)] assms(1) by (simp add: mbuf_ok_def)



text \<open>
  A full timestamp option is not skipped: the code adds the distance to the next option to a byte of the option instead of
  to its pointer, so that this byte changes and the next round reads the entries of the option as options.
\<close>

lemma router_full_timestamp_corrupts:
  assumes "n + 4 < length d" "d ! n = 68" "d ! (n + 1) = len" "d ! (n + 2) = ptr" "len < ptr"
    "drop_bit 4 (and (d ! (n + 3)) 0xF0) \<noteq> 0xF" "4 < len"
  shows "\<exists>d'. handle_option ip ms d (int n) = Some (Continue d' (int (n + 4))) \<and> d' ! (n + 4) = d ! (n + 4) + (len - 4) \<and>
    d' ! (n + 4) \<noteq> d ! (n + 4) \<and> n + 4 \<noteq> n + unat len"
proof -
  have "unat len \<noteq> 4" "len - 4 \<noteq> 0" using assms(7) by (auto simp: word_less_nat_alt)
  then show ?thesis using handle_timestamp_full [OF assms(1-6), of ip ms] assms(1) by simp
qed

end
