(* ===== verification/Scan.thy ===== *)
theory Scan
  imports Prelude
begin

text \<open>
  Numbers in text, as \<open>fscanf\<close> and \<open>strtoimax\<close> read them and as they are written in decimal notation.
\<close>

section \<open>Reading\<close>

definition isspace :: "char \<Rightarrow> bool" where
  "isspace c \<longleftrightarrow> of_char c \<in> {9, 10, 11, 12, 13, 32 :: nat}"

definition isdigit :: "char \<Rightarrow> bool" where
  "isdigit c \<longleftrightarrow> 48 \<le> (of_char c :: nat) \<and> (of_char c :: nat) \<le> 57"

fun decimal :: "nat \<Rightarrow> string \<Rightarrow> nat" where
  "decimal n [] = n"
| "decimal n (c # cs) = decimal (10 * n + (of_char c - 48)) cs"

text \<open>A number in decimal notation: blanks, a sign, digits. \<open>None\<close> when there are no digits.\<close>

definition scan_number :: "string \<Rightarrow> int option \<times> string" where
  "scan_number f =
     (let g = dropWhile isspace f;
          (neg, g) = (case g of [] \<Rightarrow> (False, g)
             | c # cs \<Rightarrow> if c = CHR ''-'' then (True, cs) else if c = CHR ''+'' then (False, cs) else (False, g));
          ds = takeWhile isdigit g
      in if ds = [] then (None, g)
         else (Some (if neg then - int (decimal 0 ds) else int (decimal 0 ds)), dropWhile isdigit g))"

section \<open>Writing\<close>

fun dec :: "nat \<Rightarrow> string" where
  "dec n = (if n < 10 then [char_of (48 + n)] else dec (n div 10) @ [char_of (48 + n mod 10)])"

declare dec.simps [simp del]

lemma decimal_append: "decimal n (xs @ ys) = decimal (decimal n xs) ys"
  by (induction xs arbitrary: n) auto

lemma dec_digits: "dec n \<noteq> [] \<and> (\<forall>c \<in> set (dec n). isdigit c) \<and> decimal 0 (dec n) = n"
proof (induction n rule: dec.induct)
  case (1 n)
  have digit: "isdigit (char_of (48 + m))" "of_char (char_of (48 + m) :: char) = 48 + m" if "m < 10" for m :: nat
    using that by (simp_all add: isdigit_def of_char_of)
  show ?case
  proof (cases "n < 10")
    case True
    then show ?thesis using digit [OF True] by (subst (1 2 3) dec.simps) simp
  next
    case False
    have m: "n mod 10 < 10" by simp
    show ?thesis using 1 [OF False] False digit [OF m] by (subst (1 2 3) dec.simps) (auto simp: decimal_append)
  qed
qed

lemma scan_dec:
  assumes "f = [] \<or> \<not> isdigit (hd f)"
  shows "scan_number (dec n @ f) = (Some (int n), f)"
proof -
  have blank: "\<not> isspace c \<and> c \<noteq> CHR ''-'' \<and> c \<noteq> CHR ''+''" if "isdigit c" for c
    using that by (auto simp: isdigit_def isspace_def)
  obtain c cs where c: "dec n = c # cs" "isdigit c" using dec_digits [of n] by (cases "dec n") auto
  then have "dropWhile isspace (dec n @ f) = dec n @ f" using blank by simp
  moreover have "takeWhile isdigit (dec n @ f) = dec n" "dropWhile isdigit (dec n @ f) = f"
    using dec_digits [of n] assms by (cases f; simp add: takeWhile_append2 dropWhile_append2)+
  ultimately show ?thesis using c blank [OF c(2)] dec_digits [of n] by (simp add: scan_number_def)
qed

lemma scan_blank_dec:
  assumes "f = [] \<or> \<not> isdigit (hd f)"
  shows "scan_number (CHR 0x09 # dec n @ f) = (Some (int n), f)"
proof -
  have "isspace (CHR 0x09)" by (simp add: isspace_def)
  then have "scan_number (CHR 0x09 # dec n @ f) = scan_number (dec n @ f)" by (simp add: scan_number_def)
  then show ?thesis by (simp add: scan_dec [OF assms])
qed

end
