(* ===== verification/Lpm.thy ===== *)
theory Lpm
  imports Router Scan
begin

text \<open>
  The longest-prefix-match router of \<open>dpdk-nfs/nf/lpm\<close>: reading the routing table (\<open>lpm_dpdk.c\<close>) and the packet
  handler (\<open>lpm.c\<close>). The tables of DPDK and the parser of addresses are not part of the sources: they are
  parameters, bundled in the record \<open>lpm_lib\<close>. What is read with \<open>fscanf\<close> and \<open>getc\<close> is modelled on the characters of
  the file still to be read.
\<close>

section \<open>The code\<close>

record 'l lpm_lib =
  rte_lpm_create :: "'l option"
  rte_lpm_add :: "'l \<Rightarrow> u32 \<Rightarrow> u8 \<Rightarrow> u32 \<Rightarrow> int \<times> 'l"
  rte_lpm_lookup :: "'l \<Rightarrow> u32 \<Rightarrow> u32 option"
  inet_pton :: "string \<Rightarrow> u32 option"

definition rte_be_to_cpu_32 :: "u32 \<Rightarrow> u32" where
  "rte_be_to_cpu_32 x =
     or (or (push_bit 24 (and x 0xFF)) (push_bit 8 (and x 0xFF00)))
        (or (drop_bit 8 (and x 0xFF0000)) (drop_bit 24 (and x 0xFF000000)))"

definition LPM_MAX_RULES :: nat where
  "LPM_MAX_RULES = 1000000"

definition INET_ADDRSTRLEN :: nat where
  "INET_ADDRSTRLEN = 16"

definition newline :: char where
  "newline = CHR 0x0A"

text \<open>\<open>%s\<close>: blanks, then characters that are not blank; \<open>None\<close> is the end of the file.\<close>

definition scan_string :: "string \<Rightarrow> (string \<times> string) option" where
  "scan_string f =
     (case dropWhile isspace f of
        [] \<Rightarrow> None
      | g \<Rightarrow> Some (takeWhile (\<lambda>c. \<not> isspace c) g, dropWhile (\<lambda>c. \<not> isspace c) g))"

text \<open>
  \<open>while (getc(pfx2as_file) != '\n') continue;\<close> At the end of the file \<open>getc\<close> goes on returning \<open>EOF\<close>, so the loop
  does not end: \<open>None\<close>.
\<close>

fun skip_line :: "string \<Rightarrow> string option" where
  "skip_line [] = None"
| "skip_line (c # cs) = (if c = newline then Some cs else skip_line cs)"

text \<open>
  A number that the variable cannot hold is undefined behaviour of \<open>fscanf\<close>, a word that does not fit into \<open>ip_str\<close> is
  written past it: both go wrong. \<open>ip0\<close> and \<open>port0\<close> are what the variables hold before they are assigned.
\<close>

definition lpm_port :: "int \<Rightarrow> string \<Rightarrow> (int \<times> string) run option" where
  "lpm_port port0 f =
     (case scan_number f of
        (None, f) \<Rightarrow> Some (Done (port0, f))
      | (Some port, f) \<Rightarrow>
          if \<not> is_c_int port then Some Fault
          else (case skip_line (case f of [] \<Rightarrow> f | c # cs \<Rightarrow> if c = CHR ''_'' then cs else f) of
                  None \<Rightarrow> None
                | Some f \<Rightarrow> Some (Done (port, f))))"

function lpm_load ::
  "'l lpm_lib \<Rightarrow> (nat \<Rightarrow> u32) \<Rightarrow> (nat \<Rightarrow> int) \<Rightarrow> 'l \<Rightarrow> string \<Rightarrow> nat \<Rightarrow> (string + 'l) run option" where
  "lpm_load lib ip0 port0 table f count =
     (if count < LPM_MAX_RULES then
        (case scan_string f of
           None \<Rightarrow> Some (Done (Inr table))
         | Some (ip_str, f) \<Rightarrow>
        if INET_ADDRSTRLEN \<le> length ip_str then Some Fault else
        (case scan_number f of
           (None, f) \<Rightarrow> Some (Done (Inl ''Error in prefix detpth in pfx2as file''))
         | (Some depth, f) \<Rightarrow>
        if \<not> (0 \<le> depth \<and> depth < 256) then Some Fault else
        (case lpm_port (port0 count) f of
           None \<Rightarrow> None
         | Some Fault \<Rightarrow> Some Fault
         | Some (Done (port, f)) \<Rightarrow>
             (let ip = (case inet_pton lib ip_str of None \<Rightarrow> ip0 count | Some ip \<Rightarrow> ip)
              in case rte_lpm_add lib table (rte_be_to_cpu_32 ip) (word_of_int depth) (word_of_int port) of
                   (result, table) \<Rightarrow>
                     if result < 0 then Some (Done (Inl ''Cannot add entry to the LPM table.''))
                     else lpm_load lib ip0 port0 table f (count + 1)))))
      else Some (Done (Inr table)))"
  by pat_completeness auto
termination
  by (relation "measure (\<lambda>(lib, ip0, port0, table, f, count). LPM_MAX_RULES - count)") auto

declare lpm_load.simps [simp del]

definition lpm_init ::
  "'l lpm_lib \<Rightarrow> (nat \<Rightarrow> u32) \<Rightarrow> (nat \<Rightarrow> int) \<Rightarrow> string option \<Rightarrow> (string + 'l) run option" where
  "lpm_init lib ip0 port0 pfx2as_file =
     (case rte_lpm_create lib of
        None \<Rightarrow> Some (Done (Inl ''Cannot allocate the LPM table''))
      | Some table \<Rightarrow>
     (case pfx2as_file of
        None \<Rightarrow> Some (Done (Inl ''Error opening pfx2as file''))
      | Some f \<Rightarrow> lpm_load lib ip0 port0 table f 0))"

text \<open>The table is not \<open>NULL\<close> once \<open>lpm_init\<close> has returned, so the assertion holds.\<close>

definition lpm_core_init ::
  "'l lpm_lib \<Rightarrow> (nat \<Rightarrow> u32) \<Rightarrow> (nat \<Rightarrow> int) \<Rightarrow> (string \<Rightarrow> string option) \<Rightarrow> (string + 'l) run option" where
  "lpm_core_init lib ip0 port0 files = lpm_init lib ip0 port0 (files ''routing-table.pfx2as'')"

definition lpm_lookup :: "'l lpm_lib \<Rightarrow> 'l \<Rightarrow> u32 \<Rightarrow> u32" where
  "lpm_lookup lib lpm addr = (case rte_lpm_lookup lib lpm addr of Some next_hop \<Rightarrow> next_hop | None \<Rightarrow> - 1)"

definition lpm_core_process :: "'l lpm_lib \<Rightarrow> nat_config \<Rightarrow> 'l \<Rightarrow> mbuf \<Rightarrow> int \<Rightarrow> (int \<times> mbuf) option" where
  "lpm_core_process lib config lpm mbuf now = do {
     let d = mbuf_data mbuf;
     ip \<leftarrow> nf_get_mbuf_ipv4_header mbuf;
     case ip of
       None \<Rightarrow> Some (uint (mbuf_port mbuf), mbuf)
     | Some ip_header \<Rightarrow> do {
         da \<leftarrow> ld32 d (ip_header + dst_addr);
         let dst_device = (ucast (lpm_lookup lib lpm (rte_be_to_cpu_32 da)) :: u8);
         let ether_header = nf_get_mbuf_ether_header mbuf;
         s_addr \<leftarrow> rd (ncfg_device_macs config) (uint dst_device);
         d \<leftarrow> st_bytes d (ether_header + ether_s_addr) s_addr;
         d_addr \<leftarrow> rd (ncfg_endpoint_macs config) (uint dst_device);
         d \<leftarrow> st_bytes d (ether_header + ether_d_addr) d_addr;
         Some (uint dst_device, mbuf\<lparr>mbuf_data := d\<rparr>)
       }
   }"

section \<open>Reading back a table\<close>

text \<open>A rule in the file: address, depth and next hop, separated by blanks, on a line of its own.\<close>

record lpm_rule =
  rule_ip :: string
  rule_depth :: nat
  rule_port :: nat

definition rule_text :: "lpm_rule \<Rightarrow> string" where
  "rule_text r = rule_ip r @ CHR 0x09 # dec (rule_depth r) @ CHR 0x09 # dec (rule_port r)"

definition rule_line :: "lpm_rule \<Rightarrow> string" where
  "rule_line r = rule_text r @ [newline]"

definition rule_ok :: "lpm_rule \<Rightarrow> bool" where
  "rule_ok r \<longleftrightarrow> rule_ip r \<noteq> [] \<and> (\<forall>c \<in> set (rule_ip r). \<not> isspace c) \<and> length (rule_ip r) < INET_ADDRSTRLEN \<and>
     rule_depth r < 256 \<and> rule_port r < 2 ^ 31"

definition rule_addr :: "'l lpm_lib \<Rightarrow> lpm_rule \<Rightarrow> u32" where
  "rule_addr lib r = rte_be_to_cpu_32 (the (inet_pton lib (rule_ip r)))"

fun add_rules :: "'l lpm_lib \<Rightarrow> 'l \<Rightarrow> lpm_rule list \<Rightarrow> string + 'l" where
  "add_rules lib table [] = Inr table"
| "add_rules lib table (r # rs) =
     (case rte_lpm_add lib table (rule_addr lib r) (word_of_nat (rule_depth r)) (word_of_nat (rule_port r)) of
        (result, table) \<Rightarrow> if result < 0 then Inl ''Cannot add entry to the LPM table.'' else add_rules lib table rs)"

definition rules_ok :: "'l lpm_lib \<Rightarrow> lpm_rule list \<Rightarrow> bool" where
  "rules_ok lib rules \<longleftrightarrow> (\<forall>r \<in> set rules. rule_ok r \<and> inet_pton lib (rule_ip r) \<noteq> None)"

lemma scan_rule_ip:
  assumes "rule_ok r"
  shows "scan_string (rule_text r @ f) = Some (rule_ip r, CHR 0x09 # dec (rule_depth r) @ CHR 0x09 # dec (rule_port r) @ f)"
proof -
  obtain c cs where c: "rule_ip r = c # cs" "\<not> isspace c" using assms by (cases "rule_ip r") (auto simp: rule_ok_def)
  have tab: "isspace (CHR 0x09)" by (simp add: isspace_def)
  let ?g = "CHR 0x09 # dec (rule_depth r) @ CHR 0x09 # dec (rule_port r) @ f"
  have "takeWhile (\<lambda>c. \<not> isspace c) (rule_ip r @ ?g) = rule_ip r" "dropWhile (\<lambda>c. \<not> isspace c) (rule_ip r @ ?g) = ?g"
    using assms tab by (auto simp: rule_ok_def takeWhile_append2 dropWhile_append2)
  then show ?thesis using c by (simp add: scan_string_def rule_text_def)
qed

lemma no_digit: "\<not> isdigit newline" "\<not> isdigit (CHR 0x09)" "newline \<noteq> CHR ''_''"
  by (simp_all add: isdigit_def newline_def)

lemma port_fits: "rule_ok r \<Longrightarrow> is_c_int (int (rule_port r))"
  by (simp add: rule_ok_def is_c_int_def INT_MIN_def INT_MAX_def)

lemma lpm_port_line:
  assumes "rule_ok r"
  shows "lpm_port x (CHR 0x09 # dec (rule_port r) @ newline # f) = Some (Done (int (rule_port r), f))"
    "lpm_port x (CHR 0x09 # dec (rule_port r)) = None"
  using scan_blank_dec [of "newline # f" "rule_port r"] scan_blank_dec [of "[]" "rule_port r"] no_digit port_fits [OF assms]
  by (simp_all add: lpm_port_def)

lemma lpm_load_line:
  assumes "rule_ok r" "inet_pton lib (rule_ip r) \<noteq> None" "count < LPM_MAX_RULES"
  shows "lpm_load lib ip0 port0 table (rule_line r @ f) count =
    (case rte_lpm_add lib table (rule_addr lib r) (word_of_nat (rule_depth r)) (word_of_nat (rule_port r)) of
       (result, table) \<Rightarrow> if result < 0 then Some (Done (Inl ''Cannot add entry to the LPM table.''))
         else lpm_load lib ip0 port0 table f (count + 1))"
  using assms scan_rule_ip [OF assms(1), of "newline # f"] lpm_port_line(1) [OF assms(1), of "port0 count" f]
    scan_blank_dec [of "CHR 0x09 # dec (rule_port r) @ newline # f" "rule_depth r"] no_digit
  by (subst lpm_load.simps) (auto simp: rule_line_def rule_ok_def rule_addr_def)

lemma lpm_load_rules:
  assumes "rules_ok lib rules" "count + length rules \<le> LPM_MAX_RULES"
  shows "lpm_load lib ip0 port0 table (concat (map rule_line rules)) count = Some (Done (add_rules lib table rules))"
  using assms
proof (induction rules arbitrary: table count)
  case Nil
  then show ?case by (subst lpm_load.simps) (simp add: scan_string_def)
next
  case (Cons r rules)
  obtain res t where a: "rte_lpm_add lib table (rule_addr lib r) (word_of_nat (rule_depth r)) (word_of_nat (rule_port r)) = (res, t)"
    by fastforce
  have "rules_ok lib rules" "Suc count + length rules \<le> LPM_MAX_RULES" using Cons.prems by (simp_all add: rules_ok_def)
  from Cons.IH [OF this, of t]
  show ?case using Cons.prems a lpm_load_line [of r lib count ip0 port0 table "concat (map rule_line rules)"]
    by (simp add: rules_ok_def)
qed

text \<open>A last line without its newline.\<close>

lemma lpm_load_unfinished:
  assumes "rules_ok lib rules" "rule_ok r" "count + length rules < LPM_MAX_RULES" "add_rules lib table rules = Inr table'"
  shows "lpm_load lib ip0 port0 table (concat (map rule_line rules) @ rule_text r) count = None"
  using assms
proof (induction rules arbitrary: table count)
  case Nil
  then show ?case
    using scan_rule_ip [OF assms(2), of "[]"] lpm_port_line(2) [OF assms(2), of "port0 count"]
      scan_blank_dec [of "CHR 0x09 # dec (rule_port r)" "rule_depth r"] no_digit
    by (subst lpm_load.simps) (auto simp: rule_ok_def)
next
  case (Cons r' rules)
  obtain res t where a: "rte_lpm_add lib table (rule_addr lib r') (word_of_nat (rule_depth r')) (word_of_nat (rule_port r')) = (res, t)"
    by fastforce
  have res: "\<not> res < 0" "add_rules lib t rules = Inr table'" using Cons.prems(4) a by (auto split: if_splits)
  have "rules_ok lib rules" "Suc count + length rules < LPM_MAX_RULES" using Cons.prems by (simp_all add: rules_ok_def)
  from Cons.IH [OF this(1) assms(2) this(2) res(2)]
  show ?case using Cons.prems a res lpm_load_line [of r' lib count ip0 port0 table "concat (map rule_line rules) @ rule_text r"]
    by (simp add: rules_ok_def)
qed

section \<open>Longest prefix match\<close>

text \<open>
  What DPDK documents of its tables: a rule covers the addresses that agree with it in the first \<open>depth\<close> bits, a lookup gives the
  next hop of the covering rule of the greatest depth, and a rule added twice has the next hop it was given last.
\<close>

definition covers :: "u32 \<Rightarrow> nat \<Rightarrow> u32 \<Rightarrow> bool" where
  "covers ip depth addr \<longleftrightarrow> drop_bit (32 - depth) ip = drop_bit (32 - depth) addr"

fun longest :: "(u32 \<times> nat \<times> u32) list \<Rightarrow> u32 \<Rightarrow> (nat \<times> u32) option" where
  "longest [] addr = None"
| "longest ((ip, depth, hop) # rs) addr =
     (case longest rs addr of
        Some (l, h) \<Rightarrow> if covers ip depth addr \<and> l < depth then Some (depth, hop) else Some (l, h)
      | None \<Rightarrow> if covers ip depth addr then Some (depth, hop) else None)"

lemma longest_None: "longest rs addr = None \<longleftrightarrow> (\<forall>(ip, d, _) \<in> set rs. \<not> covers ip d addr)"
  by (induction rs) (auto split: option.splits if_splits)

lemma longest_Some:
  "longest rs addr = Some (l, h) \<Longrightarrow>
    (\<exists>ip. (ip, l, h) \<in> set rs \<and> covers ip l addr) \<and> (\<forall>(ip, d, _) \<in> set rs. covers ip d addr \<longrightarrow> d \<le> l)"
proof (induction rs arbitrary: l h)
  case (Cons r rs)
  obtain ip d hop where [simp]: "r = (ip, d, hop)" by (cases r)
  show ?case
  proof (cases "longest rs addr")
    case None
    then have "\<forall>(ip, d, _) \<in> set rs. \<not> covers ip d addr" by (simp add: longest_None)
    then show ?thesis using Cons.prems None by (auto split: if_splits)
  next
    case (Some lh)
    obtain l' h' where lh: "lh = (l', h')" by (cases lh)
    note ih = Cons.IH [of l' h', OF Some [unfolded lh]]
    show ?thesis
    proof (cases "covers ip d addr \<and> l' < d")
      case True
      then show ?thesis using Cons.prems Some lh ih by (auto intro: order_trans [OF _ less_imp_le])
    next
      case False
      then show ?thesis using Cons.prems Some lh ih by auto
    qed
  qed
next
  case Nil
  then show ?case by simp
qed

definition rules_of :: "'l lpm_lib \<Rightarrow> lpm_rule list \<Rightarrow> (u32 \<times> nat \<times> u32) list" where
  "rules_of lib rules = map (\<lambda>r. (rule_addr lib r, rule_depth r, word_of_nat (rule_port r))) rules"

definition lpm_library :: "'l lpm_lib \<Rightarrow> bool" where
  "lpm_library lib \<longleftrightarrow>
     (\<forall>t0 rules t addr. rte_lpm_create lib = Some t0 \<longrightarrow> (\<forall>r \<in> set rules. rule_depth r < 256) \<longrightarrow> add_rules lib t0 rules = Inr t \<longrightarrow>
        rte_lpm_lookup lib t addr = map_option snd (longest (rules_of lib rules) addr))"

lemma lpm_process_ip:
  assumes "mbuf_ok mbuf" "is_ipv4 (mbuf_data mbuf)"
  shows "lpm_core_process lib config lpm mbuf now = do {
     let d = mbuf_data mbuf;
     let dst_device = (ucast (lpm_lookup lib lpm (rte_be_to_cpu_32 (get32 d 30))) :: u8);
     s_addr \<leftarrow> rd (ncfg_device_macs config) (uint dst_device);
     d \<leftarrow> st_bytes d 6 s_addr;
     d_addr \<leftarrow> rd (ncfg_endpoint_macs config) (uint dst_device);
     d \<leftarrow> st_bytes d 0 d_addr;
     Some (uint dst_device, mbuf\<lparr>mbuf_data := d\<rparr>)
   }"
  using assms parsed_headers(1) [OF assms(1)]
  by (simp add: lpm_core_process_def mbuf_ok_def layout ld_in nf_get_mbuf_ether_header_def cong del: bind_weak_cong)

lemma lpm_forwards:
  assumes "mbuf_ok mbuf" "is_ipv4 (mbuf_data mbuf)"
    and "lpm_lookup lib lpm (rte_be_to_cpu_32 (get32 (mbuf_data mbuf) 30)) = ucast dev" "unat (dev :: u16) < 256" "nat_config_ok config dev"
  shows "\<exists>d'. lpm_core_process lib config lpm mbuf now = Some (uint dev, mbuf\<lparr>mbuf_data := d'\<rparr>) \<and> l2_sent config dev (mbuf_data mbuf) d'"
proof -
  let ?s = "ncfg_device_macs config ! unat dev" and ?e = "ncfg_endpoint_macs config ! unat dev"
  let ?d = "put_bytes (put_bytes (mbuf_data mbuf) 6 ?s) 0 ?e"
  have m: "length ?s = 6" "length ?e = 6" "unat dev < length (ncfg_device_macs config)" "unat dev < length (ncfg_endpoint_macs config)"
    using assms(5) by (simp_all add: nat_config_ok_def)
  have len: "12 \<le> length (mbuf_data mbuf)" using assms(1) by (simp add: mbuf_ok_def)
  have "(ucast (ucast dev :: u32) :: u8) = ucast dev" by (rule bit_word_eqI) (auto simp: bit_ucast_iff)
  then have u: "uint (ucast (ucast dev :: u32) :: u8) = uint dev" using arg_cong [OF small_device [OF assms(4)], of int] by simp
  have "lpm_core_process lib config lpm mbuf now = Some (uint dev, mbuf\<lparr>mbuf_data := ?d\<rparr>)"
    using m len rd_mac [OF m(3)] rd_mac [OF m(4)]
    by (simp add: lpm_process_ip [OF assms(1,2)] Let_def assms(3) u st_bytes_def)
  then show ?thesis using put_macs [OF len m(1,2)] by (auto simp: l2_sent_def)
qed

section \<open>An example library\<close>

definition list_lpm :: "(u32 \<times> nat \<times> u32) list lpm_lib" where
  "list_lpm = \<lparr>rte_lpm_create = Some [], rte_lpm_add = \<lambda>t ip depth hop. (0, t @ [(ip, unat depth, hop)]),
     rte_lpm_lookup = \<lambda>t addr. map_option snd (longest t addr),
     inet_pton = \<lambda>s. if s = ''10.0.0.0'' then Some 10 else if s = ''10.1.0.0'' then Some (10 + 256) else None\<rparr>"

lemma list_lpm_add_rules:
  "\<forall>r \<in> set rules. rule_depth r < 256 \<Longrightarrow> add_rules list_lpm t rules = Inr (t @ rules_of list_lpm rules)"
proof (induction rules arbitrary: t)
  case Nil
  then show ?case by (simp add: rules_of_def)
next
  case (Cons r rules)
  then have "unat (word_of_nat (rule_depth r) :: u8) = rule_depth r"
    by (simp add: unsigned_of_nat take_bit_nat_eq_self_iff)
  then show ?case using Cons by (simp add: list_lpm_def rules_of_def)
qed

lemma list_lpm_library: "lpm_library list_lpm"
  using list_lpm_add_rules [of _ "[]"] by (auto simp: lpm_library_def list_lpm_def)

definition example_rules :: "lpm_rule list" where
  "example_rules = [\<lparr>rule_ip = ''10.0.0.0'', rule_depth = 8, rule_port = 0\<rparr>, \<lparr>rule_ip = ''10.1.0.0'', rule_depth = 16, rule_port = 1\<rparr>]"

lemma example_rules_ok: "rules_ok list_lpm example_rules"
  by (auto simp: rules_ok_def example_rules_def list_lpm_def rule_ok_def isspace_def INET_ADDRSTRLEN_def)

text \<open>A packet to the address 10.1.0.7.\<close>

definition example_lpm_packet :: mbuf where
  "example_lpm_packet = \<lparr>mbuf_port = 0, mbuf_data = replicate 12 0 @ [8, 0, 69] @ replicate 15 0 @ [10, 1, 0, 7] @ replicate 20 0\<rparr>"

section \<open>Properties\<close>

text \<open>
  C30. Reading a table that was written one rule to a line gives the rules back: \<open>lpm_init\<close> ends, and adds exactly the rules of
  the file, in their order, to a new table, or stops at the first rule that DPDK refuses.
\<close>

theorem lpm_init_reads_rules:
  assumes "rte_lpm_create lib = Some t0" "rules_ok lib rules" "length rules \<le> LPM_MAX_RULES"
  shows "lpm_init lib ip0 port0 (Some (concat (map rule_line rules))) = Some (Done (add_rules lib t0 rules))"
  using lpm_load_rules [of lib rules 0 ip0 port0 t0] assms by (simp add: lpm_init_def)

theorem lpm_init_reads_rules_witness:
  "lpm_init list_lpm (\<lambda>_. 0) (\<lambda>_. 0) (Some (concat (map rule_line example_rules)))
     = Some (Done (Inr [(0x0A000000, 8, 0), (0x0A010000, 16, 1)]))"
proof -
  have "add_rules list_lpm [] example_rules = Inr [(0x0A000000, 8, 0), (0x0A010000, 16, 1)]" by code_simp
  moreover have "rte_lpm_create list_lpm = Some []" by (simp add: list_lpm_def)
  moreover have "length example_rules \<le> LPM_MAX_RULES" by (simp add: example_rules_def LPM_MAX_RULES_def)
  ultimately show ?thesis using lpm_init_reads_rules [OF _ example_rules_ok, of "[]" "\<lambda>_. 0" "\<lambda>_. 0"] by simp
qed

text \<open>
  C29. With a library that implements longest prefix match, an IPv4 packet goes to the device that the rule of the longest matching
  prefix in the file names, with only its Ethernet addresses changed.
\<close>

theorem lpm_routes_longest_prefix:
  assumes "lpm_library lib" "rte_lpm_create lib = Some t0" "rules_ok lib rules" "length rules \<le> LPM_MAX_RULES"
    and "lpm_init lib ip0 port0 (Some (concat (map rule_line rules))) = Some (Done (Inr t))"
    and "mbuf_ok mbuf" "is_ipv4 (mbuf_data mbuf)"
    and "longest (rules_of lib rules) (rte_be_to_cpu_32 (get32 (mbuf_data mbuf) 30)) = Some (l, ucast (dev :: u16))"
    and "unat dev < 256" "nat_config_ok config dev"
  shows "\<exists>d'. lpm_core_process lib config t mbuf now = Some (uint dev, mbuf\<lparr>mbuf_data := d'\<rparr>) \<and>
    l2_sent config dev (mbuf_data mbuf) d' \<and>
    (\<exists>r \<in> set rules. covers (rule_addr lib r) (rule_depth r) (rte_be_to_cpu_32 (get32 (mbuf_data mbuf) 30)) \<and>
      word_of_nat (rule_port r) = (ucast dev :: u32) \<and>
      (\<forall>r' \<in> set rules. covers (rule_addr lib r') (rule_depth r') (rte_be_to_cpu_32 (get32 (mbuf_data mbuf) 30)) \<longrightarrow>
        rule_depth r' \<le> rule_depth r))"
proof -
  let ?addr = "rte_be_to_cpu_32 (get32 (mbuf_data mbuf) 30)"
  have add: "add_rules lib t0 rules = Inr t"
    using lpm_load_rules [of lib rules 0 ip0 port0 t0] assms(2-5) by (simp add: lpm_init_def)
  have "\<forall>r \<in> set rules. rule_depth r < 256" using assms(3) by (simp add: rules_ok_def rule_ok_def)
  then have "rte_lpm_lookup lib t ?addr = map_option snd (longest (rules_of lib rules) ?addr)"
    using assms(1,2) add unfolding lpm_library_def by blast
  then have "lpm_lookup lib t ?addr = ucast dev" using assms(8) by (simp add: lpm_lookup_def)
  from lpm_forwards [OF assms(6,7) this assms(9,10), of now] longest_Some [OF assms(8)] show ?thesis
    by (fastforce simp: rules_of_def)
qed

theorem lpm_routes_longest_prefix_witness:
  "\<exists>d'. lpm_core_process list_lpm example_router_config [(0x0A000000, 8, 0), (0x0A010000, 16, 1)] example_lpm_packet 3
     = Some (1, example_lpm_packet\<lparr>mbuf_data := d'\<rparr>)"
proof -
  let ?t = "[(0x0A000000, 8, 0), (0x0A010000, 16, 1)] :: (u32 \<times> nat \<times> u32) list"
  have c: "rte_lpm_create list_lpm = Some []" by (simp add: list_lpm_def)
  have n: "length example_rules \<le> LPM_MAX_RULES" by (simp add: example_rules_def LPM_MAX_RULES_def)
  have a: "add_rules list_lpm [] example_rules = Inr ?t" by code_simp
  have i: "lpm_init list_lpm (\<lambda>_. 0) (\<lambda>_. 0) (Some (concat (map rule_line example_rules))) = Some (Done (Inr ?t))"
    using lpm_load_rules [OF example_rules_ok, of 0 "\<lambda>_. 0" "\<lambda>_. 0" "[]"] n a c by (simp add: lpm_init_def)
  have p: "mbuf_ok example_lpm_packet" "is_ipv4 (mbuf_data example_lpm_packet)"
    by (simp_all add: example_lpm_packet_def mbuf_ok_def is_ipv4_def get16_def nth_append)
  have l: "longest (rules_of list_lpm example_rules) (rte_be_to_cpu_32 (get32 (mbuf_data example_lpm_packet) 30)) = Some (16, ucast (1 :: u16))"
    by code_simp
  have cfg: "nat_config_ok example_router_config 1" by (simp add: nat_config_ok_def example_router_config_def)
  from lpm_routes_longest_prefix [OF list_lpm_library c example_rules_ok n i p l _ cfg, of 3] show ?thesis by auto
qed

text \<open>
  A file whose last line is not ended stops the start of the program: the loop that skips the rest of the line waits for a newline
  and does not notice the end of the file.
\<close>

lemma lpm_init_unfinished_line_hangs:
  assumes "rte_lpm_create lib = Some t0" "rules_ok lib rules" "rule_ok r" "length rules < LPM_MAX_RULES"
    and "add_rules lib t0 rules = Inr t"
  shows "lpm_init lib ip0 port0 (Some (concat (map rule_line rules) @ rule_text r)) = None"
  using lpm_load_unfinished [of lib rules r 0 t0 t ip0 port0] assms by (simp add: lpm_init_def)

text \<open>
  A packet without a route is not dropped: the device is then 255, the low byte of minus one, and the Ethernet addresses are
  read outside the arrays of the configuration.
\<close>

lemma lpm_no_route_out_of_bounds:
  assumes "mbuf_ok mbuf" "is_ipv4 (mbuf_data mbuf)"
    and "rte_lpm_lookup lib lpm (rte_be_to_cpu_32 (get32 (mbuf_data mbuf) 30)) = None" "length (ncfg_device_macs config) \<le> 255"
  shows "lpm_core_process lib config lpm mbuf now = None"
proof -
  have "uint (ucast (- 1 :: u32) :: u8) = 255" by code_simp
  then show ?thesis
    using assms(3,4) by (simp add: lpm_process_ip [OF assms(1,2)] lpm_lookup_def Let_def rd_out)
qed

end
