(* ===== verification/XdpFw.thy ===== *)
theory XdpFw
  imports NfUtil
begin

text \<open>
  The firewall for XDP of \<open>ebpf-nfs/fw\<close> (\<open>xdp_fw_kern.h\<close>). The program runs in the kernel and keeps its flows in a hash
  map of the kernel, which is not part of the sources: its operations are parameters, bundled in the record \<open>bpf_map\<close>, and
  \<open>bpf_hash_map\<close> states what is documented about them. A packet is the list of its bytes between \<open>data\<close> and \<open>data_end\<close>.
\<close>

section \<open>Maps of the kernel\<close>

record ('k, 'v, 'm) bpf_map =
  bpf_map_lookup_elem :: "'m \<Rightarrow> 'k \<Rightarrow> 'v option"
  bpf_map_update_elem :: "'m \<Rightarrow> 'k \<Rightarrow> 'v \<Rightarrow> int \<times> 'm"

definition bpf_hash_map :: "nat \<Rightarrow> ('k, 'v, 'm) bpf_map \<Rightarrow> bool" where
  "bpf_hash_map max_entries bpf \<longleftrightarrow>
     (\<forall>m k v m'. bpf_map_update_elem bpf m k v = (0, m') \<longrightarrow> bpf_map_lookup_elem bpf m' = (bpf_map_lookup_elem bpf m)(k \<mapsto> v)) \<and>
     (\<forall>m k v r m'. bpf_map_update_elem bpf m k v = (r, m') \<longrightarrow> r \<noteq> 0 \<longrightarrow> bpf_map_lookup_elem bpf m' = bpf_map_lookup_elem bpf m) \<and>
     (\<forall>m k v. finite (dom (bpf_map_lookup_elem bpf m)) \<longrightarrow> card (dom (bpf_map_lookup_elem bpf m)) < max_entries \<longrightarrow>
        fst (bpf_map_update_elem bpf m k v) = 0)"

text \<open>\<open>Redirect_map k\<close> is the result of \<open>bpf_redirect_map(&tx_port, k, 0)\<close>.\<close>

datatype xdp_action = XDP_ABORTED | XDP_DROP | XDP_PASS | XDP_TX | Redirect_map int

section \<open>The code\<close>

definition A_PORT :: int where "A_PORT = 6"
definition B_PORT :: int where "B_PORT = 7"
definition BE_ETH_P_IP :: u16 where "BE_ETH_P_IP = 8"
definition sizeof_udphdr :: nat where "sizeof_udphdr = 8"

record flow_ctx_table_key =
  ip_proto :: u16
  l4_src :: u16
  l4_dst :: u16
  ip_src :: u32
  ip_dst :: u32

record flow_ctx_table_leaf =
  out_port :: u8
  in_port :: u16

definition biflow :: "flow_ctx_table_key \<Rightarrow> flow_ctx_table_key" where
  "biflow flow_key =
     (let flow_key = (if ip_src flow_key > ip_dst flow_key
            then flow_key\<lparr>ip_src := ip_dst flow_key, ip_dst := ip_src flow_key\<rparr> else flow_key)
      in if l4_src flow_key > l4_dst flow_key
         then flow_key\<lparr>l4_src := l4_dst flow_key, l4_dst := l4_src flow_key\<rparr> else flow_key)"

definition xdp_fw_prog ::
  "(flow_ctx_table_key, flow_ctx_table_leaf, 'm) bpf_map \<Rightarrow> 'm \<Rightarrow> u8 list \<Rightarrow> int \<Rightarrow> (xdp_action \<times> 'm) option" where
  "xdp_fw_prog bpf flow_ctx_table data ingress_ifindex =
     (let nh_off = sizeof_ether_hdr in
      if nh_off > length data then Some (XDP_DROP, flow_ctx_table)
      else do {
        h_proto \<leftarrow> ld16 data ether_type;
        if h_proto \<noteq> BE_ETH_P_IP then Some (XDP_DROP, flow_ctx_table)
        else do {
          let ip = nh_off;
          let nh_off = nh_off + sizeof_ipv4_hdr;
          if nh_off > length data then Some (XDP_DROP, flow_ctx_table)
          else do {
            protocol \<leftarrow> ld8 data (ip + next_proto_id);
            if protocol \<noteq> IPPROTO_TCP \<and> protocol \<noteq> IPPROTO_UDP then Some (XDP_DROP, flow_ctx_table)
            else do {
              let l4 = nh_off;
              let nh_off = nh_off + sizeof_udphdr;
              if nh_off > length data then Some (XDP_DROP, flow_ctx_table)
              else do {
                saddr \<leftarrow> ld32 data (ip + src_addr);
                daddr \<leftarrow> ld32 data (ip + dst_addr);
                source \<leftarrow> ld16 data (l4 + tcpudp_src_port);
                dest \<leftarrow> ld16 data (l4 + tcpudp_dst_port);
                let flow_key = biflow \<lparr>ip_proto = ucast protocol, l4_src = source, l4_dst = dest, ip_src = saddr, ip_dst = daddr\<rparr>;
                let flow_leaf = bpf_map_lookup_elem bpf flow_ctx_table flow_key;
                if ingress_ifindex = B_PORT then
                  (case flow_leaf of
                     Some leaf \<Rightarrow> Some (Redirect_map (uint (out_port leaf)), flow_ctx_table)
                   | None \<Rightarrow> Some (XDP_DROP, flow_ctx_table))
                else do {
                  let flow_ctx_table =
                    (case flow_leaf of
                       None \<Rightarrow> snd (bpf_map_update_elem bpf flow_ctx_table flow_key
                         \<lparr>out_port = word_of_int A_PORT, in_port = word_of_int B_PORT\<rparr>)
                     | Some leaf \<Rightarrow> flow_ctx_table);
                  Some (Redirect_map B_PORT, flow_ctx_table)
                }
              }
            }
          }
        }
      })"

section \<open>What the program does\<close>

text \<open>The packets that have a flow, and the flow as it stands in the packet.\<close>

definition has_flow :: "u8 list \<Rightarrow> bool" where
  "has_flow d \<longleftrightarrow> 42 \<le> length d \<and> get16 d 12 = 8 \<and> (d ! 23 = 6 \<or> d ! 23 = 17)"

definition packet_flow :: "u8 list \<Rightarrow> flow_ctx_table_key" where
  "packet_flow d = \<lparr>ip_proto = ucast (d ! 23), l4_src = get16 d 34, l4_dst = get16 d 36, ip_src = get32 d 26, ip_dst = get32 d 30\<rparr>"

definition answer_to :: "flow_ctx_table_key \<Rightarrow> flow_ctx_table_key" where
  "answer_to k = k\<lparr>l4_src := l4_dst k, l4_dst := l4_src k, ip_src := ip_dst k, ip_dst := ip_src k\<rparr>"

text \<open>Flows with the same protocol, the same two addresses and the same two ports, each pair in either order.\<close>

definition related :: "flow_ctx_table_key \<Rightarrow> flow_ctx_table_key \<Rightarrow> bool" where
  "related k k' \<longleftrightarrow> ip_proto k = ip_proto k' \<and> {ip_src k, ip_dst k} = {ip_src k', ip_dst k'} \<and> {l4_src k, l4_dst k} = {l4_src k', l4_dst k'}"

definition open_leaf :: flow_ctx_table_leaf where
  "open_leaf = \<lparr>out_port = word_of_int A_PORT, in_port = word_of_int B_PORT\<rparr>"

lemma xdp_fw_no_flow: "\<not> has_flow d \<Longrightarrow> xdp_fw_prog bpf t d dev = Some (XDP_DROP, t)"
  by (auto simp: xdp_fw_prog_def has_flow_def layout ld_in ld8_def BE_ETH_P_IP_def IPPROTO_TCP_def IPPROTO_UDP_def sizeof_udphdr_def Let_def)

lemma xdp_fw_flow:
  "has_flow d \<Longrightarrow> xdp_fw_prog bpf t d dev = Some
     (let leaf = bpf_map_lookup_elem bpf t (biflow (packet_flow d)) in
      if dev = B_PORT then (case leaf of Some l \<Rightarrow> Redirect_map (uint (out_port l)) | None \<Rightarrow> XDP_DROP, t)
      else (Redirect_map B_PORT, case leaf of None \<Rightarrow> snd (bpf_map_update_elem bpf t (biflow (packet_flow d)) open_leaf) | Some _ \<Rightarrow> t))"
  by (auto simp: xdp_fw_prog_def has_flow_def packet_flow_def open_leaf_def layout ld_in ld8_def BE_ETH_P_IP_def IPPROTO_TCP_def
      IPPROTO_UDP_def sizeof_udphdr_def Let_def split: option.split)

lemma biflow_eq_iff:
  "biflow k = biflow k' \<longleftrightarrow> ip_proto k = ip_proto k' \<and>
     (ip_src k = ip_src k' \<and> ip_dst k = ip_dst k' \<or> ip_src k = ip_dst k' \<and> ip_dst k = ip_src k') \<and>
     (l4_src k = l4_src k' \<and> l4_dst k = l4_dst k' \<or> l4_src k = l4_dst k' \<and> l4_dst k = l4_src k')"
  by (cases k, cases k') (auto simp: biflow_def Let_def)

text \<open>The program on one packet after the other; a packet is given with the device on which it comes in.\<close>

fun xdp_fw_run ::
  "(flow_ctx_table_key, flow_ctx_table_leaf, 'm) bpf_map \<Rightarrow> 'm \<Rightarrow> (int \<times> u8 list) list \<Rightarrow> (xdp_action list \<times> 'm) option" where
  "xdp_fw_run bpf t [] = Some ([], t)"
| "xdp_fw_run bpf t ((dev, d) # ps) = do {
     (a, t) \<leftarrow> xdp_fw_prog bpf t d dev;
     (as, t) \<leftarrow> xdp_fw_run bpf t ps;
     Some (a # as, t)
   }"

lemma xdp_fw_prog_returns: obtains a t' where "xdp_fw_prog bpf t d dev = Some (a, t')"
proof -
  have "\<exists>r. xdp_fw_prog bpf t d dev = Some r" by (cases "has_flow d") (simp_all add: xdp_fw_no_flow xdp_fw_flow)
  then show thesis using that by (metis surj_pair)
qed

lemma xdp_fw_run_returns: "\<exists>as t'. xdp_fw_run bpf t ps = Some (as, t')"
proof (induction ps arbitrary: t)
  case (Cons p ps)
  obtain dev d where p: "p = (dev, d)" by (cases p)
  obtain a t1 where 1: "xdp_fw_prog bpf t d dev = Some (a, t1)" by (rule xdp_fw_prog_returns)
  obtain as t2 where "xdp_fw_run bpf t1 ps = Some (as, t2)" using Cons by blast
  then show ?case using 1 by (simp add: p)
qed simp

text \<open>The flows that packets from inside have opened.\<close>

definition opened :: "(int \<times> u8 list) list \<Rightarrow> flow_ctx_table_key set" where
  "opened ps = (\<lambda>(dev, d). biflow (packet_flow d)) ` {(dev, d) \<in> set ps. dev \<noteq> B_PORT \<and> has_flow d}"

lemma opened_simps [simp]:
  "opened [] = {}"
  "opened ((dev, d) # ps) = (if dev \<noteq> B_PORT \<and> has_flow d then insert (biflow (packet_flow d)) (opened ps) else opened ps)"
  "opened (ps @ qs) = opened ps \<union> opened qs"
  by (auto simp: opened_def)

lemma opened_finite [simp]: "finite (opened ps)"
  by (induction ps) (auto split: prod.splits)

lemma bpf_hash_mapD:
  assumes "bpf_hash_map n bpf"
  shows "bpf_map_lookup_elem bpf (snd (bpf_map_update_elem bpf m k v)) \<in> {bpf_map_lookup_elem bpf m, (bpf_map_lookup_elem bpf m)(k \<mapsto> v)}"
    and "finite (dom (bpf_map_lookup_elem bpf m)) \<Longrightarrow> card (dom (bpf_map_lookup_elem bpf m)) < n \<Longrightarrow>
      bpf_map_lookup_elem bpf (snd (bpf_map_update_elem bpf m k v)) = (bpf_map_lookup_elem bpf m)(k \<mapsto> v)"
proof -
  obtain r m' where u: "bpf_map_update_elem bpf m k v = (r, m')" by (cases "bpf_map_update_elem bpf m k v")
  show "bpf_map_lookup_elem bpf (snd (bpf_map_update_elem bpf m k v)) \<in> {bpf_map_lookup_elem bpf m, (bpf_map_lookup_elem bpf m)(k \<mapsto> v)}"
    using assms u unfolding bpf_hash_map_def by (cases "r = 0") simp_all
  show "bpf_map_lookup_elem bpf (snd (bpf_map_update_elem bpf m k v)) = (bpf_map_lookup_elem bpf m)(k \<mapsto> v)"
    if "finite (dom (bpf_map_lookup_elem bpf m))" "card (dom (bpf_map_lookup_elem bpf m)) < n"
  proof -
    have "r = 0" using assms u that unfolding bpf_hash_map_def by (metis fst_conv)
    then show ?thesis using assms u unfolding bpf_hash_map_def by simp
  qed
qed

text \<open>The table holds flows that were opened, and all of them as long as there is room.\<close>

definition fw_table :: "('k, flow_ctx_table_leaf, 'm) bpf_map \<Rightarrow> 'm \<Rightarrow> 'k set \<Rightarrow> bool" where
  "fw_table bpf t S \<longleftrightarrow> (\<forall>k l. bpf_map_lookup_elem bpf t k = Some l \<longrightarrow> k \<in> S \<and> l = open_leaf)"

lemma fw_table_step:
  assumes "bpf_hash_map n bpf" "fw_table bpf t S" "xdp_fw_prog bpf t d dev = Some (a, t')"
  shows "fw_table bpf t' (S \<union> opened [(dev, d)])"
    and "finite S \<Longrightarrow> card (S \<union> opened [(dev, d)]) \<le> n \<Longrightarrow> dom (bpf_map_lookup_elem bpf t) = S \<Longrightarrow>
      dom (bpf_map_lookup_elem bpf t') = S \<union> opened [(dev, d)]"
proof -
  let ?k = "biflow (packet_flow d)"
  have new: "has_flow d \<Longrightarrow> dev \<noteq> B_PORT \<Longrightarrow> bpf_map_lookup_elem bpf t ?k = None \<Longrightarrow> t' = snd (bpf_map_update_elem bpf t ?k open_leaf)"
    and old: "\<not> (has_flow d \<and> dev \<noteq> B_PORT \<and> bpf_map_lookup_elem bpf t ?k = None) \<Longrightarrow> t' = t"
    using assms(3) by (cases "has_flow d"; auto simp: xdp_fw_no_flow xdp_fw_flow Let_def split: if_splits option.splits)+
  show "fw_table bpf t' (S \<union> opened [(dev, d)])"
  proof (cases "has_flow d \<and> dev \<noteq> B_PORT \<and> bpf_map_lookup_elem bpf t ?k = None")
    case True
    with bpf_hash_mapD(1) [OF assms(1), of t ?k open_leaf] new assms(2) show ?thesis
      by (auto simp: fw_table_def split: if_splits)
  qed (use old assms(2) in \<open>auto simp: fw_table_def\<close>)
  show "dom (bpf_map_lookup_elem bpf t') = S \<union> opened [(dev, d)]"
    if "finite S" "card (S \<union> opened [(dev, d)]) \<le> n" "dom (bpf_map_lookup_elem bpf t) = S"
  proof (cases "has_flow d \<and> dev \<noteq> B_PORT \<and> bpf_map_lookup_elem bpf t ?k = None")
    case True
    then have "?k \<notin> S" using that(3) by blast
    then have "card S < n" using that(1,2) True by simp
    with bpf_hash_mapD(2) [OF assms(1), of t ?k open_leaf] new True that show ?thesis by simp
  qed (use old that in \<open>auto split: if_splits\<close>)
qed

lemma fw_table_run:
  assumes "bpf_hash_map n bpf" "fw_table bpf t S" "xdp_fw_run bpf t ps = Some (as, t')"
  shows "fw_table bpf t' (S \<union> opened ps)"
    and "finite S \<Longrightarrow> card (S \<union> opened ps) \<le> n \<Longrightarrow> dom (bpf_map_lookup_elem bpf t) = S \<Longrightarrow>
      dom (bpf_map_lookup_elem bpf t') = S \<union> opened ps"
  using assms(2,3)
proof (induction ps arbitrary: t S as)
  case (Cons p ps)
  obtain dev d where p: "p = (dev, d)" by (cases p)
  have un: "S \<union> opened (p # ps) = (S \<union> opened [(dev, d)]) \<union> opened ps" for S by (auto simp: p)
  {
    fix t S as assume a: "fw_table bpf t S" "xdp_fw_run bpf t (p # ps) = Some (as, t')"
    then obtain a t1 as' where 1: "xdp_fw_prog bpf t d dev = Some (a, t1)" "xdp_fw_run bpf t1 ps = Some (as', t')"
      by (auto simp: p bind_eq_Some_conv)
    have "\<exists>a t1 as'. xdp_fw_prog bpf t d dev = Some (a, t1) \<and> xdp_fw_run bpf t1 ps = Some (as', t') \<and>
        fw_table bpf t1 (S \<union> opened [(dev, d)])"
      using 1 fw_table_step(1) [OF assms(1) a(1) 1(1)] by blast
  } note step = this
  { case 1
    then show ?case using step Cons.IH(1) unfolding un by blast
  next
    case 2
    obtain a t1 as' where r: "xdp_fw_prog bpf t d dev = Some (a, t1)" "xdp_fw_run bpf t1 ps = Some (as', t')"
      "fw_table bpf t1 (S \<union> opened [(dev, d)])" using step [OF 2(4,5)] by blast
    have "card (S \<union> opened [(dev, d)]) \<le> card (S \<union> opened (p # ps))"
      using 2(1) by (intro card_mono) (auto simp: un)
    then have "dom (bpf_map_lookup_elem bpf t1) = S \<union> opened [(dev, d)]"
      using fw_table_step(2) [OF assms(1) 2(4) r(1) 2(1) _ 2(3)] 2(2) by linarith
    then show ?case using Cons.IH(2) [OF _ _ _ r(3,2)] 2(1,2) unfolding un by auto
  }
qed auto

lemma open_leaf_port: "uint (out_port open_leaf) = A_PORT"
  by (simp add: open_leaf_def A_PORT_def)

lemma xdp_fw_outside:
  assumes "bpf_hash_map n bpf" "\<forall>k. bpf_map_lookup_elem bpf t0 k = None" "xdp_fw_run bpf t0 ps = Some (as, t)"
  shows "xdp_fw_prog bpf t d B_PORT = Some
      (if has_flow d \<and> biflow (packet_flow d) \<in> dom (bpf_map_lookup_elem bpf t) then Redirect_map A_PORT else XDP_DROP, t)"
    and "dom (bpf_map_lookup_elem bpf t) \<subseteq> opened ps"
    and "card (opened ps) \<le> n \<Longrightarrow> dom (bpf_map_lookup_elem bpf t) = opened ps"
proof -
  have 0: "fw_table bpf t0 {}" "dom (bpf_map_lookup_elem bpf t0) = {}" using assms(2) by (auto simp: fw_table_def)
  have t: "fw_table bpf t (opened ps)" using fw_table_run(1) [OF assms(1) 0(1) assms(3)] by simp
  then show "dom (bpf_map_lookup_elem bpf t) \<subseteq> opened ps" by (auto simp: fw_table_def)
  show "dom (bpf_map_lookup_elem bpf t) = opened ps" if "card (opened ps) \<le> n"
    using fw_table_run(2) [OF assms(1) 0(1) assms(3)] that 0(2) by simp
  show "xdp_fw_prog bpf t d B_PORT = Some
      (if has_flow d \<and> biflow (packet_flow d) \<in> dom (bpf_map_lookup_elem bpf t) then Redirect_map A_PORT else XDP_DROP, t)"
    using open_leaf_port t by (cases "has_flow d") (auto simp: xdp_fw_no_flow xdp_fw_flow fw_table_def Let_def split: option.split)
qed

section \<open>An example map\<close>

definition list_bpf :: "nat \<Rightarrow> ('k, 'v, ('k \<times> 'v) list) bpf_map" where
  "list_bpf n = \<lparr>bpf_map_lookup_elem = map_of,
     bpf_map_update_elem = \<lambda>m k v. if length (remdups (map fst m)) < n \<or> k \<in> set (map fst m) then (0, (k, v) # m) else (-7, m)\<rparr>"

lemma list_bpf_hash_map: "bpf_hash_map n (list_bpf n)"
  by (auto simp: bpf_hash_map_def list_bpf_def dom_map_of_conv_image_fst length_remdups_card_conv fun_eq_iff split: if_splits)

text \<open>A UDP packet from host \<open>src\<close> to host \<open>dst\<close>.\<close>

definition example_udp :: "u8 \<Rightarrow> u8 \<Rightarrow> u8 \<Rightarrow> u8 \<Rightarrow> u8 list" where
  "example_udp src dst sport dport = replicate 12 0 @ [8, 0, 69] @ replicate 8 0 @ [17, 0, 0, 10, 0, 0, src, 10, 0, 0, dst, 0, sport, 0, dport] @ replicate 4 0"

lemma example_udp_flow: "has_flow (example_udp a b p q)"
  by (simp add: has_flow_def example_udp_def get16_def nth_append)

section \<open>Properties\<close>

text \<open>
  C26. The checks against \<open>data_end\<close> are enough: on no sequence of packets, of whatever length and contents, and with no behaviour of
  the map does the program read outside a packet.
\<close>

theorem xdp_fw_memory_safe: "\<exists>as t'. xdp_fw_run bpf t ps = Some (as, t') \<and> length as = length ps"
proof -
  obtain as t' where r: "xdp_fw_run bpf t ps = Some (as, t')" using xdp_fw_run_returns [of bpf t ps] by blast
  then have "length as = length ps"
    by (induction bpf t ps arbitrary: as rule: xdp_fw_run.induct) (auto simp: bind_eq_Some_conv)
  then show ?thesis using r by blast
qed

text \<open>
  C25. A packet from outside enters only if an earlier packet from inside had the same protocol, the same two addresses and the same
  two ports, in either order each; as long as the map has room for all flows, exactly then.
\<close>

theorem xdp_fw_admits:
  assumes "bpf_hash_map n bpf" "\<forall>k. bpf_map_lookup_elem bpf t0 k = None" "xdp_fw_run bpf t0 ps = Some (as, t)"
  shows "\<exists>a. xdp_fw_prog bpf t d B_PORT = Some (a, t) \<and> (a = XDP_DROP \<or> a = Redirect_map A_PORT) \<and>
    (a = Redirect_map A_PORT \<longrightarrow> has_flow d \<and> (\<exists>(dev, d') \<in> set ps. dev \<noteq> B_PORT \<and> has_flow d' \<and> related (packet_flow d) (packet_flow d'))) \<and>
    (card (opened ps) \<le> n \<longrightarrow> has_flow d \<longrightarrow> (\<exists>(dev, d') \<in> set ps. dev \<noteq> B_PORT \<and> has_flow d' \<and> related (packet_flow d) (packet_flow d')) \<longrightarrow>
      a = Redirect_map A_PORT)"
proof -
  have rel: "biflow k = biflow k' \<longleftrightarrow> related k k'" for k k'
    by (auto simp: biflow_eq_iff related_def doubleton_eq_iff)
  have "biflow (packet_flow d) \<in> opened ps \<longleftrightarrow>
      (\<exists>(dev, d') \<in> set ps. dev \<noteq> B_PORT \<and> has_flow d' \<and> related (packet_flow d) (packet_flow d'))"
    by (fastforce simp: opened_def rel [symmetric])
  then show ?thesis using xdp_fw_outside(1) [OF assms(1-3), of d] xdp_fw_outside(2,3) [OF assms(1-3)] by auto
qed

theorem xdp_fw_admits_witness:
  "\<exists>as t. xdp_fw_run (list_bpf 4) [] [(A_PORT, example_udp 1 2 3 4)] = Some (as, t) \<and>
     xdp_fw_prog (list_bpf 4) t (example_udp 2 1 4 3) B_PORT = Some (Redirect_map A_PORT, t)"
proof -
  obtain as t where r: "xdp_fw_run (list_bpf 4) [] [(A_PORT, example_udp 1 2 3 4)] = Some (as, t)"
    using xdp_fw_run_returns [of "list_bpf 4" "[]" "[(A_PORT, example_udp 1 2 3 4)]"] by blast
  have k: "packet_flow (example_udp 2 1 4 3) = answer_to (packet_flow (example_udp 1 2 3 4))"
    by (simp add: packet_flow_def answer_to_def example_udp_def get16_def get32_def nth_append)
  have "\<forall>k. bpf_map_lookup_elem (list_bpf 4) [] k = None" by (simp add: list_bpf_def)
  moreover have "card (opened [(A_PORT, example_udp 1 2 3 4)]) \<le> 4" by (simp add: A_PORT_def B_PORT_def example_udp_flow)
  moreover have "A_PORT \<noteq> B_PORT" by (simp add: A_PORT_def B_PORT_def)
  ultimately have "xdp_fw_prog (list_bpf 4) t (example_udp 2 1 4 3) B_PORT = Some (Redirect_map A_PORT, t)"
    using xdp_fw_admits [OF list_bpf_hash_map _ r, of "example_udp 2 1 4 3"]
    by (auto simp: example_udp_flow k answer_to_def related_def)
  then show ?thesis using r by blast
qed

text \<open>
  C33. The firewall lets in packets that answer nothing: addresses and ports are put in order one without the other, so a packet to
  which addresses are exchanged but ports are not is taken for an answer.
\<close>

theorem xdp_fw_stranger_enters:
  assumes "bpf_hash_map n bpf" "0 < n" "\<forall>k. bpf_map_lookup_elem bpf t0 k = None" "has_flow d" "dev \<noteq> B_PORT"
    and "xdp_fw_run bpf t0 [(dev, d)] = Some (as, t)" "has_flow d'"
    and "packet_flow d' = (packet_flow d)\<lparr>ip_src := ip_dst (packet_flow d), ip_dst := ip_src (packet_flow d)\<rparr>"
    and "l4_src (packet_flow d) \<noteq> l4_dst (packet_flow d)"
  shows "packet_flow d' \<noteq> answer_to (packet_flow d) \<and> xdp_fw_prog bpf t d' B_PORT = Some (Redirect_map A_PORT, t)"
proof -
  have "card (opened [(dev, d)]) \<le> n" using assms(2,4,5) by simp
  moreover have "biflow (packet_flow d') = biflow (packet_flow d)" by (auto simp: assms(8) biflow_eq_iff)
  ultimately have "xdp_fw_prog bpf t d' B_PORT = Some (Redirect_map A_PORT, t)"
    using xdp_fw_outside(1) [OF assms(1,3,6), of d'] xdp_fw_outside(3) [OF assms(1,3,6)] assms(4,5,7) by simp
  moreover have "packet_flow d' \<noteq> answer_to (packet_flow d)"
    using assms(9) by (cases "packet_flow d") (auto simp: assms(8) answer_to_def)
  ultimately show ?thesis by blast
qed

theorem xdp_fw_stranger_enters_witness:
  "\<exists>as t. xdp_fw_run (list_bpf 4) [] [(A_PORT, example_udp 1 2 3 4)] = Some (as, t) \<and>
     packet_flow (example_udp 2 1 3 4) \<noteq> answer_to (packet_flow (example_udp 1 2 3 4)) \<and>
     xdp_fw_prog (list_bpf 4) t (example_udp 2 1 3 4) B_PORT = Some (Redirect_map A_PORT, t)"
proof -
  let ?d = "example_udp 1 2 3 4" and ?d' = "example_udp 2 1 3 4"
  obtain as t where r: "xdp_fw_run (list_bpf 4) [] [(A_PORT, ?d)] = Some (as, t)"
    using xdp_fw_run_returns [of "list_bpf 4" "[]" "[(A_PORT, ?d)]"] by blast
  have k: "packet_flow ?d' = (packet_flow ?d)\<lparr>ip_src := ip_dst (packet_flow ?d), ip_dst := ip_src (packet_flow ?d)\<rparr>"
    "l4_src (packet_flow ?d) \<noteq> l4_dst (packet_flow ?d)"
    by (simp_all add: packet_flow_def example_udp_def get16_def get32_def nth_append)
  have "\<forall>k. bpf_map_lookup_elem (list_bpf 4) [] k = None" by (simp add: list_bpf_def)
  moreover have "A_PORT \<noteq> B_PORT" by (simp add: A_PORT_def B_PORT_def)
  ultimately show ?thesis
    using xdp_fw_stranger_enters [OF list_bpf_hash_map _ _ example_udp_flow _ r example_udp_flow k] r by auto
qed

end
