(* ===== verification/XdpCrab.thy ===== *)
theory XdpCrab
  imports XdpFw
begin

text \<open>
  The load balancer for XDP of \<open>ebpf-nfs/crab\<close> (\<open>lb_kern.c\<close>, \<open>lb_kern.h\<close>) and the parsers it uses
  (\<open>ebpf-nfs/common/parsing_helpers.h\<close>). It sends the SYN packet of a TCP connection to one of its targets, with the address of
  the balancer in a new TCP option. The helper functions of the kernel are parameters, bundled in the record \<open>crab_helpers\<close>;
  the maps are given by what \<open>bpf_map_lookup_elem\<close> returns for each key.
\<close>

section \<open>Parsing\<close>

definition st8 :: "u8 list \<Rightarrow> nat \<Rightarrow> u8 \<Rightarrow> u8 list option" where
  "st8 d i b = (if i < length d then Some (d[i := b]) else None)"

definition bpf_htons :: "u16 \<Rightarrow> u16" where
  "bpf_htons w = or (push_bit 8 w) (drop_bit 8 w)"

definition ETH_P_IP :: u16 where "ETH_P_IP = 0x0800"
definition ETH_P_8021Q :: u16 where "ETH_P_8021Q = 0x8100"
definition ETH_P_8021AD :: u16 where "ETH_P_8021AD = 0x88A8"
definition VLAN_MAX_DEPTH :: nat where "VLAN_MAX_DEPTH = 4"
definition sizeof_vlan_hdr :: nat where "sizeof_vlan_hdr = 4"
definition sizeof_tcphdr :: nat where "sizeof_tcphdr = 20"

definition proto_is_vlan :: "u16 \<Rightarrow> bool" where
  "proto_is_vlan h_proto \<longleftrightarrow> h_proto = bpf_htons ETH_P_8021Q \<or> h_proto = bpf_htons ETH_P_8021AD"

text \<open>The loop over the VLAN tags, with the number of rounds left: the protocol and the position after the tags.\<close>

fun skip_vlan :: "u8 list \<Rightarrow> nat \<Rightarrow> u16 \<Rightarrow> nat \<Rightarrow> (u16 \<times> nat) option" where
  "skip_vlan d vlh h_proto 0 = Some (h_proto, vlh)"
| "skip_vlan d vlh h_proto (Suc n) =
     (if \<not> proto_is_vlan h_proto then Some (h_proto, vlh)
      else if vlh + sizeof_vlan_hdr > length d then Some (h_proto, vlh)
      else do {
        h_proto \<leftarrow> ld16 d (vlh + 2);
        skip_vlan d (vlh + sizeof_vlan_hdr) h_proto n
      })"

text \<open>
  A parser takes the position of the cursor and returns the result of the code together with the new position and the position of
  the header; \<open>Inl pos\<close> is the result \<open>-1\<close>, with the position unchanged and no header.
\<close>

definition parse_ethhdr :: "u8 list \<Rightarrow> nat \<Rightarrow> (nat + int \<times> nat \<times> nat) option" where
  "parse_ethhdr d pos =
     (if pos + sizeof_ether_hdr > length d then Some (Inl pos)
      else do {
        h_proto \<leftarrow> ld16 d (pos + ether_type);
        (h_proto, vlh) \<leftarrow> skip_vlan d (pos + sizeof_ether_hdr) h_proto VLAN_MAX_DEPTH;
        Some (Inr (uint h_proto, vlh, pos))
      })"

definition parse_iphdr :: "u8 list \<Rightarrow> nat \<Rightarrow> (nat + int \<times> nat \<times> nat) option" where
  "parse_iphdr d pos =
     (if pos + sizeof_ipv4_hdr > length d then Some (Inl pos)
      else do {
        v \<leftarrow> ld8 d (pos + version_ihl);
        let hdrsize = ihl v * 4;
        if hdrsize < sizeof_ipv4_hdr then Some (Inl pos)
        else if pos + hdrsize > length d then Some (Inl pos)
        else do {
          protocol \<leftarrow> ld8 d (pos + next_proto_id);
          Some (Inr (uint protocol, pos + hdrsize, pos))
        }
      })"

definition parse_tcphdr :: "u8 list \<Rightarrow> nat \<Rightarrow> (nat + int \<times> nat \<times> nat) option" where
  "parse_tcphdr d pos =
     (if pos + sizeof_tcphdr > length d then Some (Inl pos)
      else do {
        b \<leftarrow> ld8 d (pos + 12);
        let len = unat (drop_bit 4 b) * 4;
        if len < sizeof_tcphdr then Some (Inl pos)
        else if pos + len > length d then Some (Inl pos)
        else Some (Inr (int len, pos + len, pos))
      })"

section \<open>The balancer\<close>

definition MAX_OPT_WORDS :: nat where "MAX_OPT_WORDS = 10"
definition REDIR_OPT_TYPE :: u8 where "REDIR_OPT_TYPE = 42"
definition sizeof_redir_opt :: nat where "sizeof_redir_opt = 8"

record crab_maps =
  targets_map :: "u32 \<Rightarrow> u32 option"
  macs_map :: "u32 \<Rightarrow> u8 list option"
  targets_count :: "u32 option"
  cpu_rr_idx :: "u32 option"

text \<open>
  \<open>bpf_xdp_adjust_head d delta\<close> is the packet after the call, \<open>None\<close> if it fails; \<open>bpf_csum_diff to seed\<close> is the call with an
  empty \<open>from\<close>, as the code makes it, with its result as it is stored in a \<open>__u32\<close>.
\<close>

record crab_helpers =
  bpf_xdp_adjust_head :: "u8 list \<Rightarrow> int \<Rightarrow> u8 list option"
  bpf_csum_diff :: "u8 list \<Rightarrow> u32 \<Rightarrow> u32"

definition csum_fold :: "u32 \<Rightarrow> u32" where
  "csum_fold csum = drop_bit 16 (and csum 0xFFFF0000) + and csum 0xFFFF"

definition csum_reduce_helper :: "u32 \<Rightarrow> u16" where
  "csum_reduce_helper csum = ucast (csum_fold (csum_fold csum))"

text \<open>A remainder by zero is undefined: it goes wrong.\<close>

definition get_target_idx_rr :: "crab_maps \<Rightarrow> (u32 \<times> crab_maps) option" where
  "get_target_idx_rr maps =
     (case targets_count maps of
        None \<Rightarrow> Some (0, maps)
      | Some count \<Rightarrow>
     (case cpu_rr_idx maps of
        None \<Rightarrow> Some (0, maps)
      | Some rr_idx \<Rightarrow> if count = 0 then None else Some (rr_idx mod count, maps\<lparr>cpu_rr_idx := Some (rr_idx + 1)\<rparr>)))"

definition get_target :: "crab_maps \<Rightarrow> u8 list \<Rightarrow> nat \<Rightarrow> (int \<times> crab_maps \<times> u8 list) option" where
  "get_target maps d daddr = do {
     (key, maps) \<leftarrow> get_target_idx_rr maps;
     case targets_map maps key of
       None \<Rightarrow> Some (- 1, maps, d)
     | Some target \<Rightarrow> do {
         d \<leftarrow> st32 d daddr target;
         Some (0, maps, d)
       }
   }"

definition update_macs :: "crab_maps \<Rightarrow> u8 list \<Rightarrow> nat \<Rightarrow> nat \<Rightarrow> (int \<times> u8 list) option" where
  "update_macs maps d dst_ip ethh = do {
     h_dest \<leftarrow> ld_bytes d (ethh + ether_d_addr) 6;
     d \<leftarrow> st_bytes d (ethh + ether_s_addr) h_dest;
     ip \<leftarrow> ld32 d dst_ip;
     case macs_map maps ip of
       None \<Rightarrow> Some (- 1, d)
     | Some target \<Rightarrow> do {
         mac \<leftarrow> ld_bytes target 0 6;
         d \<leftarrow> st_bytes d (ethh + ether_d_addr) mac;
         Some (0, d)
       }
   }"

fun csum_options :: "crab_helpers \<Rightarrow> u8 list \<Rightarrow> nat \<Rightarrow> u32 \<Rightarrow> nat \<Rightarrow> u32 option" where
  "csum_options bpf d opt csum 0 = Some csum"
| "csum_options bpf d opt csum (Suc n) =
     (if opt + 4 > length d then Some csum
      else do {
        w \<leftarrow> ld_bytes d opt 4;
        csum_options bpf d (opt + 4) (bpf_csum_diff bpf w csum) n
      })"

definition redir_opt :: "u8 list \<Rightarrow> u8 list" where
  "redir_opt ip = [REDIR_OPT_TYPE, 6] @ ip @ [1, 1]"

text \<open>The second half of \<open>handle_syn\<close>, from the TCP header on.\<close>

definition syn_tcp :: "crab_helpers \<Rightarrow> u8 list \<Rightarrow> nat \<Rightarrow> u8 list \<Rightarrow> u8 list \<Rightarrow> (xdp_action \<times> u8 list) option" where
  "syn_tcp bpf d iph tcph_old old_daddr =
     (let tcph = iph + sizeof_ipv4_hdr in
      if tcph + sizeof_tcphdr > length d then Some (XDP_ABORTED, d)
      else do {
        d \<leftarrow> st_bytes d tcph tcph_old;
        b \<leftarrow> ld8 d (tcph + 12);
        d \<leftarrow> st8 d (tcph + 12) (or (take_bit 4 b) (push_bit 4 (drop_bit 4 b + word_of_nat sizeof_redir_opt div 4)));
        let ptr = tcph + sizeof_tcphdr;
        if ptr + sizeof_redir_opt > length d then Some (XDP_ABORTED, d)
        else do {
          d \<leftarrow> st_bytes d ptr (redir_opt old_daddr);
          d \<leftarrow> st16 d (tcph + tcp_cksum) 0;
          bytes \<leftarrow> ld_bytes d tcph (sizeof_tcphdr + sizeof_redir_opt);
          csum \<leftarrow> csum_options bpf d (ptr + sizeof_redir_opt) (bpf_csum_diff bpf bytes 0) MAX_OPT_WORDS;
          let csum = ucast (csum_reduce_helper csum);
          saddr \<leftarrow> ld_bytes d (iph + src_addr) 4;
          daddr \<leftarrow> ld_bytes d (iph + dst_addr) 4;
          tot_len \<leftarrow> ld16 d (iph + total_length);
          let len = bpf_htons (bpf_htons tot_len - word_of_nat sizeof_ipv4_hdr);
          let psdh = saddr @ daddr @ [0, IPPROTO_TCP, ucast len, ucast (drop_bit 8 len)];
          let csum = bpf_csum_diff bpf psdh csum;
          d \<leftarrow> st16 d (tcph + tcp_cksum) (not (csum_reduce_helper csum));
          Some (XDP_TX, d)
        }
      })"

definition handle_syn ::
  "crab_helpers \<Rightarrow> crab_maps \<Rightarrow> u8 list \<Rightarrow> nat \<Rightarrow> nat \<Rightarrow> nat \<Rightarrow> (xdp_action \<times> crab_maps \<times> u8 list) option" where
  "handle_syn bpf maps d ethh iph tcph = do {
     ethh_old \<leftarrow> ld_bytes d ethh sizeof_ether_hdr;
     iph_old \<leftarrow> ld_bytes d iph sizeof_ipv4_hdr;
     tcph_old \<leftarrow> ld_bytes d tcph sizeof_tcphdr;
     case bpf_xdp_adjust_head bpf d (0 - int sizeof_redir_opt) of
       None \<Rightarrow> Some (XDP_ABORTED, maps, d)
     | Some d \<Rightarrow>
     let ethh = 0 in
     if ethh + sizeof_ether_hdr > length d then Some (XDP_ABORTED, maps, d)
     else do {
       d \<leftarrow> st_bytes d ethh ethh_old;
       let iph = ethh + sizeof_ether_hdr;
       if iph + sizeof_ipv4_hdr > length d then Some (XDP_ABORTED, maps, d)
       else do {
         d \<leftarrow> st_bytes d iph iph_old;
         tot_len \<leftarrow> ld16 d (iph + total_length);
         d \<leftarrow> st16 d (iph + total_length) (bpf_htons (bpf_htons tot_len + word_of_nat sizeof_redir_opt));
         (r, maps, d) \<leftarrow> get_target maps d (iph + dst_addr);
         if r \<noteq> 0 then Some (XDP_ABORTED, maps, d)
         else do {
           (r, d) \<leftarrow> update_macs maps d (iph + dst_addr) ethh;
           if r \<noteq> 0 then Some (XDP_ABORTED, maps, d)
           else do {
             d \<leftarrow> st16 d (iph + hdr_checksum) 0;
             bytes \<leftarrow> ld_bytes d iph sizeof_ipv4_hdr;
             d \<leftarrow> st16 d (iph + hdr_checksum) (not (csum_reduce_helper (bpf_csum_diff bpf bytes 0)));
             (action, d) \<leftarrow> syn_tcp bpf d iph tcph_old (take 4 (drop dst_addr iph_old));
             Some (action, maps, d)
           }
         }
       }
     }
   }"

definition xdp_prog_simple :: "crab_helpers \<Rightarrow> crab_maps \<Rightarrow> u8 list \<Rightarrow> (xdp_action \<times> crab_maps \<times> u8 list) option" where
  "xdp_prog_simple bpf maps d = do {
     eth \<leftarrow> parse_ethhdr d 0;
     case eth of
       Inl _ \<Rightarrow> Some (XDP_PASS, maps, d)
     | Inr (nh_type, pos, ethh) \<Rightarrow>
     if nh_type \<noteq> uint (bpf_htons ETH_P_IP) then Some (XDP_PASS, maps, d)
     else do {
       ip \<leftarrow> parse_iphdr d pos;
       case ip of
         Inl _ \<Rightarrow> Some (XDP_PASS, maps, d)
       | Inr (ip_type, pos, iph) \<Rightarrow>
       if ip_type \<noteq> uint IPPROTO_TCP then Some (XDP_PASS, maps, d)
       else do {
         tcp \<leftarrow> parse_tcphdr d pos;
         case tcp of
           Inl _ \<Rightarrow> Some (XDP_ABORTED, maps, d)
         | Inr (len, pos, tcph) \<Rightarrow> do {
             flags \<leftarrow> ld8 d (tcph + 13);
             if bit flags 4 then Some (XDP_PASS, maps, d)
             else if bit flags 1 then handle_syn bpf maps d ethh iph tcph
             else Some (XDP_PASS, maps, d)
           }
       }
     }
   }"

section \<open>Reading and writing parts of a packet\<close>

definition bytes16 :: "u16 \<Rightarrow> u8 list" where
  "bytes16 w = [ucast w, ucast (drop_bit 8 w)]"

lemma length_bytes16 [simp]: "length (bytes16 w) = 2"
  by (simp add: bytes16_def)

lemma put16_bytes: "i + 1 < length d \<Longrightarrow> put16 d i w = put_bytes d i (bytes16 w)"
  by (rule nth_equalityI) (auto simp: put16_def put_bytes_def bytes16_def nth_append nth_list_update nth_Cons' min_def intro!: arg_cong [of _ _ "(!) d"])

lemma put_bytes_append:
  "i + length bs \<le> length xs \<Longrightarrow> put_bytes (xs @ ys) i bs = put_bytes xs i bs @ ys"
  "length xs \<le> i \<Longrightarrow> put_bytes (xs @ ys) i bs = xs @ put_bytes ys (i - length xs) bs"
  by (simp_all add: put_bytes_def)

lemma put_bytes_all: "length bs = length xs \<Longrightarrow> put_bytes xs 0 bs = bs"
  by (simp add: put_bytes_def)

lemma put16_append:
  "i + 1 < length xs \<Longrightarrow> put16 (xs @ ys) i w = put16 xs i w @ ys"
  "length xs \<le> i \<Longrightarrow> put16 (xs @ ys) i w = xs @ put16 ys (i - length xs) w"
  by (simp_all add: put16_def list_update_append Suc_diff_le)

lemma put32_append:
  "i + 3 < length xs \<Longrightarrow> put32 (xs @ ys) i w = put32 xs i w @ ys"
  "length xs \<le> i \<Longrightarrow> put32 (xs @ ys) i w = xs @ put32 ys (i - length xs) w"
  by (simp_all add: put32_def put16_append Suc_diff_le)

lemma get16_append:
  "i + 1 < length xs \<Longrightarrow> get16 (xs @ ys) i = get16 xs i"
  "length xs \<le> i \<Longrightarrow> get16 (xs @ ys) i = get16 ys (i - length xs)"
  by (simp_all add: get16_def nth_append Suc_diff_le)

lemma get32_append:
  "i + 3 < length xs \<Longrightarrow> get32 (xs @ ys) i = get32 xs i"
  "length xs \<le> i \<Longrightarrow> get32 (xs @ ys) i = get32 ys (i - length xs)"
  by (simp_all add: get32_def get16_append Suc_diff_le)

lemma get_take_drop:
  "i + 1 < n \<Longrightarrow> m + i + 1 < length d \<Longrightarrow> get16 (take n (drop m d)) i = get16 d (m + i)"
  "i + 3 < n \<Longrightarrow> m + i + 3 < length d \<Longrightarrow> get32 (take n (drop m d)) i = get32 d (m + i)"
  by (simp_all add: get32_def get16_def ac_simps)

lemma ld_bytes_append:
  "i + n \<le> length xs \<Longrightarrow> ld_bytes (xs @ ys) i n = Some (take n (drop i xs))"
  "length xs \<le> i \<Longrightarrow> ld_bytes (xs @ ys) i n = ld_bytes ys (i - length xs) n"
  by (auto simp: ld_bytes_def)

lemma ld_bytes_all: "n = length xs \<Longrightarrow> ld_bytes xs 0 n = Some xs"
  by (simp add: ld_bytes_def)

lemma ld_bytes_in: "i + n \<le> length d \<Longrightarrow> ld_bytes d i n = Some (take n (drop i d))"
  by (simp add: ld_bytes_def)

section \<open>Checksums\<close>

text \<open>The sum of the 16 bit words of a list of bytes.\<close>

fun words_sum :: "u8 list \<Rightarrow> nat" where
  "words_sum (a # b # bs) = unat a + 256 * unat b + words_sum bs"
| "words_sum [a] = unat a"
| "words_sum [] = 0"

lemma words_sum_append: "even (length xs) \<Longrightarrow> words_sum (xs @ ys) = words_sum xs + words_sum ys"
  by (induction xs rule: words_sum.induct) simp_all

lemma words_sum_bytes16: "words_sum (bytes16 w) = unat w"
proof -
  have "unat (ucast w :: u8) = unat w mod 256" by (simp add: unsigned_ucast_eq take_bit_eq_mod)
  moreover have "unat (ucast (drop_bit 8 w) :: u8) = unat w div 256"
  proof -
    have "unat w div 256 < 256" using unsigned_less [of w, where 'a = nat] by simp
    then show ?thesis by (simp add: unsigned_ucast_eq take_bit_eq_mod drop_bit_eq_div unat_div)
  qed
  ultimately show ?thesis by (simp add: bytes16_def)
qed

text \<open>What is documented of \<open>bpf_csum_diff\<close>: it adds words in one's complement arithmetic, that is modulo \<open>0xFFFF\<close>.\<close>

definition csum_library :: "crab_helpers \<Rightarrow> bool" where
  "csum_library bpf \<longleftrightarrow> (\<forall>to seed. 4 dvd length to \<longrightarrow> unat (bpf_csum_diff bpf to seed) mod 65535 = (words_sum to + unat seed) mod 65535)"

lemma csum_libraryD:
  "csum_library bpf \<Longrightarrow> 4 dvd length to \<Longrightarrow> unat (bpf_csum_diff bpf to seed) mod 65535 = (words_sum to + unat seed) mod 65535"
  by (simp add: csum_library_def)

lemma csum_fold_unat: "unat (csum_fold c) = unat c div 65536 + unat c mod 65536"
proof -
  have m: "(0xFFFF0000 :: u32) = push_bit 16 (mask 16)" by code_simp
  have "drop_bit 16 (and c 0xFFFF0000) = drop_bit 16 c"
    by (rule bit_word_eqI) (auto simp: m bit_simps dest: bit_imp_le_length)
  then have hi: "unat (drop_bit 16 (and c 0xFFFF0000)) = unat c div 65536"
    by (simp add: drop_bit_eq_div unat_div)
  have lo: "unat (and c 0xFFFF) = unat c mod 65536"
    using arg_cong [OF take_bit_eq_mask [of 16 c], of unat] by (simp add: mask_numeral take_bit_eq_mod unat_mod)
  have "unat c div 65536 + unat c mod 65536 < 2 ^ 32"
    using unsigned_less [of c, where 'a = nat] by (simp add: less_mult_imp_div_less)
  then show ?thesis by (simp only: csum_fold_def unat_word_ariths(1) hi lo) simp
qed

lemma csum_reduce_helper_mod: "unat (csum_reduce_helper c) mod 65535 = unat c mod 65535"
proof -
  have fold: "(n div 65536 + n mod 65536) mod 65535 = n mod 65535" for n :: nat
  proof -
    have "n = 65535 * (n div 65536) + (n div 65536 + n mod 65536)" using div_mult_mod_eq [of n 65536] by linarith
    then show ?thesis using mod_mult_self2 [of "n div 65536 + n mod 65536" 65535 "n div 65536"] by (metis add.commute)
  qed
  have small: "n div 65536 + n mod 65536 < 65536" if "n \<le> 131070" for n :: nat
  proof (cases "n < 65536")
    case False
    with that have "n div 65536 = 1" "n mod 65536 = n - 65536" by (simp_all add: div_if mod_if)
    with that show ?thesis by simp
  qed simp
  let ?f = "\<lambda>n :: nat. n div 65536 + n mod 65536"
  have "unat c < 2 ^ 32" using unsigned_less [of c, where 'a = nat] by simp
  then have "unat c div 65536 \<le> 65535" by simp
  moreover have "unat c mod 65536 \<le> 65535" by simp
  ultimately have "?f (unat c) \<le> 131070" by linarith
  then have "?f (?f (unat c)) < 65536" by (rule small)
  then have "unat (csum_reduce_helper c) = ?f (?f (unat c))"
    by (simp add: csum_reduce_helper_def csum_fold_unat unsigned_ucast_eq take_bit_nat_eq_self_iff)
  then show ?thesis by (simp add: fold)
qed

text \<open>Storing the complement of the sum makes the sum of all words a multiple of \<open>0xFFFF\<close>.\<close>

lemma complement_sum: "(unat (not w :: u16) + unat w) mod 65535 = 0"
proof -
  have "not w = - 1 - w" unfolding not_eq_complement by (rule minus_diff_commute)
  moreover have "unat (- 1 :: u16) = 65535" by (simp add: unsigned_minus_1_eq_mask mask_eq_exp_minus_1)
  moreover have "unat (- 1 - w) = unat (- 1 :: u16) - unat w" by (rule unat_sub) simp
  ultimately have "unat (not w) = 65535 - unat w" by (simp only:)
  moreover have "unat w \<le> 65535" using unsigned_less [of w, where 'a = nat] by simp
  ultimately have "unat (not w) + unat w = 65535" by linarith
  then show ?thesis by (simp only: mod_self)
qed

lemma stored_checksum:
  assumes "unat c mod 65535 = s mod 65535"
  shows "(s + unat (not (csum_reduce_helper c))) mod 65535 = 0"
proof -
  have "(s + unat (not (csum_reduce_helper c))) mod 65535 = (unat (not (csum_reduce_helper c)) + unat (csum_reduce_helper c)) mod 65535"
    using csum_reduce_helper_mod [of c] assms by (metis add.commute mod_add_right_eq)
  then show ?thesis by (simp only: complement_sum)
qed

section \<open>Running the code\<close>

lemmas packet_parts = put_bytes_append put_bytes_all put16_append put32_append get16_append get32_append ld_bytes_append ld_bytes_in
  ld8_def ld16_def ld32_def st8_def st16_def st32_def st_bytes_def nth_append list_update_append

lemma csum_options_append: "csum_options bpf (xs @ ys) (length xs + i) c n = csum_options bpf ys i c n"
  by (induction n arbitrary: i c) (simp_all add: ld_bytes_def add.assoc)

lemma csum_options_returns: "\<exists>c'. csum_options bpf d opt c n = Some c'"
  by (induction n arbitrary: opt c) (simp_all add: ld_bytes_def)

lemma length_redir_opt [simp]: "length (redir_opt ip) = length ip + 4"
  by (simp add: redir_opt_def)

definition options_csum :: "crab_helpers \<Rightarrow> u8 list \<Rightarrow> nat \<Rightarrow> u32 \<Rightarrow> nat \<Rightarrow> u32" where
  "options_csum bpf d opt c n = the (csum_options bpf d opt c n)"

lemma csum_options_Some: "csum_options bpf d opt c n = Some (options_csum bpf d opt c n)"
  using csum_options_returns [of bpf d opt c n] by (auto simp: options_csum_def)

text \<open>The TCP header and the new option before the checksum is stored, and the checksum.\<close>

definition tcp_out :: "u8 list \<Rightarrow> u8 list \<Rightarrow> u8 list" where
  "tcp_out T old = put16 (T[12 := or (take_bit 4 (T ! 12)) (push_bit 4 (drop_bit 4 (T ! 12) + 2))]) 16 0 @ redir_opt old"

definition psd_header :: "u8 list \<Rightarrow> u8 list" where
  "psd_header I = take 4 (drop 12 I) @ take 4 (drop 16 I) @ [0, IPPROTO_TCP] @ bytes16 (bpf_htons (bpf_htons (get16 I 2) - 20))"

definition tcp_csum :: "crab_helpers \<Rightarrow> u8 list \<Rightarrow> u8 list \<Rightarrow> u8 list \<Rightarrow> u32" where
  "tcp_csum bpf I X R =
     bpf_csum_diff bpf (psd_header I) (ucast (csum_reduce_helper (options_csum bpf R 0 (bpf_csum_diff bpf X 0) MAX_OPT_WORDS)))"

lemma syn_tcp_out:
  assumes "length E = 14" "length I = 20" "length P = 20" "length Q = 8" "length T = 20" "length old = 4"
  shows "syn_tcp bpf (E @ I @ P @ Q @ R) 14 T old = Some (XDP_TX,
    E @ I @ put16 (tcp_out T old) 16 (not (csum_reduce_helper (tcp_csum bpf I (tcp_out T old) R))) @ R)"
proof -
  have X: "length (tcp_out T old) = 28" by (simp add: tcp_out_def redir_opt_def assms)
  have "csum_options bpf ((E @ I @ tcp_out T old) @ R) (length (E @ I @ tcp_out T old) + 0) b n = csum_options bpf R 0 b n" for b n
    by (rule csum_options_append)
  then have o: "csum_options bpf (E @ I @ tcp_out T old @ R) 62 b n = Some (options_csum bpf R 0 b n)" for b n
    by (simp add: X assms csum_options_Some)
  show ?thesis
    using o [unfolded tcp_out_def]
    by (simp add: syn_tcp_def Let_def assms packet_parts layout sizeof_tcphdr_def sizeof_redir_opt_def tcp_csum_def tcp_out_def
        psd_header_def bytes16_def)
qed

text \<open>The Ethernet and the IPv4 header that are sent.\<close>

definition eth_out :: "u8 list \<Rightarrow> u8 list \<Rightarrow> u8 list" where
  "eth_out E mac = mac @ take 6 E @ drop 12 E"

definition ip_out :: "crab_helpers \<Rightarrow> u8 list \<Rightarrow> u32 \<Rightarrow> u8 list" where
  "ip_out bpf I target =
     (let J = put16 (put32 (put16 I 2 (bpf_htons (bpf_htons (get16 I 2) + 8))) 16 target) 10 0
      in put16 J 10 (not (csum_reduce_helper (bpf_csum_diff bpf J 0))))"

lemma length_ip_out [simp]: "length (ip_out bpf I target) = length I"
  by (simp add: ip_out_def Let_def)

definition tcp_sealed :: "crab_helpers \<Rightarrow> u8 list \<Rightarrow> u8 list \<Rightarrow> u8 list \<Rightarrow> u8 list \<Rightarrow> u8 list" where
  "tcp_sealed bpf I T old R = put16 (tcp_out T old) 16 (not (csum_reduce_helper (tcp_csum bpf I (tcp_out T old) R)))"

lemma take_drop_split: "take n (drop m xs) @ drop (n + m) xs = drop m xs"
  by (metis append_take_drop_id drop_drop)

lemma length_tcp_sealed: "length (tcp_sealed bpf I T old R) = length T + length old + 4"
  by (simp add: tcp_sealed_def tcp_out_def)

lemma handle_syn_out:
  assumes old: "ld_bytes d ethh 14 = Some E" "ld_bytes d iph 20 = Some I" "ld_bytes d tcph 20 = Some T"
    and head: "bpf_xdp_adjust_head bpf d (- 8) = Some D" "62 \<le> length D"
    and target: "get_target_idx_rr maps = Some (key, maps')" "targets_map maps' key = Some target"
    and mac: "macs_map maps' target = Some mac" "length mac = 6"
  shows "handle_syn bpf maps d ethh iph tcph = Some (XDP_TX, maps',
    eth_out E mac @ ip_out bpf I target @ tcp_sealed bpf (ip_out bpf I target) T (drop 16 I) (drop 62 D) @ drop 62 D)"
proof -
  have len: "length E = 14" "length I = 20" "length T = 20" using old by (auto simp: ld_bytes_def split: if_splits)
  obtain D1 D2 D3 D4 R where D: "D = D1 @ D2 @ D3 @ D4 @ R" "length D1 = 14" "length D2 = 20" "length D3 = 20" "length D4 = 8"
  proof -
    have "D = take 14 D @ take 20 (drop 14 D) @ take 20 (drop 34 D) @ take 8 (drop 54 D) @ drop 62 D"
      using take_drop_split [of 14 0 D] take_drop_split [of 20 14 D] take_drop_split [of 20 34 D] take_drop_split [of 8 54 D] by simp
    then show thesis by (rule that) (use head(2) in simp_all)
  qed
  have eth: "length (eth_out E mac) = 14" by (simp add: eth_out_def len mac(2))
  have eth_put: "put_bytes (put_bytes E 6 (take 6 E)) 0 mac = eth_out E mac" by (simp add: eth_out_def put_bytes_def len mac(2))
  have "syn_tcp bpf (eth_out E mac @ ip_out bpf I target @ D3 @ D4 @ R) 14 T (drop 16 I) =
      Some (XDP_TX, eth_out E mac @ ip_out bpf I target @ tcp_sealed bpf (ip_out bpf I target) T (drop 16 I) R @ R)"
    unfolding tcp_sealed_def by (rule syn_tcp_out) (simp_all add: eth_out_def len mac(2) D)
  then show ?thesis
    by (simp add: handle_syn_def Let_def old head(1) D(1) layout sizeof_tcphdr_def sizeof_redir_opt_def packet_parts D(2-5) len
        get_target_def update_macs_def target mac get32_put32 eth eth_put ip_out_def)
qed

section \<open>Memory safety\<close>

lemma skip_vlan_returns: "vlh \<le> length d \<Longrightarrow> \<exists>p v. skip_vlan d vlh h n = Some (p, v)"
  by (induction n arbitrary: vlh h) (simp_all add: ld_in sizeof_vlan_hdr_def)

lemma parse_ethhdr_returns: "\<exists>r. parse_ethhdr d pos = Some r \<and> (\<forall>t p e. r = Inr (t, p, e) \<longrightarrow> e + 14 \<le> length d)"
  using skip_vlan_returns [of "pos + 14" d "get16 d (pos + 12)" VLAN_MAX_DEPTH]
  by (auto simp: parse_ethhdr_def layout ld_in)

lemma parse_iphdr_returns: "\<exists>r. parse_iphdr d pos = Some r \<and> (\<forall>t p i. r = Inr (t, p, i) \<longrightarrow> i + 20 \<le> length d)"
  by (auto simp: parse_iphdr_def layout ld8_def Let_def)

lemma parse_tcphdr_returns: "\<exists>r. parse_tcphdr d pos = Some r \<and> (\<forall>t p i. r = Inr (t, p, i) \<longrightarrow> i + 20 \<le> length d)"
  by (auto simp: parse_tcphdr_def ld8_def sizeof_tcphdr_def Let_def)

lemma length_stores [simp]: "i + length bs \<le> length d \<Longrightarrow> length (put_bytes d i bs) = length d"
  by (simp add: put_bytes_def)

lemma syn_tcp_returns:
  assumes "length T = 20" "length old = 4" "iph + 20 \<le> length d"
  shows "\<exists>r. syn_tcp bpf d iph T old = Some r"
  using assms
  by (simp add: syn_tcp_def Let_def layout sizeof_tcphdr_def sizeof_redir_opt_def ld8_def st8_def ld_in st_in ld_bytes_in st_bytes_def
      csum_options_Some)

definition crab_maps_ok :: "crab_maps \<Rightarrow> bool" where
  "crab_maps_ok maps \<longleftrightarrow> targets_count maps \<noteq> Some 0 \<and> (\<forall>ip mac. macs_map maps ip = Some mac \<longrightarrow> length mac = 6)"

lemma get_target_returns:
  assumes "crab_maps_ok maps" "daddr + 3 < length d"
  shows "\<exists>r maps' d'. get_target maps d daddr = Some (r, maps', d') \<and> length d' = length d \<and> macs_map maps' = macs_map maps"
  using assms by (auto simp: get_target_def get_target_idx_rr_def crab_maps_ok_def st_in split: option.splits)

lemma update_macs_returns:
  assumes "\<forall>ip mac. macs_map maps ip = Some mac \<longrightarrow> length mac = 6" "dst_ip + 3 < length d" "ethh + 12 \<le> length d"
  shows "\<exists>r d'. update_macs maps d dst_ip ethh = Some (r, d') \<and> length d' = length d"
  using assms by (auto simp: update_macs_def layout ld_bytes_in st_bytes_def ld_in split: option.splits)

lemma handle_syn_returns:
  assumes "crab_maps_ok maps" "ethh + 14 \<le> length d" "iph + 20 \<le> length d" "tcph + 20 \<le> length d"
  shows "\<exists>r. handle_syn bpf maps d ethh iph tcph = Some r"
proof (cases "bpf_xdp_adjust_head bpf d (- 8)")
  case None
  then show ?thesis using assms by (simp add: handle_syn_def layout sizeof_tcphdr_def sizeof_redir_opt_def ld_bytes_in)
next
  case (Some D)
  let ?d1 = "put_bytes (put_bytes D 0 (take 14 (drop ethh d))) 14 (take 20 (drop iph d))"
  let ?d2 = "put16 ?d1 16 (bpf_htons (bpf_htons (get16 ?d1 16) + 8))"
  have ?thesis if big: "34 \<le> length D"
  proof -
    define d2 where "d2 = ?d2"
    have len: "length d2 = length D" using assms big by (simp add: d2_def)
    have "30 + 3 < length d2" using len big by linarith
    from get_target_returns [OF assms(1) this] len
    obtain r maps' d3 where 3: "get_target maps d2 30 = Some (r, maps', d3)" "length d3 = length D" "macs_map maps' = macs_map maps" by auto
    obtain r' d4 where 4: "update_macs maps' d3 30 0 = Some (r', d4)" "length d4 = length D"
      using update_macs_returns [of maps' 30 d3 0] 3 assms(1) big by (auto simp: crab_maps_ok_def)
    define d5 where "d5 = put16 (put16 d4 24 0) 24 (not (csum_reduce_helper (bpf_csum_diff bpf (take 20 (drop 14 (put16 d4 24 0))) 0)))"
    have "14 + 20 \<le> length d5" using 4(2) big by (simp add: d5_def)
    then obtain a d6 where 6: "syn_tcp bpf d5 14 (take 20 (drop tcph d)) (take 4 (drop 16 (take 20 (drop iph d)))) = Some (a, d6)"
      using syn_tcp_returns [of "take 20 (drop tcph d)" "take 4 (drop 16 (take 20 (drop iph d)))" 14 d5 bpf] assms by auto
    show ?thesis
      using assms Some big 3 4 6
      by (simp add: handle_syn_def Let_def layout sizeof_tcphdr_def sizeof_redir_opt_def ld_bytes_in st_bytes_def ld_in st_in
          d2_def [symmetric] d5_def [symmetric])
  qed
  then show ?thesis
    using assms Some by (auto simp: handle_syn_def Let_def layout sizeof_tcphdr_def sizeof_redir_opt_def ld_bytes_in st_bytes_def not_le)
qed

lemma xdp_prog_simple_returns:
  assumes "crab_maps_ok maps"
  shows "\<exists>r. xdp_prog_simple bpf maps d = Some r"
proof -
  obtain e where e: "parse_ethhdr d 0 = Some e" "\<forall>t p i. e = Inr (t, p, i) \<longrightarrow> i + 14 \<le> length d" using parse_ethhdr_returns by blast
  have 1: "\<exists>r. xdp_prog_simple bpf maps d = Some r" if eth: "e = Inr (t, p, ethh)" for t p ethh
  proof -
    obtain i where i: "parse_iphdr d p = Some i" "\<forall>t p h. i = Inr (t, p, h) \<longrightarrow> h + 20 \<le> length d" using parse_iphdr_returns by blast
    have 2: "\<exists>r. xdp_prog_simple bpf maps d = Some r" if ip: "i = Inr (t', p', iph)" for t' p' iph
    proof -
      obtain j where j: "parse_tcphdr d p' = Some j" "\<forall>t p h. j = Inr (t, p, h) \<longrightarrow> h + 20 \<le> length d" using parse_tcphdr_returns by blast
      show ?thesis
      proof (cases j)
        case (Inr q)
        obtain l p'' tcph where q: "q = (l, p'', tcph)" by (cases q)
        have "\<exists>r. handle_syn bpf maps d ethh iph tcph = Some r"
          by (rule handle_syn_returns [OF assms]) (use e(2) i(2) j(2) eth ip Inr q in auto)
        then show ?thesis using e i j eth ip Inr q by (simp add: xdp_prog_simple_def ld8_def)
      qed (use e i j eth ip in \<open>simp add: xdp_prog_simple_def\<close>)
    qed
    show ?thesis
    proof (cases i)
      case (Inr q)
      then show ?thesis using 2 by (cases q) blast
    qed (use e i eth in \<open>simp add: xdp_prog_simple_def\<close>)
  qed
  show ?thesis
  proof (cases e)
    case (Inr q)
    then show ?thesis using 1 by (cases q) blast
  qed (use e in \<open>simp add: xdp_prog_simple_def\<close>)
qed

section \<open>What is sent\<close>

text \<open>The SYN packets of the usual shape: no VLAN tag and no IP options.\<close>

definition crab_syn :: "u8 list \<Rightarrow> bool" where
  "crab_syn d \<longleftrightarrow> 54 \<le> length d \<and> get16 d 12 = 8 \<and> ihl (d ! 14) = 5 \<and> d ! 23 = 6 \<and>
     20 \<le> unat (drop_bit 4 (d ! 46)) * 4 \<and> 34 + unat (drop_bit 4 (d ! 46)) * 4 \<le> length d \<and> bit (d ! 47) 1 \<and> \<not> bit (d ! 47) 4"

lemma not_vlan_8: "\<not> proto_is_vlan 8" "bpf_htons ETH_P_IP = 8"
  by (simp_all add: proto_is_vlan_def bpf_htons_def ETH_P_8021Q_def ETH_P_8021AD_def ETH_P_IP_def)

lemma crab_syn_handled: "crab_syn d \<Longrightarrow> xdp_prog_simple bpf maps d = handle_syn bpf maps d 0 14 34"
  by (simp add: crab_syn_def xdp_prog_simple_def parse_ethhdr_def parse_iphdr_def parse_tcphdr_def layout ld_in ld8_def not_vlan_8
      sizeof_tcphdr_def VLAN_MAX_DEPTH_def numeral_eq_Suc IPPROTO_TCP_def Let_def)

lemma words_sum_put16:
  "even i \<Longrightarrow> i + 1 < length d \<Longrightarrow> words_sum (put16 d i w) = words_sum (take i d) + unat w + words_sum (drop (i + 2) d)"
  by (simp add: put16_bytes put_bytes_def words_sum_append words_sum_bytes16 min_def)

lemma put16_put16 [simp]: "put16 (put16 d i a) i b = put16 d i b"
  by (simp add: put16_def list_update_swap [of "Suc i" i])

lemma ip_out_checksum:
  assumes "csum_library bpf" "length I = 20"
  shows "words_sum (ip_out bpf I target) mod 65535 = 0"
proof -
  let ?K = "put32 (put16 I 2 (bpf_htons (bpf_htons (get16 I 2) + 8))) 16 target"
  have "unat (bpf_csum_diff bpf (put16 ?K 10 0) 0) mod 65535 = words_sum (put16 ?K 10 0) mod 65535"
    using assms by (simp add: csum_library_def)
  moreover have "words_sum (put16 ?K 10 w) = words_sum (put16 ?K 10 0) + unat w" for w
    by (simp add: words_sum_put16 assms(2))
  ultimately show ?thesis
    using stored_checksum [of "bpf_csum_diff bpf (put16 ?K 10 0) 0"] unfolding ip_out_def Let_def put16_put16 by metis
qed

lemma options_csum_words:
  assumes "csum_library bpf" "4 * n \<le> length R \<or> 4 dvd length R"
  shows "unat (options_csum bpf R 0 c n) mod 65535 = (unat c + words_sum (take (4 * n) R)) mod 65535"
  using assms(2)
proof (induction n arbitrary: R c)
  case (Suc n)
  show ?case
  proof (cases "R = []")
    case False
    with Suc.prems have "4 \<le> length R" by (auto dest: dvd_imp_le)
    then obtain w R' where R: "R = w @ R'" "length w = 4" by (metis append_take_drop_id length_take min.absorb2)
    have "4 * n \<le> length R' \<or> 4 dvd length R'" using Suc.prems by (simp add: R)
    from Suc.IH [OF this, of "bpf_csum_diff bpf w c"]
    have "unat (options_csum bpf R' 0 (bpf_csum_diff bpf w c) n) mod 65535
        = (unat (bpf_csum_diff bpf w c) mod 65535 + words_sum (take (4 * n) R')) mod 65535" by (simp add: mod_add_left_eq)
    also have "unat (bpf_csum_diff bpf w c) mod 65535 = (words_sum w + unat c) mod 65535"
      using assms(1) R(2) by (simp add: csum_library_def)
    finally have "unat (options_csum bpf R' 0 (bpf_csum_diff bpf w c) n) mod 65535
        = (unat c + (words_sum w + words_sum (take (4 * n) R'))) mod 65535" by (simp add: mod_add_left_eq mod_add_right_eq ac_simps)
    moreover have "options_csum bpf R 0 c (Suc n) = options_csum bpf R' 0 (bpf_csum_diff bpf w c) n"
      using csum_options_append [of bpf w R' 0] by (simp add: options_csum_def R ld_bytes_def)
    ultimately show ?thesis by (simp add: R words_sum_append)
  qed (simp add: options_csum_def)
qed (simp add: options_csum_def)

lemma tcp_checksum:
  assumes "csum_library bpf" "length I = 20" "length T = 20" "length old = 4" "40 \<le> length R \<or> 4 dvd length R"
  shows "(words_sum (psd_header I) + words_sum (tcp_sealed bpf I T old R) + words_sum (take 40 R)) mod 65535 = 0"
proof -
  let ?X = "tcp_out T old" and ?c = "options_csum bpf R 0 (bpf_csum_diff bpf (tcp_out T old) 0) MAX_OPT_WORDS"
  have len: "length (psd_header I) = 12" "length ?X = 28"
    using assms by (simp_all add: psd_header_def tcp_out_def)
  have x: "unat (bpf_csum_diff bpf ?X 0) mod 65535 = words_sum ?X mod 65535"
    using assms(1) len(2) by (simp add: csum_library_def)
  have m: "4 * MAX_OPT_WORDS = 40" by (simp add: MAX_OPT_WORDS_def)
  have "unat ?c mod 65535 = (unat (bpf_csum_diff bpf ?X 0) + words_sum (take 40 R)) mod 65535"
    using options_csum_words [OF assms(1), of MAX_OPT_WORDS R "bpf_csum_diff bpf ?X 0", unfolded m] assms(5) by blast
  also have "\<dots> = (words_sum ?X + words_sum (take 40 R)) mod 65535" by (rule mod_add_cong [OF x refl])
  finally have "unat ?c mod 65535 = (words_sum ?X + words_sum (take 40 R)) mod 65535" .
  moreover have "unat (ucast w :: u32) = unat w" for w :: u16
    using unsigned_less [of w, where 'a = nat] by (simp add: unsigned_ucast_eq take_bit_nat_eq_self_iff)
  ultimately have u: "unat (ucast (csum_reduce_helper ?c) :: u32) mod 65535 = (words_sum ?X + words_sum (take 40 R)) mod 65535"
    using csum_reduce_helper_mod [of ?c] by simp
  have "unat (tcp_csum bpf I ?X R) mod 65535 = (words_sum (psd_header I) + unat (ucast (csum_reduce_helper ?c) :: u32)) mod 65535"
    unfolding tcp_csum_def by (rule csum_libraryD [OF assms(1)]) (simp add: len(1))
  also have "\<dots> = (words_sum (psd_header I) + (words_sum ?X + words_sum (take 40 R))) mod 65535" by (rule mod_add_cong [OF refl u])
  finally have s: "(words_sum (psd_header I) + (words_sum ?X + words_sum (take 40 R)) + unat (not (csum_reduce_helper (tcp_csum bpf I ?X R)))) mod 65535 = 0"
    by (rule stored_checksum)
  have "words_sum (put16 ?X 16 w) = words_sum ?X + unat w" for w
  proof -
    have "put16 ?X 16 0 = ?X" using assms(3) by (simp add: tcp_out_def put16_append)
    then show ?thesis using words_sum_put16 [of 16 ?X w] words_sum_put16 [of 16 ?X 0] len(2) by simp
  qed
  then show ?thesis using s by (simp add: tcp_sealed_def ac_simps)
qed

lemma crab_syn_out:
  assumes "crab_syn d" "bpf_xdp_adjust_head bpf d (- 8) = Some (new @ d)" "length new = 8"
    and "get_target_idx_rr maps = Some (key, maps')" "targets_map maps' key = Some target"
    and "macs_map maps' target = Some mac" "length mac = 6"
  shows "xdp_prog_simple bpf maps d = Some (XDP_TX, maps', eth_out (take 14 d) mac @ ip_out bpf (take 20 (drop 14 d)) target @
    tcp_sealed bpf (ip_out bpf (take 20 (drop 14 d)) target) (take 20 (drop 34 d)) (take 4 (drop 30 d)) (drop 54 d) @ drop 54 d)"
proof -
  have len: "54 \<le> length d" using assms(1) by (simp add: crab_syn_def)
  have "drop 16 (take 20 (drop 14 d)) = take 4 (drop 30 d)" by (simp add: drop_take)
  with handle_syn_out [OF ld_bytes_in ld_bytes_in ld_bytes_in assms(2) _ assms(4-7), of 0 14 34] show ?thesis
    using len by (simp add: crab_syn_handled [OF assms(1)] assms(3))
qed

text \<open>What is documented of the helpers: growing the head of a packet keeps the packet and puts some bytes in front.\<close>

definition crab_library :: "crab_helpers \<Rightarrow> bool" where
  "crab_library bpf \<longleftrightarrow> csum_library bpf \<and>
     (\<forall>d D. bpf_xdp_adjust_head bpf d (- 8) = Some D \<longrightarrow> (\<exists>new. D = new @ d \<and> length new = 8))"

text \<open>The maps have a target for the next packet.\<close>

definition next_target :: "crab_maps \<Rightarrow> u32 \<Rightarrow> u8 list \<Rightarrow> bool" where
  "next_target maps target mac \<longleftrightarrow>
     (\<exists>count rr. targets_count maps = Some count \<and> count \<noteq> 0 \<and> cpu_rr_idx maps = Some rr \<and> targets_map maps (rr mod count) = Some target \<and>
        macs_map maps target = Some mac \<and> length mac = 6)"

definition advance :: "crab_maps \<Rightarrow> crab_maps" where
  "advance maps = maps\<lparr>cpu_rr_idx := map_option (\<lambda>rr. rr + 1) (cpu_rr_idx maps)\<rparr>"

lemma crab_syn_sent:
  assumes "crab_library bpf" "crab_syn d" "bpf_xdp_adjust_head bpf d (- 8) \<noteq> None" "next_target maps target mac"
  obtains I T where "I = ip_out bpf (take 20 (drop 14 d)) target" "T = tcp_sealed bpf I (take 20 (drop 34 d)) (take 4 (drop 30 d)) (drop 54 d)"
    "length I = 20" "length T = 28"
    "xdp_prog_simple bpf maps d = Some (XDP_TX, advance maps, eth_out (take 14 d) mac @ I @ T @ drop 54 d)"
proof -
  obtain new where new: "bpf_xdp_adjust_head bpf d (- 8) = Some (new @ d)" "length new = 8"
    using assms(1,3) unfolding crab_library_def by blast
  obtain key where "get_target_idx_rr maps = Some (key, advance maps)" "targets_map (advance maps) key = Some target"
    "macs_map (advance maps) target = Some mac" "length mac = 6"
    using assms(4) by (auto simp: next_target_def get_target_idx_rr_def advance_def)
  from crab_syn_out [OF assms(2) new this] show thesis
    by (rule that [OF refl refl, rotated 2]) (use assms(2) in \<open>auto simp: crab_syn_def length_tcp_sealed\<close>)
qed

lemma doff_nibble: "or (drop_bit 4 (take_bit 4 b)) (drop_bit 4 (push_bit 4 (c :: u8))) = take_bit 4 c"
  by (rule bit_word_eqI) (auto simp: bit_simps dest: bit_imp_le_length)

lemma tcp_sealed_parts:
  assumes "length T = 20" "length old = 4"
  shows "take 12 (tcp_sealed bpf I T old R) = take 12 T"
    "drop_bit 4 (tcp_sealed bpf I T old R ! 12) = take_bit 4 (drop_bit 4 (T ! 12) + 2)"
    "tcp_sealed bpf I T old R ! 13 = T ! 13"
    "drop 20 (tcp_sealed bpf I T old R) = redir_opt old"
  using assms
  by (simp_all add: tcp_sealed_def tcp_out_def put16_append nth_append nth_put16 doff_nibble)
    (simp add: put16_def take_update_cancel)

lemma ip_out_parts:
  assumes "length I = 20"
  shows "get32 (ip_out bpf I target) 16 = target" "get32 (ip_out bpf I target) 12 = get32 I 12"
    "get16 (ip_out bpf I target) 2 = bpf_htons (bpf_htons (get16 I 2) + 8)" "ip_out bpf I target ! 0 = I ! 0"
  using assms by (simp_all add: ip_out_def Let_def pkt)

lemma bpf_htons_htons [simp]: "bpf_htons (bpf_htons w) = w"
  by (rule bit_word_eqI) (auto simp: bpf_htons_def bit_simps dest: bit_imp_le_length)

text \<open>The sum over the pseudo header and the TCP segment, which has to be a multiple of \<open>0xFFFF\<close>.\<close>

definition tcp_words :: "u8 list \<Rightarrow> nat" where
  "tcp_words d = words_sum (psd_header (take 20 (drop 14 d))) + words_sum (drop 34 d)"

lemma tcp_words_sent:
  assumes "length E = 14" "length I = 20" "length T = 28"
  shows "tcp_words (E @ I @ T @ R) = words_sum (psd_header I) + words_sum T + words_sum R"
  using assms by (simp add: tcp_words_def words_sum_append)

text \<open>Packets one after the other: what is done with each, and the packet that is left.\<close>

fun crab_run :: "crab_helpers \<Rightarrow> crab_maps \<Rightarrow> u8 list list \<Rightarrow> (xdp_action \<times> u8 list) list option" where
  "crab_run bpf maps [] = Some []"
| "crab_run bpf maps (d # ds) = do {
     (a, maps, d') \<leftarrow> xdp_prog_simple bpf maps d;
     out \<leftarrow> crab_run bpf maps ds;
     Some ((a, d') # out)
   }"

text \<open>Every index below the number of targets has a target, and every target an Ethernet address.\<close>

definition all_targets :: "crab_maps \<Rightarrow> u32 \<Rightarrow> (nat \<Rightarrow> u32) \<Rightarrow> bool" where
  "all_targets maps count target \<longleftrightarrow> targets_count maps = Some count \<and> count \<noteq> 0 \<and>
     (\<forall>k < unat count. targets_map maps (word_of_nat k) = Some (target k) \<and> (\<exists>mac. macs_map maps (target k) = Some mac \<and> length mac = 6))"

lemma all_targets_advance [simp]: "all_targets (advance maps) count target = all_targets maps count target"
  by (simp add: all_targets_def advance_def)

lemma all_targets_next:
  assumes "all_targets maps count target" "cpu_rr_idx maps = Some rr"
  obtains mac where "next_target maps (target (unat rr mod unat count)) mac"
proof -
  have count: "targets_count maps = Some count" "count \<noteq> 0" using assms(1) by (simp_all add: all_targets_def)
  have "0 < unat count" using count(2) by (simp add: unat_gt_0)
  then have "unat rr mod unat count < unat count" by simp
  then obtain mac where mac: "targets_map maps (word_of_nat (unat rr mod unat count)) = Some (target (unat rr mod unat count))"
    "macs_map maps (target (unat rr mod unat count)) = Some mac" "length mac = 6"
    using assms(1) unfolding all_targets_def by blast
  moreover have "word_of_nat (unat rr mod unat count) = rr mod count"
    by (simp add: unat_mod [symmetric])
  ultimately have "next_target maps (target (unat rr mod unat count)) mac"
    using count assms(2) by (auto simp: next_target_def)
  then show thesis by (rule that)
qed

lemma crab_syn_target:
  assumes "crab_library bpf" "crab_syn d" "bpf_xdp_adjust_head bpf d (- 8) \<noteq> None" "next_target maps target mac"
  shows "\<exists>d'. xdp_prog_simple bpf maps d = Some (XDP_TX, advance maps, d') \<and> get32 d' 30 = target"
proof -
  obtain I T where IT: "I = ip_out bpf (take 20 (drop 14 d)) target" "length I = 20"
    "xdp_prog_simple bpf maps d = Some (XDP_TX, advance maps, eth_out (take 14 d) mac @ I @ T @ drop 54 d)"
    using crab_syn_sent [OF assms] by metis
  have "54 \<le> length d" "length mac = 6" using assms(2,4) by (auto simp: crab_syn_def next_target_def)
  then show ?thesis using IT ip_out_parts(1) [of "take 20 (drop 14 d)" bpf target] by (simp add: eth_out_def get32_append)
qed

section \<open>Examples\<close>

definition example_helpers :: crab_helpers where
  "example_helpers = \<lparr>bpf_xdp_adjust_head = \<lambda>d n. Some (replicate 8 0 @ d),
     bpf_csum_diff = \<lambda>to seed. word_of_nat ((words_sum to + unat seed) mod 65535)\<rparr>"

lemma example_helpers_library: "crab_library example_helpers"
proof -
  have "unat (word_of_nat (x mod 65535) :: u32) = x mod 65535" for x
  proof -
    have "x mod 65535 < 65535" by simp
    then show ?thesis by (simp add: unsigned_of_nat take_bit_nat_eq_self_iff)
  qed
  then show ?thesis by (simp add: crab_library_def csum_library_def example_helpers_def)
qed

definition example_crab_maps :: crab_maps where
  "example_crab_maps = \<lparr>targets_map = (\<lambda>k. if k < 2 then Some (k + 7) else None), macs_map = (\<lambda>ip. Some (replicate 6 (ucast ip))),
     targets_count = Some 2, cpu_rr_idx = Some 1\<rparr>"

text \<open>A SYN packet with the given bytes after its TCP header.\<close>

definition example_syn :: "u8 list \<Rightarrow> u8 list" where
  "example_syn rest = replicate 12 1 @ [8, 0, 69, 0, 0, 44] @ replicate 5 0 @ [6, 0, 0, 10, 0, 0, 1, 10, 0, 0, 2] @
     replicate 12 3 @ [0x50, 2] @ replicate 6 0 @ rest"

lemma example_syn_ok: "crab_syn (example_syn rest)" "length (example_syn rest) = 54 + length rest" "drop 54 (example_syn rest) = rest"
proof -
  have "unat (drop_bit 4 (0x50 :: u8)) = 5" "ihl 69 = 5" "bit (2 :: u8) 1" "\<not> bit (2 :: u8) 4" by code_simp+
  then show "crab_syn (example_syn rest)"
    by (simp add: crab_syn_def example_syn_def get16_def nth_append)
qed (simp_all add: example_syn_def)

lemma example_target: "next_target example_crab_maps 8 (replicate 6 8)"
  by (simp add: next_target_def example_crab_maps_def)

section \<open>Properties\<close>

text \<open>
  C24. The checks against \<open>data_end\<close> are enough: on every packet, whatever its length and contents and whatever the helpers of the
  kernel do, the program ends without an access outside the packet, provided that the number of targets is not 0.
\<close>

theorem crab_memory_safe:
  assumes "crab_maps_ok maps"
  shows "\<exists>action maps' d'. xdp_prog_simple bpf maps d = Some (action, maps', d')"
  using xdp_prog_simple_returns [OF assms, of bpf d] by auto

theorem crab_memory_safe_witness: "\<exists>action maps' d'. xdp_prog_simple example_helpers example_crab_maps (example_syn []) = Some (action, maps', d')"
  by (rule crab_memory_safe) (simp add: crab_maps_ok_def example_crab_maps_def)



text \<open>
  C23. The targets take turns: of a sequence of SYN packets on one processor, as long as its counter does not wrap around, the packet
  with number \<open>i\<close> goes to the target with the index \<open>rr + i\<close>, modulo the number of targets.
\<close>

theorem crab_round_robin:
  assumes "crab_library bpf" "all_targets maps count target" "cpu_rr_idx maps = Some rr" "unat rr + length ds < 2 ^ 32"
    and "\<forall>d \<in> set ds. crab_syn d \<and> bpf_xdp_adjust_head bpf d (- 8) \<noteq> None"
  shows "\<exists>out. crab_run bpf maps ds = Some out \<and>
    map (\<lambda>(a, d'). (a, get32 d' 30)) out = map (\<lambda>i. (XDP_TX, target ((unat rr + i) mod unat count))) [0..<length ds]"
  using assms(2-5)
proof (induction ds arbitrary: maps rr)
  case (Cons d ds)
  obtain mac where "next_target maps (target (unat rr mod unat count)) mac" using all_targets_next [OF Cons.prems(1,2)] .
  from crab_syn_target [OF assms(1) _ _ this, of d] Cons.prems(4)
  obtain d' where d': "xdp_prog_simple bpf maps d = Some (XDP_TX, advance maps, d')" "get32 d' 30 = target (unat rr mod unat count)" by auto
  have r: "cpu_rr_idx (advance maps) = Some (rr + 1)" using Cons.prems(2) by (simp add: advance_def)
  have u: "unat (rr + 1) = unat rr + 1" using Cons.prems(3) by (simp add: unat_word_ariths)
  obtain out where "crab_run bpf (advance maps) ds = Some out"
    "map (\<lambda>(a, d'). (a, get32 d' 30)) out = map (\<lambda>i. (XDP_TX, target ((unat (rr + 1) + i) mod unat count))) [0..<length ds]"
    using Cons.IH [of "advance maps" "rr + 1"] Cons.prems u r by auto
  moreover have "[0..<length (d # ds)] = 0 # map Suc [0..<length ds]" by (simp add: map_Suc_upt upt_conv_Cons del: upt_Suc)
  ultimately show ?case using d' u by (simp add: comp_def del: upt_Suc)
qed simp

theorem crab_round_robin_witness:
  "\<exists>out. crab_run example_helpers example_crab_maps [example_syn [], example_syn [], example_syn []] = Some out \<and>
     map (\<lambda>(a, d'). (a, get32 d' 30)) out = [(XDP_TX, 8), (XDP_TX, 7), (XDP_TX, 8)]"
proof -
  have "all_targets example_crab_maps 2 (\<lambda>k. word_of_nat k + 7)"
    by (auto simp: all_targets_def example_crab_maps_def less_2_cases_iff)
  moreover have "cpu_rr_idx example_crab_maps = Some 1" by (simp add: example_crab_maps_def)
  ultimately show ?thesis
    using crab_round_robin [OF example_helpers_library, of example_crab_maps 2 "\<lambda>k. word_of_nat k + 7" 1 "[example_syn [], example_syn [], example_syn []]"]
    by (simp add: example_syn_ok example_helpers_def upt_rec)
qed

text \<open>
  C34. Of a SYN packet that carries more than 40 bytes after its TCP header, only the first 40 are counted: the packet is sent with a
  TCP checksum that is off by the sum of the rest.
\<close>

theorem crab_long_syn_bad_checksum:
  assumes "crab_library bpf" "crab_syn d" "bpf_xdp_adjust_head bpf d (- 8) \<noteq> None" "next_target maps target mac"
    and "94 < length d" "words_sum (drop 94 d) mod 65535 \<noteq> 0"
  shows "\<exists>d'. xdp_prog_simple bpf maps d = Some (XDP_TX, advance maps, d') \<and> tcp_words d' mod 65535 \<noteq> 0"
proof -
  obtain I T where IT: "I = ip_out bpf (take 20 (drop 14 d)) target"
    "T = tcp_sealed bpf I (take 20 (drop 34 d)) (take 4 (drop 30 d)) (drop 54 d)" "length I = 20" "length T = 28"
    "xdp_prog_simple bpf maps d = Some (XDP_TX, advance maps, eth_out (take 14 d) mac @ I @ T @ drop 54 d)"
    using crab_syn_sent [OF assms(1-4)] by blast
  have E: "length (eth_out (take 14 d) mac) = 14" using assms(4,5) by (auto simp: eth_out_def next_target_def)
  have csum: "csum_library bpf" using assms(1) by (simp add: crab_library_def)
  have "words_sum (drop 54 d) = words_sum (take 40 (drop 54 d) @ drop 94 d)" using take_drop_split [of 40 54 d] by simp
  also have "\<dots> = words_sum (take 40 (drop 54 d)) + words_sum (drop 94 d)" using assms(5) by (intro words_sum_append) simp
  finally have "tcp_words (eth_out (take 14 d) mac @ I @ T @ drop 54 d) =
      words_sum (psd_header I) + words_sum T + words_sum (take 40 (drop 54 d)) + words_sum (drop 94 d)"
    by (simp add: tcp_words_sent E IT(3,4))
  moreover have "(words_sum (psd_header I) + words_sum T + words_sum (take 40 (drop 54 d))) mod 65535 = 0"
    unfolding IT(2) by (rule tcp_checksum [OF csum IT(3)]) (use assms(5) in auto)
  moreover have "(a + b) mod 65535 = b mod 65535" if "a mod 65535 = 0" for a b :: nat
    using mod_add_left_eq [of a 65535 b] that by simp
  ultimately have rest: "tcp_words (eth_out (take 14 d) mac @ I @ T @ drop 54 d) mod 65535 = words_sum (drop 94 d) mod 65535"
    by (simp only:)
  show ?thesis by (intro exI conjI, rule IT(5)) (unfold rest, rule assms(6))
qed

theorem crab_long_syn_bad_checksum_witness:
  "\<exists>d'. xdp_prog_simple example_helpers example_crab_maps (example_syn (replicate 42 1)) = Some (XDP_TX, advance example_crab_maps, d') \<and>
     tcp_words d' mod 65535 \<noteq> 0"
proof (rule crab_long_syn_bad_checksum [OF example_helpers_library example_syn_ok(1) _ example_target])
  have "drop 94 (example_syn (replicate 42 1)) = replicate 2 1"
    using drop_drop [of 40 54 "example_syn (replicate 42 1)"] by (simp add: example_syn_ok(3) drop_replicate)
  then have "drop 94 (example_syn (replicate 42 1)) = [1, 1]" by (simp add: numeral_2_eq_2)
  then show "words_sum (drop 94 (example_syn (replicate 42 1))) mod 65535 \<noteq> 0" by simp
qed (simp_all add: example_helpers_def example_syn_ok(2))

end
