(* ===== verification/BpfStub.thy ===== *)
theory BpfStub
  imports NfUtil
begin

text \<open>
  The maps with which the eBPF programs are run outside the kernel (\<open>ebpf-nfs/libbpf-stubbed/src/bpf_map_helper_defs.h\<close>): arrays and
  hash maps. A value that \<open>klee_int\<close> makes up is a parameter; a failed \<open>klee_assert\<close>, and a path that \<open>klee_assume\<close> gives up, is
  \<^term>\<open>None\<close>. Names of maps, and the allocation of the structures, which is asserted to succeed, are left out.
\<close>

section \<open>Arrays\<close>

record ArrayStub =
  as_data :: "u8 list"
  as_value_size :: u32
  as_capacity :: u32

definition array_allocate :: "u32 \<Rightarrow> u32 \<Rightarrow> ArrayStub" where
  "array_allocate value_size max_entries =
     \<lparr>as_data = replicate (unat max_entries * unat value_size) 0, as_value_size = value_size, as_capacity = max_entries\<rparr>"

text \<open>The result is the offset of the element in the data.\<close>

definition array_lookup_elem :: "ArrayStub \<Rightarrow> u32 \<Rightarrow> nat option" where
  "array_lookup_elem array index = do {
     assertion (index < as_capacity array);
     Some (unat (index * as_value_size array))
   }"

definition array_update_elem :: "ArrayStub \<Rightarrow> u32 \<Rightarrow> u8 list \<Rightarrow> u64 \<Rightarrow> (int \<times> ArrayStub) option" where
  "array_update_elem array index val flags = do {
     assertion (flags = 0);
     assertion (index < as_capacity array);
     let val_ptr = unat (index * as_value_size array);
     d \<leftarrow> st_bytes (as_data array) val_ptr (take (unat (as_value_size array)) val);
     Some (0, array\<lparr>as_data := d\<rparr>)
   }"

section \<open>Hash maps\<close>

definition NUM_ELEMS :: nat where
  "NUM_ELEMS = 4"

record ('k, 'v) MapStub =
  keys_present :: "'k list"
  values_present :: "'v list"
  key_deleted :: "bool list"
  keys_cached :: "bool list"
  keys_seen :: nat

text \<open>\<open>any_keys\<close> and \<open>any_values\<close> are what the arrays hold at first: zero bytes and symbolic values.\<close>

definition map_allocate_stub :: "'k list \<Rightarrow> 'v list \<Rightarrow> ('k, 'v) MapStub" where
  "map_allocate_stub any_keys any_values =
     \<lparr>keys_present = any_keys, values_present = any_values, key_deleted = replicate NUM_ELEMS False,
      keys_cached = replicate NUM_ELEMS False, keys_seen = 0\<rparr>"

text \<open>
  The loops look for the first position where \<open>memcmp\<close> is not zero, that is, the key differs. The number of positions still to look
  at is the last argument.
\<close>

fun stub_scan :: "'k list \<Rightarrow> 'k \<Rightarrow> nat \<Rightarrow> nat \<Rightarrow> nat option option" where
  "stub_scan keys key n 0 = Some None"
| "stub_scan keys key n (Suc left) = do {
     k \<leftarrow> rd keys (int n);
     if k \<noteq> key then Some (Some n) else stub_scan keys key (n + 1) left
   }"

text \<open>The result is the position of the value, or \<open>None\<close> for \<open>NULL\<close>.\<close>

definition map_lookup_elem :: "bool \<Rightarrow> ('k, 'v) MapStub \<Rightarrow> 'k \<Rightarrow> (nat option \<times> ('k, 'v) MapStub) option" where
  "map_lookup_elem map_has_this_key m key = do {
     found \<leftarrow> stub_scan (keys_present m) key 0 (keys_seen m);
     case found of
       Some n \<Rightarrow> do {
         deleted \<leftarrow> rd (key_deleted m) (int n);
         if deleted then Some (None, m)
         else do {
           cached \<leftarrow> wr (keys_cached m) (int n) True;
           Some (Some n, m\<lparr>keys_cached := cached\<rparr>)
         }
       }
     | None \<Rightarrow> do {
         assertion (keys_seen m < NUM_ELEMS);
         keys \<leftarrow> wr (keys_present m) (int (keys_seen m)) key;
         deleted \<leftarrow> wr (key_deleted m) (int (keys_seen m)) (\<not> map_has_this_key);
         Some (if map_has_this_key then Some (keys_seen m) else None,
           m\<lparr>keys_present := keys, key_deleted := deleted, keys_seen := keys_seen m + 1\<rparr>)
       }
   }"

definition map_insert_stub :: "('k, 'v) MapStub \<Rightarrow> 'k \<Rightarrow> 'v \<Rightarrow> (int \<times> ('k, 'v) MapStub) option" where
  "map_insert_stub m key val = do {
     assertion (keys_seen m < NUM_ELEMS);
     keys \<leftarrow> wr (keys_present m) (int (keys_seen m)) key;
     vals \<leftarrow> wr (values_present m) (int (keys_seen m)) val;
     deleted \<leftarrow> wr (key_deleted m) (int (keys_seen m)) False;
     Some (0, m\<lparr>keys_present := keys, values_present := vals, key_deleted := deleted, keys_seen := keys_seen m + 1\<rparr>)
   }"

definition map_update_elem :: "('k, 'v) MapStub \<Rightarrow> 'k \<Rightarrow> 'v \<Rightarrow> u64 \<Rightarrow> (int \<times> ('k, 'v) MapStub) option" where
  "map_update_elem m key val flags =
     (if flags > 0 then do {
        found \<leftarrow> stub_scan (keys_present m) key 0 (keys_seen m);
        case found of
          Some n \<Rightarrow> do {
            deleted \<leftarrow> rd (key_deleted m) (int n);
            assertion deleted;
            deleted \<leftarrow> wr (key_deleted m) (int n) False;
            vals \<leftarrow> wr (values_present m) (int n) val;
            cached \<leftarrow> wr (keys_cached m) (int n) True;
            Some (0, m\<lparr>key_deleted := deleted, values_present := vals, keys_cached := cached\<rparr>)
          }
        | None \<Rightarrow> map_insert_stub m key val
      }
      else map_insert_stub m key val)"

section \<open>Properties\<close>

text \<open>
  In an array, what was written at an index is read back there and no other element changes, as long as the size of the array
  does not overflow the 32 bits in which the offset is computed.
\<close>

lemma array_stub_roundtrip:
  assumes "unat max_entries * unat value_size < 2 ^ 32" "a = array_allocate value_size max_entries\<lparr>as_data := d\<rparr>"
    and "length d = unat max_entries * unat value_size" "i < max_entries" "length v = unat value_size"
  shows "\<exists>a'. array_update_elem a i v 0 = Some (0, a') \<and>
    (\<exists>p. array_lookup_elem a' i = Some p \<and> take (unat value_size) (drop p (as_data a')) = v) \<and>
    (\<forall>j < max_entries. j \<noteq> i \<longrightarrow> (\<exists>p. array_lookup_elem a' j = Some p \<and>
       take (unat value_size) (drop p (as_data a')) = take (unat value_size) (drop p d)))"
proof -
  let ?n = "unat value_size"
  have off: "unat (j * value_size) = unat j * ?n" "unat j * ?n + ?n \<le> length d" if "j < max_entries" for j
  proof -
    have "unat j + 1 \<le> unat max_entries" using that by (simp add: word_less_nat_alt)
    then have "(unat j + 1) * ?n \<le> unat max_entries * ?n" by (rule mult_le_mono1)
    then show "unat j * ?n + ?n \<le> length d" using assms(3) by simp
    then show "unat (j * value_size) = unat j * ?n" using assms(1,3) by (simp add: unat_word_ariths)
  qed
  let ?d' = "put_bytes d (unat i * ?n) v"
  have len: "unat i * ?n + length v \<le> length d" using off(2) [OF assms(4)] assms(5) by simp
  have up: "array_update_elem a i v 0 = Some (0, a\<lparr>as_data := ?d'\<rparr>)"
    using assms(2,4,5) len off(1) [OF assms(4)] by (simp add: array_update_elem_def array_allocate_def st_bytes_def)
  have look: "array_lookup_elem (a\<lparr>as_data := ?d'\<rparr>) j = Some (unat j * ?n)" if "j < max_entries" for j
    using that assms(2) off(1) [OF that] by (simp add: array_lookup_elem_def array_allocate_def)
  have same: "take ?n (drop (unat i * ?n) ?d') = v" using take_put_bytes [OF len] assms(5) by simp
  have other: "take ?n (drop (unat j * ?n) ?d') = take ?n (drop (unat j * ?n) d)" if j: "j < max_entries" "j \<noteq> i" for j
  proof (rule nth_equalityI)
    have "unat j \<noteq> unat i" using j(2) by (simp add: word_unat_eq_iff)
    then have "unat j + 1 \<le> unat i \<or> unat i + 1 \<le> unat j" by linarith
    then have apart: "unat j * ?n + ?n \<le> unat i * ?n \<or> unat i * ?n + ?n \<le> unat j * ?n"
      using mult_le_mono1 [of "unat j + 1" "unat i" ?n] mult_le_mono1 [of "unat i + 1" "unat j" ?n] by auto
    have l: "length ?d' = length d" using len by (simp add: put_bytes_def)
    then show "length (take ?n (drop (unat j * ?n) ?d')) = length (take ?n (drop (unat j * ?n) d))" by simp
    fix k assume "k < length (take ?n (drop (unat j * ?n) ?d'))"
    then show "take ?n (drop (unat j * ?n) ?d') ! k = take ?n (drop (unat j * ?n) d) ! k"
      using off(2) [OF j(1)] apart assms(5) len l by (auto intro!: nth_put_bytes)
  qed
  show ?thesis using up look [OF assms(4)] same look other by auto
qed

text \<open>
  The hash map takes keys that differ for equal: after one insertion into a new map, the lookup of every other key finds the
  inserted value, and the lookup of the inserted key does not find it but invents an answer.
\<close>

lemma map_stub_confuses_keys:
  assumes "2 \<le> length any_keys" "length any_values = length any_keys"
  shows "\<exists>m. map_update_elem (map_allocate_stub any_keys any_values) key v flags = Some (0, m) \<and>
    (\<forall>other b. other \<noteq> key \<longrightarrow> (\<exists>m'. map_lookup_elem b m other = Some (Some 0, m') \<and> values_present m' ! 0 = v)) \<and>
    (\<exists>m'. map_lookup_elem False m key = Some (None, m'))"
  using assms
  by (auto simp: map_update_elem_def map_insert_stub_def map_lookup_elem_def map_allocate_stub_def NUM_ELEMS_def rd_def wr_def)

end
