(* ===== verification/DoubleMap.thy ===== *)
theory DoubleMap
  imports HashMap DoubleChain
begin

text \<open>
  The map with two keys of \<open>dpdk-nfs/nf/lib/containers/double-map.c\<close>, and the expiry loop of \<open>lib/expirator.c\<close> that works on it. The
  values are stored in the map; each of the two hash tables holds pointers to the keys inside the values. The functions that the
  caller registers, which copy and destroy values and find the keys in them, are fields of the record, as in the code.
\<close>

section \<open>The code\<close>

text \<open>
  A key is passed as a pointer: to the key inside the value stored at an index, or to an object of the caller.
  Nothing is known about reading through a null pointer.
\<close>

datatype 'k dkey = Null | In_value int | Caller 'k

record ('ka, 'kb, 'v) DoubleMap =
  dm_value_size :: int
  dm_cpy :: "'v \<Rightarrow> 'v \<Rightarrow> 'v"
  dm_dstr :: "'v \<Rightarrow> 'v"
  dm_values :: "'v list"
  dm_bbs_a :: "int list"
  dm_kps_a :: "'ka dkey list"
  dm_khs_a :: "int list"
  dm_chns_a :: "int list"
  dm_inds_a :: "int list"
  dm_eq_a :: "'ka \<Rightarrow> 'ka \<Rightarrow> bool"
  dm_hsh_a :: "'ka \<Rightarrow> int"
  dm_bbs_b :: "int list"
  dm_kps_b :: "'kb dkey list"
  dm_khs_b :: "int list"
  dm_chns_b :: "int list"
  dm_inds_b :: "int list"
  dm_eq_b :: "'kb \<Rightarrow> 'kb \<Rightarrow> bool"
  dm_hsh_b :: "'kb \<Rightarrow> int"
  dm_exk :: "'v \<Rightarrow> 'ka \<times> 'kb"
  dm_pk :: "'v \<Rightarrow> 'ka \<Rightarrow> 'kb \<Rightarrow> 'v"
  dm_n_vals :: int
  dm_capacity :: int

text \<open>
  The twelve calls of \<open>malloc\<close> with the clean-up of each failure; the contents of fresh memory is arbitrary (\<open>vals\<close>, \<open>ints\<close>,
  \<open>ptrs_a\<close>, \<open>ptrs_b\<close>). The size of the block of values is computed as an \<open>int\<close>.
\<close>

definition dmap_allocate ::
  "('ka \<Rightarrow> 'ka \<Rightarrow> bool) \<Rightarrow> ('ka \<Rightarrow> int) \<Rightarrow> ('kb \<Rightarrow> 'kb \<Rightarrow> bool) \<Rightarrow> ('kb \<Rightarrow> int) \<Rightarrow> int \<Rightarrow> ('v \<Rightarrow> 'v \<Rightarrow> 'v) \<Rightarrow> ('v \<Rightarrow> 'v)
   \<Rightarrow> ('v \<Rightarrow> 'ka \<times> 'kb) \<Rightarrow> ('v \<Rightarrow> 'ka \<Rightarrow> 'kb \<Rightarrow> 'v) \<Rightarrow> int \<Rightarrow> ('ka, 'kb, 'v) DoubleMap option
   \<Rightarrow> (nat \<Rightarrow> 'v) \<Rightarrow> (nat \<Rightarrow> nat \<Rightarrow> int) \<Rightarrow> (nat \<Rightarrow> nat \<Rightarrow> 'ka dkey) \<Rightarrow> (nat \<Rightarrow> nat \<Rightarrow> 'kb dkey) \<Rightarrow> heap
   \<Rightarrow> (int \<times> ('ka, 'kb, 'v) DoubleMap option \<times> heap) option" where
  "dmap_allocate eq_a hsh_a eq_b hsh_b value_size v_cpy v_destr dexk dpk capacity map_out vals ints ptrs_a ptrs_b h =
     (case malloc h of
        (None, h) \<Rightarrow> Some (0, map_out, h)
      | (Some map_alloc, h) \<Rightarrow>
     if \<not> is_c_int (value_size * capacity) then None else
     (case malloc h of
        (None, h) \<Rightarrow> do {
          h \<leftarrow> free_all [map_alloc] h;
          Some (0, map_out, h) }
      | (Some vals_alloc, h) \<Rightarrow>
     (case malloc h of
        (None, h) \<Rightarrow> do {
          h \<leftarrow> free_all [vals_alloc, map_alloc] h;
          Some (0, map_out, h) }
      | (Some bbs_a_alloc, h) \<Rightarrow>
     (case malloc h of
        (None, h) \<Rightarrow> do {
          h \<leftarrow> free_all [bbs_a_alloc, vals_alloc, map_alloc] h;
          Some (0, map_out, h) }
      | (Some kps_a_alloc, h) \<Rightarrow>
     (case malloc h of
        (None, h) \<Rightarrow> do {
          h \<leftarrow> free_all [kps_a_alloc, bbs_a_alloc, vals_alloc, map_alloc] h;
          Some (0, map_out, h) }
      | (Some khs_a_alloc, h) \<Rightarrow>
     (case malloc h of
        (None, h) \<Rightarrow> do {
          h \<leftarrow> free_all [khs_a_alloc, kps_a_alloc, bbs_a_alloc, vals_alloc, map_alloc] h;
          Some (0, map_out, h) }
      | (Some chns_a_alloc, h) \<Rightarrow>
     (case malloc h of
        (None, h) \<Rightarrow> do {
          h \<leftarrow> free_all [chns_a_alloc, khs_a_alloc, kps_a_alloc, bbs_a_alloc, vals_alloc, map_alloc] h;
          Some (0, map_out, h) }
      | (Some inds_a_alloc, h) \<Rightarrow>
     (case malloc h of
        (None, h) \<Rightarrow> do {
          h \<leftarrow> free_all [inds_a_alloc, chns_a_alloc, khs_a_alloc, kps_a_alloc, bbs_a_alloc, vals_alloc, map_alloc] h;
          Some (0, map_out, h) }
      | (Some bbs_b_alloc, h) \<Rightarrow>
     (case malloc h of
        (None, h) \<Rightarrow> do {
          h \<leftarrow> free_all [bbs_b_alloc, inds_a_alloc, chns_a_alloc, khs_a_alloc, kps_a_alloc, bbs_a_alloc, vals_alloc, map_alloc] h;
          Some (0, map_out, h) }
      | (Some kps_b_alloc, h) \<Rightarrow>
     (case malloc h of
        (None, h) \<Rightarrow> do {
          h \<leftarrow> free_all [kps_b_alloc, bbs_b_alloc, inds_a_alloc, chns_a_alloc, khs_a_alloc, kps_a_alloc, bbs_a_alloc, vals_alloc, map_alloc] h;
          Some (0, map_out, h) }
      | (Some khs_b_alloc, h) \<Rightarrow>
     (case malloc h of
        (None, h) \<Rightarrow> do {
          h \<leftarrow> free_all [khs_b_alloc, kps_b_alloc, bbs_b_alloc, inds_a_alloc, chns_a_alloc, khs_a_alloc, kps_a_alloc, bbs_a_alloc, vals_alloc, map_alloc] h;
          Some (0, map_out, h) }
      | (Some inds_b_alloc, h) \<Rightarrow>
     (case malloc h of
        (None, h) \<Rightarrow> do {
          h \<leftarrow> free_all [inds_b_alloc, khs_b_alloc, kps_b_alloc, bbs_b_alloc, inds_a_alloc, chns_a_alloc, khs_a_alloc, kps_a_alloc, bbs_a_alloc, vals_alloc, map_alloc] h;
          Some (0, map_out, h) }
      | (Some chns_b_alloc, h) \<Rightarrow> do {
          let array = (\<lambda>b. map (ints b) [0..<nat capacity]);
          (bbs_a, chns_a) \<leftarrow> map_impl_init (array bbs_a_alloc) (array chns_a_alloc) capacity;
          (bbs_b, chns_b) \<leftarrow> map_impl_init (array bbs_b_alloc) (array chns_b_alloc) capacity;
          Some (1,
            Some \<lparr>dm_value_size = value_size, dm_cpy = v_cpy, dm_dstr = v_destr, dm_values = map vals [0..<nat capacity],
              dm_bbs_a = bbs_a, dm_kps_a = map (ptrs_a kps_a_alloc) [0..<nat capacity], dm_khs_a = array khs_a_alloc,
              dm_chns_a = chns_a, dm_inds_a = array inds_a_alloc, dm_eq_a = eq_a, dm_hsh_a = hsh_a,
              dm_bbs_b = bbs_b, dm_kps_b = map (ptrs_b kps_b_alloc) [0..<nat capacity], dm_khs_b = array khs_b_alloc,
              dm_chns_b = chns_b, dm_inds_b = array inds_b_alloc, dm_eq_b = eq_b, dm_hsh_b = hsh_b,
              dm_exk = dexk, dm_pk = dpk, dm_n_vals = 0, dm_capacity = capacity\<rparr>,
            h) }))))))))))))"

text \<open>What the key pointers point to.\<close>

primrec deref_in :: "('v \<Rightarrow> 'k) \<Rightarrow> 'v list \<Rightarrow> 'k dkey \<Rightarrow> 'k" where
  "deref_in key vs Null = undefined"
| "deref_in key vs (In_value i) = key (vs ! nat i)"
| "deref_in key vs (Caller k) = k"

definition deref_a :: "('ka, 'kb, 'v) DoubleMap \<Rightarrow> 'ka dkey \<Rightarrow> 'ka" where
  "deref_a m = deref_in (\<lambda>v. fst (dm_exk m v)) (dm_values m)"

definition deref_b :: "('ka, 'kb, 'v) DoubleMap \<Rightarrow> 'kb dkey \<Rightarrow> 'kb" where
  "deref_b m = deref_in (\<lambda>v. snd (dm_exk m v)) (dm_values m)"

definition dmap_get_a :: "('ka, 'kb, 'v) DoubleMap \<Rightarrow> 'ka dkey \<Rightarrow> int \<Rightarrow> (int \<times> int) option" where
  "dmap_get_a m key index =
     (let hash = dm_hsh_a m (deref_a m key)
      in map_impl_get (dm_bbs_a m) (dm_kps_a m) (dm_khs_a m) (dm_chns_a m) (dm_inds_a m) key
           (\<lambda>p q. dm_eq_a m (deref_a m p) (deref_a m q)) hash index (dm_capacity m))"

definition dmap_get_b :: "('ka, 'kb, 'v) DoubleMap \<Rightarrow> 'kb dkey \<Rightarrow> int \<Rightarrow> (int \<times> int) option" where
  "dmap_get_b m key index =
     (let hash = dm_hsh_b m (deref_b m key)
      in map_impl_get (dm_bbs_b m) (dm_kps_b m) (dm_khs_b m) (dm_chns_b m) (dm_inds_b m) key
           (\<lambda>p q. dm_eq_b m (deref_b m p) (deref_b m q)) hash index (dm_capacity m))"

definition dmap_put :: "('ka, 'kb, 'v) DoubleMap \<Rightarrow> 'v \<Rightarrow> int \<Rightarrow> (int \<times> ('ka, 'kb, 'v) DoubleMap) option" where
  "dmap_put m val index = do {
     assertion (is_c_int (index * dm_value_size m));
     old \<leftarrow> rd (dm_values m) index;
     values \<leftarrow> wr (dm_values m) index (dm_cpy m old val);
     let m = m\<lparr>dm_values := values\<rparr>;
     let key_a = In_value index;
     let key_b = In_value index;
     let hash1 = dm_hsh_a m (deref_a m key_a);
     (bbs, kps, khs, chns, inds) \<leftarrow>
       map_impl_put (dm_bbs_a m) (dm_kps_a m) (dm_khs_a m) (dm_chns_a m) (dm_inds_a m) key_a hash1 index (dm_capacity m);
     let m = m\<lparr>dm_bbs_a := bbs, dm_kps_a := kps, dm_khs_a := khs, dm_chns_a := chns, dm_inds_a := inds\<rparr>;
     let hash2 = dm_hsh_b m (deref_b m key_b);
     (bbs, kps, khs, chns, inds) \<leftarrow>
       map_impl_put (dm_bbs_b m) (dm_kps_b m) (dm_khs_b m) (dm_chns_b m) (dm_inds_b m) key_b hash2 index (dm_capacity m);
     let m = m\<lparr>dm_bbs_b := bbs, dm_kps_b := kps, dm_khs_b := khs, dm_chns_b := chns, dm_inds_b := inds\<rparr>;
     let m = m\<lparr>dm_n_vals := dm_n_vals m + 1\<rparr>;
     my_value \<leftarrow> rd (dm_values m) index;
     values \<leftarrow> wr (dm_values m) index (dm_pk m my_value (deref_a m key_a) (deref_b m key_b));
     Some (1, m\<lparr>dm_values := values\<rparr>)
   }"

definition dmap_get_value :: "('ka, 'kb, 'v) DoubleMap \<Rightarrow> int \<Rightarrow> 'v \<Rightarrow> 'v option" where
  "dmap_get_value m index value_out = do {
     assertion (is_c_int (index * dm_value_size m));
     my_value \<leftarrow> rd (dm_values m) index;
     Some (dm_cpy m value_out my_value)
   }"

definition dmap_erase :: "('ka, 'kb, 'v) DoubleMap \<Rightarrow> int \<Rightarrow> (int \<times> ('ka, 'kb, 'v) DoubleMap) option" where
  "dmap_erase m index = do {
     assertion (is_c_int (index * dm_value_size m));
     my_value \<leftarrow> rd (dm_values m) index;
     let key_a = In_value index;
     let key_b = In_value index;
     let hash1 = dm_hsh_a m (deref_a m key_a);
     (bbs, chns, out_key_a) \<leftarrow>
       map_impl_erase (dm_bbs_a m) (dm_kps_a m) (dm_khs_a m) (dm_chns_a m) key_a
         (\<lambda>p q. dm_eq_a m (deref_a m p) (deref_a m q)) hash1 (dm_capacity m) Null;
     let m = m\<lparr>dm_bbs_a := bbs, dm_chns_a := chns\<rparr>;
     let hash2 = dm_hsh_b m (deref_b m key_b);
     (bbs, chns, out_key_b) \<leftarrow>
       map_impl_erase (dm_bbs_b m) (dm_kps_b m) (dm_khs_b m) (dm_chns_b m) key_b
         (\<lambda>p q. dm_eq_b m (deref_b m p) (deref_b m q)) hash2 (dm_capacity m) Null;
     let m = m\<lparr>dm_bbs_b := bbs, dm_chns_b := chns\<rparr>;
     let my_value = dm_pk m my_value (deref_a m key_a) (deref_b m key_b);
     let my_value = dm_pk m my_value (deref_a m out_key_a) (deref_b m out_key_b);
     values \<leftarrow> wr (dm_values m) index (dm_dstr m my_value);
     Some (1, m\<lparr>dm_values := values, dm_n_vals := dm_n_vals m - 1\<rparr>)
   }"

definition dmap_size :: "('ka, 'kb, 'v) DoubleMap \<Rightarrow> int" where
  "dmap_size m = dm_n_vals m"

text \<open>\<open>expire_items\<close> of \<open>expirator.c\<close>.\<close>

partial_function (option) expire_items_loop ::
  "DoubleChain \<Rightarrow> ('ka, 'kb, 'v) DoubleMap \<Rightarrow> int \<Rightarrow> int \<Rightarrow> int \<Rightarrow> (int \<times> DoubleChain \<times> ('ka, 'kb, 'v) DoubleMap) option" where
  "expire_items_loop chain m time index count = do {
     (more, chain, index) \<leftarrow> dchain_expire_one_index chain index time;
     if more \<noteq> 0 then do {
       (r, m) \<leftarrow> dmap_erase m index;
       expire_items_loop chain m time index (count + 1)
     } else Some (count, chain, m)
   }"

definition expire_items ::
  "DoubleChain \<Rightarrow> ('ka, 'kb, 'v) DoubleMap \<Rightarrow> int \<Rightarrow> (int \<times> DoubleChain \<times> ('ka, 'kb, 'v) DoubleMap) option" where
  "expire_items chain m time = expire_items_loop chain m time (- 1) 0"

section \<open>The two hash tables\<close>

text \<open>The tables as maps of \<open>map.c\<close>, so that what is proved of those applies.\<close>

definition view_a :: "('ka, 'kb, 'v) DoubleMap \<Rightarrow> ('ka dkey, 'ka) cmap" where
  "view_a m = \<lparr>m_busybits = dm_bbs_a m, m_keyps = dm_kps_a m, m_khs = dm_khs_a m, m_chns = dm_chns_a m, m_vals = dm_inds_a m,
     m_capacity = dm_capacity m, m_size = dm_n_vals m, m_keys_eq = dm_eq_a m, m_khash = dm_hsh_a m\<rparr>"

definition view_b :: "('ka, 'kb, 'v) DoubleMap \<Rightarrow> ('kb dkey, 'kb) cmap" where
  "view_b m = \<lparr>m_busybits = dm_bbs_b m, m_keyps = dm_kps_b m, m_khs = dm_khs_b m, m_chns = dm_chns_b m, m_vals = dm_inds_b m,
     m_capacity = dm_capacity m, m_size = dm_n_vals m, m_keys_eq = dm_eq_b m, m_khash = dm_hsh_b m\<rparr>"

text \<open>A double map that holds a table: its arrays replaced by those of the table.\<close>

definition with_a :: "('ka, 'kb, 'v) DoubleMap \<Rightarrow> ('ka dkey, 'ka) cmap \<Rightarrow> ('ka, 'kb, 'v) DoubleMap" where
  "with_a m t = m\<lparr>dm_bbs_a := m_busybits t, dm_kps_a := m_keyps t, dm_khs_a := m_khs t, dm_chns_a := m_chns t, dm_inds_a := m_vals t\<rparr>"

definition with_b :: "('ka, 'kb, 'v) DoubleMap \<Rightarrow> ('kb dkey, 'kb) cmap \<Rightarrow> ('ka, 'kb, 'v) DoubleMap" where
  "with_b m t = m\<lparr>dm_bbs_b := m_busybits t, dm_kps_b := m_keyps t, dm_khs_b := m_khs t, dm_chns_b := m_chns t, dm_inds_b := m_vals t\<rparr>"

lemma with_fields [simp]:
  "dm_values (with_a m t) = dm_values m" "dm_values (with_b m u) = dm_values m"
  "dm_value_size (with_a m t) = dm_value_size m" "dm_value_size (with_b m u) = dm_value_size m"
  "dm_capacity (with_a m t) = dm_capacity m" "dm_capacity (with_b m u) = dm_capacity m"
  "dm_cpy (with_a m t) = dm_cpy m" "dm_cpy (with_b m u) = dm_cpy m"
  "dm_dstr (with_a m t) = dm_dstr m" "dm_dstr (with_b m u) = dm_dstr m"
  "dm_exk (with_a m t) = dm_exk m" "dm_exk (with_b m u) = dm_exk m"
  "dm_pk (with_a m t) = dm_pk m" "dm_pk (with_b m u) = dm_pk m"
  "dm_n_vals (with_a m t) = dm_n_vals m" "dm_n_vals (with_b m u) = dm_n_vals m"
  by (simp_all add: with_a_def with_b_def)

lemma dmap_get_views:
  "dmap_get_a m key x = map_get (deref_a m) (view_a m) key x"
  "dmap_get_b m key' x = map_get (deref_b m) (view_b m) key' x"
  by (simp_all add: dmap_get_a_def dmap_get_b_def map_get_def view_a_def view_b_def)

lemma deref_other [simp]:
  "deref_a (with_a m t) = deref_a m" "deref_a (with_b m u) = deref_a m" "deref_b (with_a m t) = deref_b m" "deref_b (with_b m u) = deref_b m"
  "deref_a (m\<lparr>dm_n_vals := n\<rparr>) = deref_a m" "deref_b (m\<lparr>dm_n_vals := n\<rparr>) = deref_b m"
  by (simp_all add: deref_a_def deref_b_def with_a_def with_b_def)

lemma map_put_fields:
  assumes "map_put d t p v = Some t'"
  shows "m_capacity t' = m_capacity t" "m_size t' = m_size t + 1" "m_keys_eq t' = m_keys_eq t" "m_khash t' = m_khash t"
  using assms by (auto simp: map_put_def Let_def bind_eq_Some_conv)

lemma map_erase_fields:
  assumes "map_erase d t p x = Some (t', q)"
  shows "m_capacity t' = m_capacity t" "m_size t' = m_size t - 1" "m_keys_eq t' = m_keys_eq t" "m_khash t' = m_khash t"
    "m_keyps t' = m_keyps t" "m_khs t' = m_khs t" "m_vals t' = m_vals t"
  using assms by (auto simp: map_erase_def Let_def bind_eq_Some_conv)

lemma view_with:
  "m_capacity t = dm_capacity m \<Longrightarrow> m_keys_eq t = dm_eq_a m \<Longrightarrow> m_khash t = dm_hsh_a m \<Longrightarrow> m_size t = n \<Longrightarrow>
    view_a (with_b (with_a m t) u\<lparr>dm_n_vals := n\<rparr>) = t"
  "m_capacity u = dm_capacity m \<Longrightarrow> m_keys_eq u = dm_eq_b m \<Longrightarrow> m_khash u = dm_hsh_b m \<Longrightarrow> m_size u = n \<Longrightarrow>
    view_b (with_b (with_a m t) u\<lparr>dm_n_vals := n\<rparr>) = u"
  by (simp_all add: view_a_def view_b_def with_a_def with_b_def)

lemma view_fields [simp]:
  "m_capacity (view_a m) = dm_capacity m" "m_size (view_a m) = dm_n_vals m" "m_keys_eq (view_a m) = dm_eq_a m" "m_khash (view_a m) = dm_hsh_a m"
  "m_capacity (view_b m) = dm_capacity m" "m_size (view_b m) = dm_n_vals m" "m_keys_eq (view_b m) = dm_eq_b m" "m_khash (view_b m) = dm_hsh_b m"
  by (simp_all add: view_a_def view_b_def)

lemma view_values [simp]: "view_a (m\<lparr>dm_values := vs\<rparr>) = view_a m" "view_b (m\<lparr>dm_values := vs\<rparr>) = view_b m"
  by (simp_all add: view_a_def view_b_def)

section \<open>Invariant and abstraction\<close>

text \<open>The indexes in use, and the values stored at them.\<close>

definition dmap_used :: "('ka, 'kb, 'v) DoubleMap \<Rightarrow> int set" where
  "dmap_used m = snd ` map_entries (view_a m)"

definition dmap_abs :: "('ka, 'kb, 'v) DoubleMap \<Rightarrow> int \<rightharpoonup> 'v" where
  "dmap_abs m i = (if i \<in> dmap_used m then Some (dm_values m ! nat i) else None)"

text \<open>What the registered functions are required to do (their types in \<open>double-map.h\<close>).\<close>

definition dmap_functions :: "('ka, 'kb, 'v) DoubleMap \<Rightarrow> bool" where
  "dmap_functions m \<longleftrightarrow> (\<forall>d s. dm_cpy m d s = s) \<and> (\<forall>v. dm_pk m v (fst (dm_exk m v)) (snd (dm_exk m v)) = v)"

definition dmap_inv :: "('ka, 'kb, 'v) DoubleMap \<Rightarrow> bool" where
  "dmap_inv m \<longleftrightarrow> dmap_functions m \<and> 0 < dm_value_size m \<and> is_c_int (dm_value_size m * dm_capacity m) \<and>
     dm_capacity m = int (length (dm_values m)) \<and> dmap_used m \<subseteq> {0..<dm_capacity m} \<and>
     map_inv (deref_a m) (view_a m) \<and> map_inv (deref_b m) (view_b m) \<and>
     map_entries (view_a m) = (\<lambda>i. (In_value i, i)) ` dmap_used m \<and> map_entries (view_b m) = (\<lambda>i. (In_value i, i)) ` dmap_used m"

lemma dmap_invD:
  assumes "dmap_inv m"
  shows "\<And>d s. dm_cpy m d s = s" "\<And>v. dm_pk m v (fst (dm_exk m v)) (snd (dm_exk m v)) = v"
    "dm_capacity m = int (length (dm_values m))" "dmap_used m \<subseteq> {0..<dm_capacity m}"
    "map_inv (deref_a m) (view_a m)" "map_inv (deref_b m) (view_b m)"
    "map_entries (view_a m) = (\<lambda>i. (In_value i, i)) ` dmap_used m" "map_entries (view_b m) = (\<lambda>i. (In_value i, i)) ` dmap_used m"
    "int (map_cap (view_a m)) = dm_capacity m" "int (map_cap (view_b m)) = dm_capacity m"
  using assms by (auto simp: dmap_inv_def dmap_functions_def map_inv_def view_a_def view_b_def)

lemma offset_c_int:
  assumes "dmap_inv m" "0 \<le> i" "i < dm_capacity m"
  shows "is_c_int (i * dm_value_size m)"
proof -
  have v: "0 < dm_value_size m" "dm_value_size m * dm_capacity m \<le> INT_MAX" using assms(1) by (auto simp: dmap_inv_def is_c_int_def)
  have "i * dm_value_size m \<le> dm_capacity m * dm_value_size m" using assms(3) v(1) by (simp add: mult_right_mono)
  then have "i * dm_value_size m \<le> INT_MAX" using v(2) by (simp add: mult.commute)
  moreover have "0 \<le> i * dm_value_size m" using assms(2) v(1) by simp
  ultimately show ?thesis by (simp add: is_c_int_def INT_MIN_def)
qed

lemma dmap_used_card:
  assumes "dmap_inv m"
  shows "card (map_entries (view_a m)) = card (dmap_used m)" "card (map_entries (view_b m)) = card (dmap_used m)"
    "dm_n_vals m = int (card (dmap_used m))"
proof -
  show a: "card (map_entries (view_a m)) = card (dmap_used m)" unfolding dmap_invD(7) [OF assms] by (rule card_image) (auto intro: inj_onI)
  show "card (map_entries (view_b m)) = card (dmap_used m)" unfolding dmap_invD(8) [OF assms] by (rule card_image) (auto intro: inj_onI)
  show "dm_n_vals m = int (card (dmap_used m))" using dmap_invD(5) [OF assms] a by (simp add: map_inv_def)
qed

section \<open>Looking up\<close>

lemma dmap_abs_Some: "dmap_abs m i = Some v \<longleftrightarrow> i \<in> dmap_used m \<and> v = dm_values m ! nat i"
  by (auto simp: dmap_abs_def)

lemma dmap_get_a_hit:
  assumes "dmap_inv m" "dmap_abs m i = Some v" "fst (dm_exk m v) = deref_a m key"
  shows "dmap_get_a m key x = Some (1, i)"
  unfolding dmap_get_views
  by (rule hm.get_hit [OF dmap_invD(5) [OF assms(1)], of "In_value i"])
    (use assms dmap_invD(7) [OF assms(1)] in \<open>auto simp: dmap_abs_Some deref_a_def\<close>)

lemma dmap_get_a_miss:
  assumes "dmap_inv m" "\<And>i v. dmap_abs m i = Some v \<Longrightarrow> fst (dm_exk m v) \<noteq> deref_a m key"
  shows "dmap_get_a m key x = Some (0, x)"
  unfolding dmap_get_views
  by (rule hm.get_miss [OF dmap_invD(5) [OF assms(1)]])
    (use assms(2) dmap_invD(7) [OF assms(1)] in \<open>auto simp: dmap_abs_Some deref_a_def\<close>)

lemma dmap_get_b_hit:
  assumes "dmap_inv m" "dmap_abs m i = Some v" "snd (dm_exk m v) = deref_b m key"
  shows "dmap_get_b m key x = Some (1, i)"
  unfolding dmap_get_views
  by (rule hm.get_hit [OF dmap_invD(6) [OF assms(1)], of "In_value i"])
    (use assms dmap_invD(8) [OF assms(1)] in \<open>auto simp: dmap_abs_Some deref_b_def\<close>)

lemma dmap_get_b_miss:
  assumes "dmap_inv m" "\<And>i v. dmap_abs m i = Some v \<Longrightarrow> snd (dm_exk m v) \<noteq> deref_b m key"
  shows "dmap_get_b m key x = Some (0, x)"
  unfolding dmap_get_views
  by (rule hm.get_miss [OF dmap_invD(6) [OF assms(1)]])
    (use assms(2) dmap_invD(8) [OF assms(1)] in \<open>auto simp: dmap_abs_Some deref_b_def\<close>)

lemma dmap_get_value_correct:
  assumes "dmap_inv m" "dmap_abs m i = Some v"
  shows "dmap_get_value m i out = Some v"
proof -
  have i: "0 \<le> i" "i < dm_capacity m" using assms(2) dmap_invD(4) [OF assms(1)] by (auto simp: dmap_abs_Some)
  then show ?thesis
    using assms(2) offset_c_int [OF assms(1) i] dmap_invD(1,3) [OF assms(1)] by (simp add: dmap_get_value_def dmap_abs_Some)
qed

lemma dmap_keys_unique:
  assumes "dmap_inv m" "dmap_abs m i = Some v" "dmap_abs m j = Some w"
    and "fst (dm_exk m w) = fst (dm_exk m v) \<or> snd (dm_exk m w) = snd (dm_exk m v)"
  shows "i = j"
  using assms(4)
    dmap_get_a_hit [OF assms(1,2), of "Caller (fst (dm_exk m v))" 0] dmap_get_a_hit [OF assms(1,3), of "Caller (fst (dm_exk m v))" 0]
    dmap_get_b_hit [OF assms(1,2), of "Caller (snd (dm_exk m v))" 0] dmap_get_b_hit [OF assms(1,3), of "Caller (snd (dm_exk m v))" 0]
  by (auto simp: deref_a_def deref_b_def)

section \<open>Entering a value\<close>

text \<open>Changing the value of an index that is not in use does not concern the tables.\<close>

lemma deref_frame:
  assumes "dmap_inv m" "i \<notin> dmap_used m" "0 \<le> i" "(q, j) \<in> map_entries (view_a m)"
  shows "deref_a (m\<lparr>dm_values := (dm_values m)[nat i := v]\<rparr>) q = deref_a m q"
proof -
  obtain "j \<in> dmap_used m" "q = In_value j" using assms(4) dmap_invD(7) [OF assms(1)] by auto
  moreover from this have "nat i \<noteq> nat j" using assms(2,3) dmap_invD(4) [OF assms(1)] by (auto simp: nat_eq_iff)
  ultimately show ?thesis by (simp add: deref_a_def)
qed

lemma deref_frame_b:
  assumes "dmap_inv m" "i \<notin> dmap_used m" "0 \<le> i" "(q, j) \<in> map_entries (view_b m)"
  shows "deref_b (m\<lparr>dm_values := (dm_values m)[nat i := v]\<rparr>) q = deref_b m q"
proof -
  obtain "j \<in> dmap_used m" "q = In_value j" using assms(4) dmap_invD(8) [OF assms(1)] by auto
  moreover from this have "nat i \<noteq> nat j" using assms(2,3) dmap_invD(4) [OF assms(1)] by (auto simp: nat_eq_iff)
  ultimately show ?thesis by (simp add: deref_b_def)
qed

lemma used_nat: "dmap_inv m \<Longrightarrow> j \<in> dmap_used m \<Longrightarrow> 0 \<le> i \<Longrightarrow> j \<noteq> i \<Longrightarrow> nat i \<noteq> nat j"
  using dmap_invD(4) by (fastforce simp: nat_eq_iff)

lemma dmap_room:
  assumes "dmap_inv m" "i \<notin> dmap_used m" "0 \<le> i" "i < dm_capacity m"
  shows "card (map_entries (view_a m)) < map_cap (view_a m)" "card (map_entries (view_b m)) < map_cap (view_b m)"
proof -
  have "dmap_used m \<subset> {0..<dm_capacity m}" using dmap_invD(4) [OF assms(1)] assms(2-4) by auto
  from psubset_card_mono [OF _ this] have "int (card (dmap_used m)) < dm_capacity m" using assms(3,4) by simp
  then show "card (map_entries (view_a m)) < map_cap (view_a m)" "card (map_entries (view_b m)) < map_cap (view_b m)"
    using dmap_used_card(1,2) [OF assms(1)] dmap_invD(9,10) [OF assms(1)] by linarith+
qed

lemma map_put_impl:
  assumes "map_put d t p v = Some t'"
  shows "map_impl_put (m_busybits t) (m_keyps t) (m_khs t) (m_chns t) (m_vals t) p (m_khash t (d p)) v (m_capacity t)
    = Some (m_busybits t', m_keyps t', m_khs t', m_chns t', m_vals t')"
  using assms by (auto simp: map_put_def Let_def bind_eq_Some_conv)

lemma dmap_put_correct:
  assumes "dmap_inv m" "i \<notin> dmap_used m" "0 \<le> i" "i < dm_capacity m"
    and "\<And>j w. dmap_abs m j = Some w \<Longrightarrow> fst (dm_exk m w) \<noteq> fst (dm_exk m v) \<and> snd (dm_exk m w) \<noteq> snd (dm_exk m v)"
  shows "\<exists>m'. dmap_put m v i = Some (1, m') \<and> dmap_inv m' \<and> dmap_abs m' = (dmap_abs m)(i \<mapsto> v) \<and>
    dm_exk m' = dm_exk m \<and> dm_capacity m' = dm_capacity m"
proof -
  let ?m = "m\<lparr>dm_values := (dm_values m)[nat i := v]\<rparr>"
  have n: "nat i < length (dm_values m)" using assms(3,4) dmap_invD(3) [OF assms(1)] by simp
  have key: "deref_a ?m (In_value i) = fst (dm_exk m v)" "deref_b ?m (In_value i) = snd (dm_exk m v)"
    using n by (simp_all add: deref_a_def deref_b_def)
  have inv: "map_inv (deref_a ?m) (view_a m)" "map_inv (deref_b ?m) (view_b m)"
    by (rule hm.inv_frame [OF dmap_invD(5) [OF assms(1)]], erule deref_frame [OF assms(1-3)])
      (rule hm.inv_frame [OF dmap_invD(6) [OF assms(1)]], erule deref_frame_b [OF assms(1-3)])
  have new: "deref_a ?m q \<noteq> deref_a ?m (In_value i)" if "(q, j) \<in> map_entries (view_a m)" for q j
    using that deref_frame [OF assms(1-3) that] assms(5) dmap_invD(7) [OF assms(1)] unfolding key
    by (auto simp: deref_a_def dmap_abs_Some)
  have new_b: "deref_b ?m q \<noteq> deref_b ?m (In_value i)" if "(q, j) \<in> map_entries (view_b m)" for q j
    using that deref_frame_b [OF assms(1-3) that] assms(5) dmap_invD(8) [OF assms(1)] unfolding key
    by (auto simp: deref_b_def dmap_abs_Some)
  obtain t where t: "map_put (deref_a ?m) (view_a m) (In_value i) i = Some t" "map_inv (deref_a ?m) t"
    "map_entries t = insert (In_value i, i) (map_entries (view_a m))"
    using hm.put_new [OF inv(1), of "In_value i" i] new dmap_room(1) [OF assms(1-4)] by blast
  obtain u where u: "map_put (deref_b ?m) (view_b m) (In_value i) i = Some u" "map_inv (deref_b ?m) u"
    "map_entries u = insert (In_value i, i) (map_entries (view_b m))"
    using hm.put_new [OF inv(2), of "In_value i" i] new_b dmap_room(2) [OF assms(1-4)] by blast
  let ?m' = "with_b (with_a ?m t) u\<lparr>dm_n_vals := dm_n_vals m + 1\<rparr>"
  have views: "view_a ?m' = t" "view_b ?m' = u"
    using map_put_fields [OF t(1)] map_put_fields [OF u(1)] by (auto intro!: view_with)
  have pk: "dm_pk m v (fst (dm_exk m v)) (snd (dm_exk m v)) = v" by (rule dmap_invD(2) [OF assms(1)])
  have "dmap_put m v i = Some (1, ?m')"
    using map_put_impl [OF t(1)] map_put_impl [OF u(1)] offset_c_int [OF assms(1,3,4)] dmap_invD(1) [OF assms(1)] n assms(3,4) pk
      dmap_invD(3) [OF assms(1)]
    by (simp add: dmap_put_def view_a_def view_b_def with_a_def with_b_def deref_a_def deref_b_def)
  moreover have "dmap_used ?m' = insert i (dmap_used m)" by (simp add: dmap_used_def views t(3))
  moreover have "dmap_inv ?m'"
    using assms(1,3,4) t(2,3) u(2,3) views calculation(2)
    by (auto simp: dmap_inv_def dmap_functions_def)
  moreover have "dmap_abs ?m' = (dmap_abs m)(i \<mapsto> v)"
    using n used_nat [OF assms(1) _ assms(3)]
    by (auto simp: dmap_abs_def calculation(2) fun_eq_iff)
  ultimately show ?thesis by (intro exI [of _ ?m']) simp
qed

section \<open>Removing a value\<close>

lemma map_erase_impl:
  assumes "map_erase d t p x = Some (t', q)"
  shows "map_impl_erase (m_busybits t) (m_keyps t) (m_khs t) (m_chns t) p (\<lambda>p q. m_keys_eq t (d p) (d q)) (m_khash t (d p)) (m_capacity t) x
    = Some (m_busybits t', m_chns t', q)"
  using assms by (auto simp: map_erase_def Let_def bind_eq_Some_conv)

lemma with_a_erased:
  "m_keyps t = dm_kps_a m \<Longrightarrow> m_khs t = dm_khs_a m \<Longrightarrow> m_vals t = dm_inds_a m \<Longrightarrow>
    with_a m t = m\<lparr>dm_bbs_a := m_busybits t, dm_chns_a := m_chns t\<rparr>"
  "m_keyps u = dm_kps_b m \<Longrightarrow> m_khs u = dm_khs_b m \<Longrightarrow> m_vals u = dm_inds_b m \<Longrightarrow>
    with_b m u = m\<lparr>dm_bbs_b := m_busybits u, dm_chns_b := m_chns u\<rparr>"
  by (cases m; simp add: with_a_def with_b_def)+

lemma dmap_erase_correct:
  assumes "dmap_inv m" "i \<in> dmap_used m"
  shows "\<exists>m'. dmap_erase m i = Some (1, m') \<and> dmap_inv m' \<and> dmap_abs m' = (dmap_abs m)(i := None) \<and>
    dm_exk m' = dm_exk m \<and> dm_capacity m' = dm_capacity m \<and> dmap_used m' = dmap_used m - {i}"
proof -
  have i: "0 \<le> i" "i < dm_capacity m" using assms(2) dmap_invD(4) [OF assms(1)] by auto
  have n: "nat i < length (dm_values m)" using i dmap_invD(3) [OF assms(1)] by simp
  obtain t where t: "map_erase (deref_a m) (view_a m) (In_value i) Null = Some (t, In_value i)" "map_inv (deref_a m) t"
    "map_entries t = map_entries (view_a m) - {(In_value i, i)}"
    using hm.erase_old [OF dmap_invD(5) [OF assms(1)], of "In_value i" i "In_value i" Null] assms(2) dmap_invD(7) [OF assms(1)] by auto
  obtain u where u: "map_erase (deref_b m) (view_b m) (In_value i) Null = Some (u, In_value i)" "map_inv (deref_b m) u"
    "map_entries u = map_entries (view_b m) - {(In_value i, i)}"
    using hm.erase_old [OF dmap_invD(6) [OF assms(1)], of "In_value i" i "In_value i" Null] assms(2) dmap_invD(8) [OF assms(1)] by auto
  let ?v = "dm_dstr m (dm_values m ! nat i)"
  let ?m' = "with_b (with_a (m\<lparr>dm_values := (dm_values m)[nat i := ?v]\<rparr>) t) u\<lparr>dm_n_vals := dm_n_vals m - 1\<rparr>"
  have views: "view_a ?m' = t" "view_b ?m' = u"
    using map_erase_fields [OF t(1)] map_erase_fields [OF u(1)] by (auto intro!: view_with)
  have pk: "dm_pk m (dm_values m ! nat i) (fst (dm_exk m (dm_values m ! nat i))) (snd (dm_exk m (dm_values m ! nat i))) = dm_values m ! nat i"
    by (rule dmap_invD(2) [OF assms(1)])
  have erase: "dmap_erase m i = Some (1, ?m')"
    using map_erase_impl [OF t(1)] map_erase_impl [OF u(1)] offset_c_int [OF assms(1) i] n i pk map_erase_fields [OF t(1)] map_erase_fields [OF u(1)]
      dmap_invD(3) [OF assms(1)]
    by (simp add: dmap_erase_def view_a_def view_b_def with_a_erased deref_a_def deref_b_def)
  have entries: "map_entries t = (\<lambda>i. (In_value i, i)) ` (dmap_used m - {i})" "map_entries u = (\<lambda>i. (In_value i, i)) ` (dmap_used m - {i})"
    using t(3) u(3) dmap_invD(7,8) [OF assms(1)] by auto
  have "dmap_used ?m' = snd ` map_entries t" by (simp add: dmap_used_def views)
  then have used: "dmap_used ?m' = dmap_used m - {i}" unfolding entries(1) by force
  have inv_a: "map_inv (deref_a (m\<lparr>dm_values := (dm_values m)[nat i := ?v]\<rparr>)) t"
    by (rule hm.inv_frame [OF t(2)]) (use entries(1) used_nat [OF assms(1) _ i(1)] in \<open>auto simp: deref_a_def\<close>)
  have inv_b: "map_inv (deref_b (m\<lparr>dm_values := (dm_values m)[nat i := ?v]\<rparr>)) u"
    by (rule hm.inv_frame [OF u(2)]) (use entries(2) used_nat [OF assms(1) _ i(1)] in \<open>auto simp: deref_b_def\<close>)
  have "dmap_inv ?m'"
    unfolding dmap_inv_def used views using assms(1) inv_a inv_b entries
    by (auto simp: dmap_inv_def dmap_functions_def)
  moreover have "dmap_abs ?m' = (dmap_abs m)(i := None)"
    using used_nat [OF assms(1) _ i(1)] unfolding dmap_abs_def used by (auto simp: fun_eq_iff)
  ultimately show ?thesis using erase used by (intro exI [of _ ?m']) simp
qed

section \<open>The expiry loop\<close>

definition dmap_dchain_coherent :: "('ka, 'kb, 'v) DoubleMap \<Rightarrow> dchain \<Rightarrow> bool" where
  "dmap_dchain_coherent m ch \<longleftrightarrow> dmap_inv m \<and> dm_capacity m = dchain_index_range_fp ch \<and> dmap_used m = set (dchain_indexes_fp ch)"

lemma expire_items_loop_correct:
  assumes "double_chainp ch chain" "dmap_dchain_coherent m ch"
  shows "\<exists>chain' m'. expire_items_loop chain m time index count =
      Some (count + int (length (dchain_get_expired_indexes_fp ch time)), chain', m') \<and>
    double_chainp (dchain_expire_old_indexes_fp ch time) chain' \<and>
    dmap_dchain_coherent m' (dchain_expire_old_indexes_fp ch time) \<and>
    dmap_abs m' = dmap_abs m |` set (dchain_indexes_fp (dchain_expire_old_indexes_fp ch time)) \<and> dm_exk m' = dm_exk m"
  using assms
proof (induction "dchain_get_expired_indexes_fp ch time" arbitrary: ch chain m index count)
  case Nil
  then have e: "dchain_get_expired_indexes_fp ch time = []" by simp
  obtain i' where "dchain_expire_one_index chain index time = Some (0, chain, i')"
    using dc.expire_one_nothing [OF Nil.prems(1) e] by blast
  moreover have "dmap_abs m = dmap_abs m |` set (dchain_indexes_fp ch)"
    using Nil.prems(2) by (auto simp: dmap_dchain_coherent_def restrict_map_def dmap_abs_def fun_eq_iff)
  ultimately show ?case
    using Nil.prems expired_nil(2) [OF e] e by (subst expire_items_loop.simps) simp
next
  case (Cons i "is")
  then have e: "dchain_get_expired_indexes_fp ch time = i # is" by simp
  obtain chain1 where c1: "dchain_expire_one_index chain index time = Some (1, chain1, i)"
    "double_chainp (dchain_remove_index_fp ch i) chain1" "i \<in> set (dchain_indexes_fp ch)"
    "dchain_get_expired_indexes_fp (dchain_remove_index_fp ch i) time = is"
    "dchain_expire_old_indexes_fp (dchain_remove_index_fp ch i) time = dchain_expire_old_indexes_fp ch time"
    using dc.expire_one_something [OF Cons.prems(1) e] by blast
  have co: "dmap_inv m" "i \<in> dmap_used m" using Cons.prems(2) c1(3) by (simp_all add: dmap_dchain_coherent_def)
  obtain m1 where m1: "dmap_erase m i = Some (1, m1)" "dmap_inv m1" "dmap_abs m1 = (dmap_abs m)(i := None)" "dm_exk m1 = dm_exk m"
    "dm_capacity m1 = dm_capacity m" "dmap_used m1 = dmap_used m - {i}"
    using dmap_erase_correct [OF co] by blast
  have co1: "dmap_dchain_coherent m1 (dchain_remove_index_fp ch i)"
    using m1 Cons.prems(2) dc.rep_distinct [OF Cons.prems(1)] by (simp add: dmap_dchain_coherent_def set_remove1_eq)
  have "expire_items_loop chain m time index count = expire_items_loop chain1 m1 time i (count + 1)"
    by (subst expire_items_loop.simps) (simp add: c1(1) m1(1))
  moreover obtain chain' m' where r: "expire_items_loop chain1 m1 time i (count + 1) = Some (count + 1 + int (length is), chain', m')"
    "double_chainp (dchain_expire_old_indexes_fp ch time) chain'" "dmap_dchain_coherent m' (dchain_expire_old_indexes_fp ch time)"
    "dmap_abs m' = dmap_abs m1 |` set (dchain_indexes_fp (dchain_expire_old_indexes_fp ch time))" "dm_exk m' = dm_exk m1"
    using Cons.hyps(1) [OF c1(4) [symmetric] c1(2) co1, of i "count + 1"] c1(4,5) by auto
  moreover have "i \<notin> set (dchain_indexes_fp (dchain_expire_old_indexes_fp ch time))"
    using r(3,4) m1(3) by (auto simp: dmap_dchain_coherent_def dmap_abs_def fun_eq_iff restrict_map_def split: if_splits)
  ultimately show ?case using e m1(3,4) by (auto simp: restrict_map_def fun_eq_iff)
qed

section \<open>Allocation\<close>

definition dmap_allocated :: "nat \<Rightarrow> ('ka, 'kb, 'v) DoubleMap option \<Rightarrow> nat list \<Rightarrow> (int \<times> ('ka, 'kb, 'v) DoubleMap option \<times> heap) option \<Rightarrow> bool" where
  "dmap_allocated c map_out blocks res \<longleftrightarrow>
     (\<exists>h. res = Some (0, map_out, h) \<and> live h = blocks \<and> heap_ok h) \<or>
     (\<exists>m h new. res = Some (1, Some m, h) \<and> live h = new @ blocks \<and> length new = 12 \<and> heap_ok h \<and>
        dmap_inv m \<and> dm_capacity m = int c \<and> dmap_abs m = Map.empty)"

lemma map_impl_entries_none: "map_impl_entries c (replicate c 0) kps vals = {}"
  by (auto simp: map_impl_entries_def)

lemma dmap_allocate_spec:
  assumes "heap_ok h" "capacity_ok c" "0 < value_size" "is_c_int (value_size * int c)"
    and "\<And>a b. eq_a a b \<longleftrightarrow> a = b" "\<And>a b. eq_b a b \<longleftrightarrow> a = b" "\<And>d s. v_cpy d s = s" "\<And>v. dpk v (fst (dexk v)) (snd (dexk v)) = v"
  shows "dmap_allocated c map_out (live h)
    (dmap_allocate eq_a hsh_a eq_b hsh_b value_size v_cpy v_destr dexk dpk (int c) map_out vals ints ptrs_a ptrs_b h)"
proof -
  have complete: "dmap_allocated c map_out (live h) (do {
      let array = (\<lambda>b. map (ints b) [0..<nat (int c)]);
      (bbs_a, chns_a) \<leftarrow> map_impl_init (array b2) (array b5) (int c);
      (bbs_b, chns_b) \<leftarrow> map_impl_init (array b7) (array b11) (int c);
      Some (1,
        Some \<lparr>dm_value_size = value_size, dm_cpy = v_cpy, dm_dstr = v_destr, dm_values = map vals [0..<nat (int c)],
          dm_bbs_a = bbs_a, dm_kps_a = map (ptrs_a b3) [0..<nat (int c)], dm_khs_a = array b4,
          dm_chns_a = chns_a, dm_inds_a = array b6, dm_eq_a = eq_a, dm_hsh_a = hsh_a,
          dm_bbs_b = bbs_b, dm_kps_b = map (ptrs_b b8) [0..<nat (int c)], dm_khs_b = array b9,
          dm_chns_b = chns_b, dm_inds_b = array b10, dm_eq_b = eq_b, dm_hsh_b = hsh_b,
          dm_exk = dexk, dm_pk = dpk, dm_n_vals = 0, dm_capacity = int c\<rparr>,
        h') })"
    if "live h' = [b11, b10, b9, b8, b7, b6, b5, b4, b3, b2, b1, b0] @ live h" "heap_ok h'" for h' b0 b1 b2 b3 b4 b5 b6 b7 b8 b9 b10 b11
    using that assms
    by (simp add: dmap_allocated_def dmap_inv_def dmap_functions_def dmap_used_def dmap_abs_def view_a_def view_b_def map_inv_def map_cap_def
        map_entries_def map_impl_entries_none map_impl_init_correct map_impl_inv_empty fun_eq_iff)
  have size: "(if \<not> is_c_int (value_size * int c) then None else x) = x" for x :: "'z option" using assms(4) by simp
  have fail: "dmap_allocated c map_out (live h) (Some (0, map_out, h'))" if "live h' = live h" "heap_ok h'" for h'
    using that by (simp add: dmap_allocated_def)
  show ?thesis
    unfolding dmap_allocate_def size
    by (intro malloc_step [where Q = "dmap_allocated c map_out (live h)"]
        free_step [where Q = "dmap_allocated c map_out (live h)" and l = "live h"] fail assms(1) complete;
      simp)
qed

section \<open>Examples\<close>

text \<open>Values that are pairs of their two keys, in a map with two cells.\<close>

definition example_dmap_start :: "heap \<Rightarrow> (int \<times> (nat, nat, nat \<times> nat) DoubleMap option \<times> heap) option" where
  "example_dmap_start = dmap_allocate (=) int (=) int 8 (\<lambda>d s. s) (\<lambda>v. v) (\<lambda>v. v) (\<lambda>v a b. v) 2 None (\<lambda>_. (0, 0)) (\<lambda>_ _. 0) (\<lambda>_ _. Null) (\<lambda>_ _. Null)"

lemma example_dmap:
  obtains m :: "(nat, nat, nat \<times> nat) DoubleMap" where "dmap_inv m" "dm_capacity m = 2" "dmap_abs m = Map.empty" "dm_exk m = (\<lambda>v. v)"
proof -
  let ?h = "\<lparr>outcomes = replicate 12 True, live = [], fresh = 0\<rparr>"
  have "capacity_ok 2" "is_c_int (8 * int 2)" "heap_ok ?h"
    by (auto simp: capacity_ok_def is_c_int_def INT_MAX_def INT_MIN_def heap_ok_def intro: exI [of _ 1])
  then have "dmap_allocated 2 None (live ?h)
      (dmap_allocate (=) int (=) int 8 (\<lambda>d s. s) (\<lambda>v. v) (\<lambda>v. v) (\<lambda>v a b. v) (int 2) None (\<lambda>_. (0, 0)) (\<lambda>_ _. 0) (\<lambda>_ _. Null) (\<lambda>_ _. Null) ?h)"
    by (intro dmap_allocate_spec) simp_all
  then have "dmap_allocated 2 None (live ?h) (example_dmap_start ?h)" by (simp add: example_dmap_start_def)
  moreover have "\<exists>m h'. example_dmap_start ?h = Some (1, Some m, h') \<and> dm_exk m = (\<lambda>v. v)"
    by (simp add: example_dmap_start_def dmap_allocate_def malloc_def Let_def numeral_eq_Suc map_impl_init_correct [where c = 2, simplified]
        is_c_int_def INT_MAX_def INT_MIN_def)
  ultimately show thesis using that by (auto simp: dmap_allocated_def)
qed

lemma example_dmap_one:
  obtains m :: "(nat, nat, nat \<times> nat) DoubleMap" where "dmap_inv m" "dmap_abs m = [0 \<mapsto> (7, 9)]" "dm_exk m = (\<lambda>v. v)" "dm_capacity m = 2"
proof -
  obtain m :: "(nat, nat, nat \<times> nat) DoubleMap" where m: "dmap_inv m" "dm_capacity m = 2" "dmap_abs m = Map.empty" "dm_exk m = (\<lambda>v. v)"
    by (rule example_dmap)
  have "0 \<notin> dmap_used m" using m(3) by (auto simp: dmap_abs_def fun_eq_iff split: if_splits)
  from dmap_put_correct [OF m(1) this, of "(7, 9)"] m show thesis using that by auto
qed

section \<open>Properties\<close>

text \<open>
  C18. Entering a value at a free index, with two keys that are not in the map, adds exactly that value to the represented finite
  function, and both keys then lead to its index.
\<close>

theorem dmap_put_refines:
  assumes "dmap_inv m" "dmap_abs m i = None" "0 \<le> i" "i < dm_capacity m"
    and "\<forall>w \<in> ran (dmap_abs m). fst (dm_exk m w) \<noteq> fst (dm_exk m v) \<and> snd (dm_exk m w) \<noteq> snd (dm_exk m v)"
  shows "\<exists>m'. dmap_put m v i = Some (1, m') \<and> dmap_inv m' \<and> dmap_abs m' = (dmap_abs m)(i \<mapsto> v) \<and>
    dmap_get_a m' (Caller (fst (dm_exk m v))) x = Some (1, i) \<and> dmap_get_b m' (Caller (snd (dm_exk m v))) x = Some (1, i)"
proof -
  have free: "i \<notin> dmap_used m" using assms(2) by (auto simp: dmap_abs_def split: if_splits)
  obtain m' where m': "dmap_put m v i = Some (1, m')" "dmap_inv m'" "dmap_abs m' = (dmap_abs m)(i \<mapsto> v)" "dm_exk m' = dm_exk m"
    using dmap_put_correct [OF assms(1) free assms(3,4), of v] assms(5) by (meson ranI)
  have here: "dmap_abs m' i = Some v" by (simp add: m'(3))
  have "dmap_get_a m' (Caller (fst (dm_exk m v))) x = Some (1, i)"
    by (rule dmap_get_a_hit [OF m'(2) here]) (simp add: deref_a_def m'(4))
  moreover have "dmap_get_b m' (Caller (snd (dm_exk m v))) x = Some (1, i)"
    by (rule dmap_get_b_hit [OF m'(2) here]) (simp add: deref_b_def m'(4))
  ultimately show ?thesis using m' by blast
qed

theorem dmap_put_refines_witness:
  "\<exists>(m :: (nat, nat, nat \<times> nat) DoubleMap) m'. dmap_inv m \<and> dmap_put m (7, 9) 0 = Some (1, m') \<and> dmap_abs m' = [0 \<mapsto> (7, 9)] \<and>
     dmap_get_b m' (Caller 9) 5 = Some (1, 0)"
proof -
  obtain m :: "(nat, nat, nat \<times> nat) DoubleMap" where m: "dmap_inv m" "dm_capacity m = 2" "dmap_abs m = Map.empty" "dm_exk m = (\<lambda>v. v)"
    by (rule example_dmap)
  from dmap_put_refines [OF m(1), of 0 "(7, 9)" 5] m show ?thesis by auto
qed

text \<open>
  Erasing a used index removes exactly its value from the represented finite function: neither of its keys is found afterwards.
\<close>

lemma dmap_erase_refines:
  assumes "dmap_inv m" "dmap_abs m i = Some v"
  shows "\<exists>m'. dmap_erase m i = Some (1, m') \<and> dmap_inv m' \<and> dmap_abs m' = (dmap_abs m)(i := None) \<and> dmap_size m' = dmap_size m - 1 \<and>
    dmap_get_a m' (Caller (fst (dm_exk m v))) x = Some (0, x) \<and> dmap_get_b m' (Caller (snd (dm_exk m v))) x = Some (0, x)"
proof -
  have used: "i \<in> dmap_used m" "v = dm_values m ! nat i" using assms(2) by (simp_all add: dmap_abs_Some)
  obtain m' where m': "dmap_erase m i = Some (1, m')" "dmap_inv m'" "dmap_abs m' = (dmap_abs m)(i := None)" "dm_exk m' = dm_exk m"
    "dmap_used m' = dmap_used m - {i}"
    using dmap_erase_correct [OF assms(1) used(1)] by blast
  have other: "fst (dm_exk m w) \<noteq> fst (dm_exk m v) \<and> snd (dm_exk m w) \<noteq> snd (dm_exk m v)" if "dmap_abs m' j = Some w" for j w
    using that dmap_keys_unique [OF assms, of j w] by (auto simp: m'(3) split: if_splits)
  have "dmap_get_a m' (Caller (fst (dm_exk m v))) x = Some (0, x)"
    by (rule dmap_get_a_miss [OF m'(2)]) (use other in \<open>auto simp: deref_a_def m'(4)\<close>)
  moreover have "dmap_get_b m' (Caller (snd (dm_exk m v))) x = Some (0, x)"
    by (rule dmap_get_b_miss [OF m'(2)]) (use other in \<open>auto simp: deref_b_def m'(4)\<close>)
  moreover have "dmap_size m' = dmap_size m - 1"
  proof -
    have "finite (dmap_used m)" using dmap_invD(4) [OF assms(1)] by (rule finite_subset) simp
    then have "int (card (dmap_used m - {i})) = int (card (dmap_used m)) - 1"
      using card_Suc_Diff1 [of "dmap_used m" i] used(1) by linarith
    then show ?thesis using dmap_used_card(3) [OF assms(1)] dmap_used_card(3) [OF m'(2)] m'(5) by (simp add: dmap_size_def)
  qed
  ultimately show ?thesis using m' by blast
qed

text \<open>
  C17. \<open>expire_items\<close> ends, removes exactly the indexes that were used last before the given time, from the allocator and from the map
  together, and returns their number.
\<close>

theorem expire_items_refines:
  assumes "double_chainp ch chain" "dmap_dchain_coherent m ch"
  shows "\<exists>chain' m'. expire_items chain m time = Some (int (length (dchain_get_expired_indexes_fp ch time)), chain', m') \<and>
    double_chainp (dchain_expire_old_indexes_fp ch time) chain' \<and>
    dmap_dchain_coherent m' (dchain_expire_old_indexes_fp ch time) \<and>
    dmap_abs m' = dmap_abs m |` set (dchain_indexes_fp (dchain_expire_old_indexes_fp ch time))"
  using expire_items_loop_correct [OF assms, of time "- 1" 0] by (auto simp: expire_items_def)

theorem expire_items_refines_witness:
  "\<exists>(m :: (nat, nat, nat \<times> nat) DoubleMap) chain' m'. dmap_abs m = [0 \<mapsto> (7, 9)] \<and> expire_items used_since_5 m 6 = Some (1, chain', m') \<and>
     dmap_abs m' = Map.empty"
proof -
  obtain m :: "(nat, nat, nat \<times> nat) DoubleMap" where m: "dmap_inv m" "dmap_abs m = [0 \<mapsto> (7, 9)]" "dm_capacity m = 2"
    by (rule example_dmap_one)
  have "dmap_used m = {0}" using m(2) by (auto simp: dmap_abs_def fun_eq_iff split: if_splits)
  then have "dmap_dchain_coherent m used_since_5_spec"
    using m(1,3) by (simp add: dmap_dchain_coherent_def used_since_5_spec_def dchain_indexes_fp_def)
  moreover have e: "dchain_get_expired_indexes_fp used_since_5_spec 6 = [0]"
    "dchain_indexes_fp (dchain_expire_old_indexes_fp used_since_5_spec 6) = []" by code_simp+
  ultimately obtain chain' m' where "expire_items used_since_5 m 6 = Some (1, chain', m')" "dmap_abs m' = Map.empty"
    using expire_items_refines [OF used_since_5_rep, of m 6] by (auto simp: e)
  then show ?thesis using m(2) by blast
qed

end
