(* ===== verification/Config.thy ===== *)
theory Config
  imports Scan Vignat Vigfw Vigpol Bridge Vigbalancer
begin

text \<open>
  The command lines of the network functions: \<open>nf_util_parse_int\<close> of \<open>lib/nf_util.c\<close>, and the functions that fill the configurations
  (\<open>lib/nat_config.c\<close>, \<open>vigfw/fw_config.c\<close>, \<open>vigpol/policer_config.c\<close>, \<open>bridge/bridge_config.c\<close>, \<open>vigbalancer/lb_config.c\<close>). What
  \<open>getopt_long\<close> finds is a list of options with their arguments, in the order of the command line. The parsers of DPDK for addresses
  and what DPDK says about the devices are parameters, bundled in the record \<open>eal\<close>.
\<close>

section \<open>Numbers\<close>

text \<open>
  \<open>strtoimax\<close> with base 10: the value, limited to the range of \<open>intmax_t\<close>, and the rest of the string; the whole string when there is
  no number.
\<close>

definition strtoimax :: "string \<Rightarrow> int \<times> string" where
  "strtoimax str =
     (case scan_number str of
        (None, _) \<Rightarrow> (0, str)
      | (Some n, rest) \<Rightarrow> (max (- (2 ^ 63)) (min (2 ^ 63 - 1) n), rest))"

text \<open>The character a pointer into a string points to.\<close>

definition char_at :: "string \<Rightarrow> char" where
  "char_at s = (case s of [] \<Rightarrow> CHR 0x00 | c # _ \<Rightarrow> c)"

text \<open>\<open>None\<close> is the call of \<open>rte_exit\<close>.\<close>

definition nf_util_parse_int :: "string \<Rightarrow> char \<Rightarrow> u64 option" where
  "nf_util_parse_int str next_char =
     (case strtoimax str of
        (result, temp) \<Rightarrow> if temp = str \<or> char_at temp \<noteq> next_char then None else Some (word_of_int result))"

section \<open>Options\<close>

record eal =
  nb_devices :: u16
  rte_eth_macaddr_get :: "nat \<Rightarrow> u8 list"
  rte_ethtool_get_drvinfo :: "nat \<Rightarrow> string option"
  cmdline_parse_etheraddr :: "string \<Rightarrow> u8 list option"
  cmdline_parse_ipaddr :: "string \<Rightarrow> u32 option"

text \<open>
  The result of handling an option or a command line: \<open>Inl\<close> an error message with which the program ends, or \<open>Inr\<close> the configuration;
  \<^term>\<open>None\<close> is an access outside an array of the configuration.
\<close>

type_synonym 'c configured = "(string + 'c) option"

definition with_int :: "string \<Rightarrow> char \<Rightarrow> (u64 \<Rightarrow> 'c configured) \<Rightarrow> 'c configured" where
  "with_int optarg next_char k =
     (case nf_util_parse_int optarg next_char of None \<Rightarrow> Some (Inl ''Error while parsing'') | Some n \<Rightarrow> k n)"

text \<open>The loop around \<open>getopt_long\<close>, for the \<open>switch\<close> of any of the configurations.\<close>

fun options_all :: "('c \<Rightarrow> char \<Rightarrow> string \<Rightarrow> 'c configured) \<Rightarrow> 'c \<Rightarrow> (char \<times> string) list \<Rightarrow> 'c configured" where
  "options_all handle config [] = Some (Inr config)"
| "options_all handle config ((opt, optarg) # options) =
     (case handle config opt optarg of
        None \<Rightarrow> None
      | Some (Inl msg) \<Rightarrow> Some (Inl msg)
      | Some (Inr config) \<Rightarrow> options_all handle config options)"

text \<open>The case \<open>'m'\<close>, the same in three of the functions: the endpoint of a device.\<close>

definition eth_dest :: "eal \<Rightarrow> string \<Rightarrow> u8 list list \<Rightarrow> (u8 list list) configured" where
  "eth_dest eal optarg endpoint_macs =
     with_int optarg (CHR '','') (\<lambda>n.
       let device = (ucast n :: u32) in
       if device \<ge> ucast (nb_devices eal) then Some (Inl ''eth-dest: device >= nb_devices'')
       else let optarg = drop 2 optarg in
         case cmdline_parse_etheraddr eal optarg of
           None \<Rightarrow> Some (Inl ''Invalid MAC address'')
         | Some mac \<Rightarrow> map_option Inr (wr endpoint_macs (uint device) mac))"

text \<open>The loop that reads the addresses of the devices.\<close>

function read_macs :: "eal \<Rightarrow> u8 list list \<Rightarrow> nat \<Rightarrow> u8 list list option" where
  "read_macs eal macs device =
     (if device < unat (nb_devices eal) then do {
        macs \<leftarrow> wr macs (int device) (rte_eth_macaddr_get eal device);
        read_macs eal macs (device + 1)
      } else Some macs)"
  by pat_completeness auto
termination
  by (relation "measure (\<lambda>(eal, macs, device). unat (nb_devices eal) - device)") auto

declare read_macs.simps [simp del]

section \<open>NAT\<close>

record nat_full_config = nat_config +
  ncfg_driver_type :: int

definition nic_type_net_ixgbe :: int where "nic_type_net_ixgbe = 1"
definition nic_type_net_mlx5 :: int where "nic_type_net_mlx5 = 2"
definition nic_type_undefined :: int where "nic_type_undefined = 3"

text \<open>The type of the driver, or \<^term>\<open>None\<close> when the result is 1 and \<open>type\<close> is left alone.\<close>

definition rte_ethtool_get_drv_type :: "eal \<Rightarrow> nat \<Rightarrow> int option" where
  "rte_ethtool_get_drv_type eal port_id =
     (case rte_ethtool_get_drvinfo eal port_id of
        None \<Rightarrow> None
      | Some driver \<Rightarrow>
          Some (if driver = ''net_ixgbe'' then nic_type_net_ixgbe
                else if driver = ''net_mlx5'' then nic_type_net_mlx5 else nic_type_undefined))"

function nat_read_devices :: "eal \<Rightarrow> nat_full_config \<Rightarrow> nat \<Rightarrow> nat_full_config configured" where
  "nat_read_devices eal config device =
     (if device < unat (nb_devices eal) then do {
        macs \<leftarrow> wr (ncfg_device_macs config) (int device) (rte_eth_macaddr_get eal device);
        case rte_ethtool_get_drv_type eal device of
          None \<Rightarrow> Some (Inl ''Error getting driver name'')
        | Some ty \<Rightarrow> nat_read_devices eal (config\<lparr>ncfg_device_macs := macs, ncfg_driver_type := ty\<rparr>) (device + 1)
      } else Some (Inr config))"
  by pat_completeness auto
termination
  by (relation "measure (\<lambda>(eal, config, device). unat (nb_devices eal) - device)") auto

declare nat_read_devices.simps [simp del]

definition nat_option :: "eal \<Rightarrow> nat_full_config \<Rightarrow> char \<Rightarrow> string \<Rightarrow> nat_full_config configured" where
  "nat_option eal config opt optarg =
     (if opt = CHR ''m'' then
        (case eth_dest eal optarg (ncfg_endpoint_macs config) of
           None \<Rightarrow> None
         | Some (Inl msg) \<Rightarrow> Some (Inl msg)
         | Some (Inr macs) \<Rightarrow> Some (Inr (config\<lparr>ncfg_endpoint_macs := macs\<rparr>)))
      else if opt = CHR ''t'' then with_int optarg (CHR 0x00) (\<lambda>n.
        let config = config\<lparr>ncfg_expiration_time := ucast n\<rparr> in
        if ncfg_expiration_time config = 0 then Some (Inl ''Expiration time must be strictly positive.'') else Some (Inr config))
      else if opt = CHR ''i'' then
        (case cmdline_parse_ipaddr eal optarg of
           None \<Rightarrow> Some (Inl ''Invalid external IP address'')
         | Some res \<Rightarrow> Some (Inr (config\<lparr>ncfg_external_addr := res\<rparr>)))
      else if opt = CHR ''l'' then with_int optarg (CHR 0x00) (\<lambda>n.
        let config = config\<lparr>ncfg_lan_main_device := ucast n\<rparr> in
        if ncfg_lan_main_device config \<ge> nb_devices eal then Some (Inl ''Main LAN device does not exist.'') else Some (Inr config))
      else if opt = CHR ''f'' then with_int optarg (CHR 0x00) (\<lambda>n.
        let config = config\<lparr>ncfg_max_flows := ucast n\<rparr> in
        if ncfg_max_flows config \<le> 0 then Some (Inl ''Flow table size must be strictly positive.'') else Some (Inr config))
      else if opt = CHR ''s'' then with_int optarg (CHR 0x00) (\<lambda>n. Some (Inr (config\<lparr>ncfg_start_port := ucast n\<rparr>)))
      else if opt = CHR ''w'' then with_int optarg (CHR 0x00) (\<lambda>n.
        let config = config\<lparr>ncfg_wan_device := ucast n\<rparr> in
        if ncfg_wan_device config \<ge> nb_devices eal then Some (Inl ''WAN device does not exist.'') else Some (Inr config))
      else Some (Inl ''Unknown option.''))"

definition nat_config_init :: "eal \<Rightarrow> nat_full_config \<Rightarrow> (char \<times> string) list \<Rightarrow> nat_full_config configured" where
  "nat_config_init eal config options =
     (case nat_read_devices eal config 0 of
        None \<Rightarrow> None
      | Some (Inl msg) \<Rightarrow> Some (Inl msg)
      | Some (Inr config) \<Rightarrow> options_all (nat_option eal) config options)"

section \<open>Firewall\<close>

definition fw_option :: "eal \<Rightarrow> fw_config \<Rightarrow> char \<Rightarrow> string \<Rightarrow> fw_config configured" where
  "fw_option eal config opt optarg =
     (if opt = CHR ''l'' then with_int optarg (CHR 0x00) (\<lambda>n.
        let config = config\<lparr>fcfg_lan_device := ucast n\<rparr> in
        if fcfg_lan_device config \<ge> nb_devices eal then Some (Inl ''Invalid LAN device.'') else Some (Inr config))
      else if opt = CHR ''w'' then with_int optarg (CHR 0x00) (\<lambda>n.
        let config = config\<lparr>fcfg_wan_device := ucast n\<rparr> in
        if fcfg_wan_device config \<ge> nb_devices eal then Some (Inl ''Invalid WAN device.'') else Some (Inr config))
      else if opt = CHR ''c'' then with_int optarg (CHR 0x00) (\<lambda>n.
        let config = config\<lparr>fcfg_capacity := ucast n\<rparr> in
        if fcfg_capacity config \<le> 0 then Some (Inl ''Flow table size must be strictly positive.'') else Some (Inr config))
      else if opt = CHR ''t'' then with_int optarg (CHR 0x00) (\<lambda>n.
        let config = config\<lparr>fcfg_expiration_time := ucast n\<rparr> in
        if fcfg_expiration_time config = 0 then Some (Inl ''Expiration time must be strictly positive.'') else Some (Inr config))
      else if opt = CHR ''m'' then
        (case eth_dest eal optarg (fcfg_endpoint_macs config) of
           None \<Rightarrow> None
         | Some (Inl msg) \<Rightarrow> Some (Inl msg)
         | Some (Inr macs) \<Rightarrow> Some (Inr (config\<lparr>fcfg_endpoint_macs := macs\<rparr>)))
      else Some (Inl ''Unknown option''))"

definition fw_config_init :: "eal \<Rightarrow> fw_config \<Rightarrow> (char \<times> string) list \<Rightarrow> fw_config configured" where
  "fw_config_init eal config options = do {
     macs \<leftarrow> read_macs eal (fcfg_device_macs config) 0;
     options_all (fw_option eal) (config\<lparr>fcfg_device_macs := macs\<rparr>) options
   }"

section \<open>Policer\<close>

record policer_full_config = policer_config +
  pcfg_device_macs :: "u8 list list"
  pcfg_endpoint_macs :: "u8 list list"

definition DEFAULT_LAN :: u16 where "DEFAULT_LAN = 1"
definition DEFAULT_WAN :: u16 where "DEFAULT_WAN = 0"
definition DEFAULT_RATE :: u64 where "DEFAULT_RATE = 1000000"
definition DEFAULT_BURST :: u64 where "DEFAULT_BURST = 100000"
definition DEFAULT_CAPACITY :: u32 where "DEFAULT_CAPACITY = 128"

definition policer_option :: "eal \<Rightarrow> policer_full_config \<Rightarrow> char \<Rightarrow> string \<Rightarrow> policer_full_config configured" where
  "policer_option eal config opt optarg =
     (if opt = CHR ''l'' then with_int optarg (CHR 0x00) (\<lambda>n.
        let config = config\<lparr>pcfg_lan_device := ucast n\<rparr> in
        if pcfg_lan_device config \<ge> nb_devices eal then Some (Inl ''Invalid LAN device.'') else Some (Inr config))
      else if opt = CHR ''w'' then with_int optarg (CHR 0x00) (\<lambda>n.
        let config = config\<lparr>pcfg_wan_device := ucast n\<rparr> in
        if pcfg_wan_device config \<ge> nb_devices eal then Some (Inl ''Invalid WAN device.'') else Some (Inr config))
      else if opt = CHR ''r'' then with_int optarg (CHR 0x00) (\<lambda>n.
        let config = config\<lparr>pcfg_rate := n\<rparr> in
        if pcfg_rate config = 0 then Some (Inl ''Policer rate must be strictly positive.'') else Some (Inr config))
      else if opt = CHR ''b'' then with_int optarg (CHR 0x00) (\<lambda>n.
        let config = config\<lparr>pcfg_burst := n\<rparr> in
        if pcfg_burst config = 0 then Some (Inl ''Policer burst size must be strictly positive.'') else Some (Inr config))
      else if opt = CHR ''c'' then with_int optarg (CHR 0x00) (\<lambda>n.
        let config = config\<lparr>pcfg_dyn_capacity := ucast n\<rparr> in
        if pcfg_dyn_capacity config \<le> 0 then Some (Inl ''Flow table size must be strictly positive.'') else Some (Inr config))
      else if opt = CHR ''m'' then
        (case eth_dest eal optarg (pcfg_endpoint_macs config) of
           None \<Rightarrow> None
         | Some (Inl msg) \<Rightarrow> Some (Inl msg)
         | Some (Inr macs) \<Rightarrow> Some (Inr (config\<lparr>pcfg_endpoint_macs := macs\<rparr>)))
      else Some (Inl ''Unknown option''))"

definition policer_config_init :: "eal \<Rightarrow> policer_full_config \<Rightarrow> (char \<times> string) list \<Rightarrow> policer_full_config configured" where
  "policer_config_init eal config options = do {
     let config = config\<lparr>pcfg_lan_device := DEFAULT_LAN, pcfg_wan_device := DEFAULT_WAN, pcfg_rate := DEFAULT_RATE,
       pcfg_burst := DEFAULT_BURST, pcfg_dyn_capacity := DEFAULT_CAPACITY\<rparr>;
     macs \<leftarrow> read_macs eal (pcfg_device_macs config) 0;
     options_all (policer_option eal) (config\<lparr>pcfg_device_macs := macs\<rparr>) options
   }"

section \<open>Bridge\<close>

text \<open>The capacity of the bridge has a constant of the same name and value in \<open>bridge_config.c\<close>.\<close>

definition DEFAULT_EXP_TIME :: u32 where "DEFAULT_EXP_TIME = 300"
definition CONFIG_FNAME_LEN :: nat where "CONFIG_FNAME_LEN = 512"

definition bridge_option :: "bridge_config \<Rightarrow> char \<Rightarrow> string \<Rightarrow> bridge_config configured" where
  "bridge_option config opt optarg =
     (if opt = CHR ''t'' then with_int optarg (CHR 0x00) (\<lambda>n.
        let config = config\<lparr>bcfg_expiration_time := ucast n\<rparr> in
        if bcfg_expiration_time config = 0 then Some (Inl ''Expiration time must be strictly positive.'') else Some (Inr config))
      else if opt = CHR ''c'' then with_int optarg (CHR 0x00) (\<lambda>n.
        let config = config\<lparr>bcfg_dyn_capacity := ucast n\<rparr> in
        if bcfg_dyn_capacity config \<le> 0 then Some (Inl ''Flow table size must be strictly positive.'') else Some (Inr config))
      else if opt = CHR ''f'' then Some (Inr (config\<lparr>bcfg_static_config_fname := take (CONFIG_FNAME_LEN - 1) optarg\<rparr>))
      else Some (Inl ''Unknown option''))"

definition bridge_config_init :: "bridge_config \<Rightarrow> (char \<times> string) list \<Rightarrow> bridge_config configured" where
  "bridge_config_init config options =
     options_all bridge_option (config\<lparr>bcfg_expiration_time := DEFAULT_EXP_TIME, bcfg_dyn_capacity := DEFAULT_CAPACITY,
       bcfg_static_config_fname := []\<rparr>) options"

section \<open>Load balancer\<close>

definition lb_option :: "lb_config \<Rightarrow> char \<Rightarrow> string \<Rightarrow> lb_config configured" where
  "lb_option config opt optarg =
     (if opt = CHR ''x'' then with_int optarg (CHR 0x00) (\<lambda>n.
        let config = config\<lparr>lbc_flow_expiration_time := n\<rparr> in
        if lbc_flow_expiration_time config = 0 then Some (Inl ''Flow expiration time must be strictly positive.'') else Some (Inr config))
      else if opt = CHR ''f'' then with_int optarg (CHR 0x00) (\<lambda>n.
        let config = config\<lparr>lbc_flow_capacity := ucast n\<rparr> in
        if lbc_flow_capacity config \<le> 0 then Some (Inl ''Flow capacity must be strictly positive.'') else Some (Inr config))
      else if opt = CHR ''s'' then with_int optarg (CHR 0x00) (\<lambda>n.
        let config = config\<lparr>lbc_backend_capacity := ucast n\<rparr> in
        if lbc_flow_capacity config \<le> 0 then Some (Inl ''Flow capacity must be strictly positive.'') else Some (Inr config))
      else if opt = CHR ''h'' then with_int optarg (CHR 0x00) (\<lambda>n.
        let config = config\<lparr>lbc_cht_height := ucast n\<rparr> in
        if lbc_flow_capacity config \<le> 0 then Some (Inl ''Flow capacity must be strictly positive.'') else Some (Inr config))
      else if opt = CHR ''t'' then with_int optarg (CHR 0x00) (\<lambda>n.
        let config = config\<lparr>lbc_backend_expiration_time := n\<rparr> in
        if lbc_flow_expiration_time config = 0 then Some (Inl ''Flow expiration time must be strictly positive.'') else Some (Inr config))
      else Some (Inl ''Unknown option.''))"

text \<open>
  \<open>block\<close> is what the block of \<open>malloc\<close> holds at each device; it is \<^term>\<open>None\<close> if there is no memory, which the code does not
  check.
\<close>

definition lb_config_init :: "eal \<Rightarrow> (nat \<Rightarrow> u8 list) option \<Rightarrow> lb_config \<Rightarrow> (char \<times> string) list \<Rightarrow> lb_config configured" where
  "lb_config_init eal block config options =
     (case options_all lb_option config options of
        None \<Rightarrow> None
      | Some (Inl msg) \<Rightarrow> Some (Inl msg)
      | Some (Inr config) \<Rightarrow> do {
          let device_macs = (case block of None \<Rightarrow> [] | Some f \<Rightarrow> map f [0..<unat (nb_devices eal)]);
          macs \<leftarrow> read_macs eal device_macs 0;
          Some (Inr (config\<lparr>lbc_device_macs := macs\<rparr>))
        })"

section \<open>Reading numbers and devices\<close>

lemma nf_util_parse_int_dec:
  assumes "n < 2 ^ 63" "f = [] \<or> \<not> isdigit (hd f)" "char_at f = c"
  shows "nf_util_parse_int (dec n @ f) c = Some (word_of_int (int n))"
proof -
  have "max (- (2 ^ 63)) (min (2 ^ 63 - 1) (int n)) = int n" using assms(1) by simp
  then have "strtoimax (dec n @ f) = (int n, f)" by (simp only: strtoimax_def scan_dec [OF assms(2)] prod.case option.case)
  then show ?thesis using assms(3) dec_digits [of n] by (simp add: nf_util_parse_int_def)
qed

lemma with_int_dec:
  assumes "n < 2 ^ 63"
  shows "with_int (dec n) (CHR 0x00) k = k (word_of_int (int n))"
  using nf_util_parse_int_dec [of n "[]" "CHR 0x00"] assms by (simp add: with_int_def char_at_def)

lemma with_int_Inr:
  assumes "with_int optarg c k = Some (Inr x)"
  obtains n where "k n = Some (Inr x)"
  using assms by (auto simp: with_int_def split: option.splits)

lemma with_int_None:
  assumes "with_int optarg c k = None"
  obtains n where "k n = None"
  using assms by (auto simp: with_int_def split: option.splits)

text \<open>The devices DPDK reports: as many as there are entries in the arrays, with addresses of six bytes.\<close>

definition eal_ok :: "eal \<Rightarrow> nat \<Rightarrow> bool" where
  "eal_ok eal ports \<longleftrightarrow> unat (nb_devices eal) \<le> ports \<and> (\<forall>d. length (rte_eth_macaddr_get eal d) = 6) \<and>
     (\<forall>s mac. cmdline_parse_etheraddr eal s = Some mac \<longrightarrow> length mac = 6)"

definition macs_ok :: "nat \<Rightarrow> u8 list list \<Rightarrow> bool" where
  "macs_ok ports macs \<longleftrightarrow> length macs = ports \<and> (\<forall>mac\<in>set macs. length mac = 6)"

lemma macs_ok_update: "macs_ok ports macs \<Longrightarrow> length mac = 6 \<Longrightarrow> macs_ok ports (macs[i := mac])"
  by (auto simp: macs_ok_def dest!: set_update_subset_insert [THEN subsetD])

lemma read_macs_correct:
  assumes "unat (nb_devices eal) \<le> length macs"
  shows "read_macs eal macs k =
    Some (map (\<lambda>d. if k \<le> d \<and> d < unat (nb_devices eal) then rte_eth_macaddr_get eal d else macs ! d) [0..<length macs])"
  using assms
proof (induction eal macs k rule: read_macs.induct)
  case (1 eal macs k)
  show ?case
  proof (cases "k < unat (nb_devices eal)")
    case True
    then show ?thesis using 1 by (subst read_macs.simps) (auto simp: nth_list_update intro!: nth_equalityI)
  next
    case False
    then show ?thesis by (subst read_macs.simps) (auto intro!: nth_equalityI)
  qed
qed

lemma read_macs_ok:
  assumes "eal_ok eal ports" "macs_ok ports macs"
  obtains macs' where "read_macs eal macs 0 = Some macs'" "macs_ok ports macs'"
  using read_macs_correct [of eal macs 0] assms by (fastforce simp: eal_ok_def macs_ok_def)

lemma eth_dest_ok:
  assumes "eal_ok eal ports" "macs_ok ports macs"
  shows "eth_dest eal optarg macs \<noteq> None" "eth_dest eal optarg macs = Some (Inr macs') \<Longrightarrow> macs_ok ports macs'"
proof -
  have wide: "uint (ucast (nb_devices eal) :: u32) = uint (nb_devices eal)"
    by (rule uint_up_ucast) (simp add: is_up)
  have "uint (ucast (n :: u64) :: u32) < int (length macs)" if "\<not> ucast n \<ge> (ucast (nb_devices eal) :: u32)" for n
  proof -
    have "uint (ucast n :: u32) < uint (nb_devices eal)" using that by (simp only: not_le word_less_def wide)
    also have "\<dots> \<le> int (length macs)" using assms by (simp only: uint_nat eal_ok_def macs_ok_def of_nat_le_iff)
    finally show ?thesis .
  qed
  then have bound: "wr macs (uint (ucast n :: u32)) mac \<noteq> None"
    if "\<not> ucast (n :: u64) \<ge> (ucast (nb_devices eal) :: u32)" for n mac
    using that by (simp add: wr_def)
  have mac: "length mac = 6" if "cmdline_parse_etheraddr eal s = Some mac" for s mac
    using that assms(1) by (auto simp: eal_ok_def)
  show "eth_dest eal optarg macs \<noteq> None"
    using bound by (simp add: eth_dest_def with_int_def Let_def split: option.split)
  show "macs_ok ports macs'" if "eth_dest eal optarg macs = Some (Inr macs')"
    using that mac assms(2)
    by (auto simp: eth_dest_def with_int_def Let_def wr_def macs_ok_update split: option.splits if_split_asm)
qed

section \<open>The loop over the options\<close>

text \<open>
  What the \<open>switch\<close> of a network function owes the loop: from a configuration whose arrays have their size it makes no access outside
  them, and it keeps their size.
\<close>

locale option_switch =
  fixes handle :: "'c \<Rightarrow> char \<Rightarrow> string \<Rightarrow> 'c configured" and sized :: "'c \<Rightarrow> bool"
  assumes inside: "sized c \<Longrightarrow> handle c opt optarg \<noteq> None"
    and keeps_size: "sized c \<Longrightarrow> handle c opt optarg = Some (Inr c') \<Longrightarrow> sized c'"
begin

lemma all_inside: "sized config \<Longrightarrow> options_all handle config options \<noteq> None"
proof (induction options arbitrary: config)
  case (Cons oa options)
  obtain opt optarg where oa: "oa = (opt, optarg)" by (cases oa)
  then show ?case using inside [OF Cons.prems, of opt optarg] keeps_size [OF Cons.prems, of opt optarg] Cons.IH
    by (auto split: sum.split)
qed simp

lemma all_keep_size: "options_all handle config options = Some (Inr config') \<Longrightarrow> sized config \<Longrightarrow> sized config'"
proof (induction options arbitrary: config)
  case (Cons oa options)
  obtain opt optarg where oa: "oa = (opt, optarg)" by (cases oa)
  then show ?case using keeps_size [OF Cons.prems(2), of opt optarg] Cons by (auto split: option.splits sum.splits)
qed simp

text \<open>What an option establishes and every option keeps holds at the end if the option is given.\<close>

lemma all_establish:
  assumes "\<And>c optarg c'. handle c o0 optarg = Some (Inr c') \<Longrightarrow> P c'"
    and "\<And>c opt optarg c'. P c \<Longrightarrow> handle c opt optarg = Some (Inr c') \<Longrightarrow> P c'"
    and "options_all handle config options = Some (Inr config')" and "o0 \<in> fst ` set options \<or> P config"
  shows "P config'"
  using assms(3,4)
proof (induction options arbitrary: config)
  case (Cons oa options)
  obtain opt optarg where oa: "oa = (opt, optarg)" by (cases oa)
  obtain c where c: "handle config opt optarg = Some (Inr c)" "options_all handle c options = Some (Inr config')"
    using Cons.prems(1) by (auto simp: oa split: option.splits sum.splits)
  have "o0 \<in> fst ` set options \<or> P c" using Cons.prems(2) c(1) assms(1,2) by (auto simp: oa)
  then show ?case by (rule Cons.IH [OF c(2)])
qed auto

end

definition nat_sized :: "eal \<Rightarrow> nat \<Rightarrow> nat_full_config \<Rightarrow> bool" where
  "nat_sized eal ports c \<longleftrightarrow> eal_ok eal ports \<and> macs_ok ports (ncfg_device_macs c) \<and> macs_ok ports (ncfg_endpoint_macs c)"

definition fw_sized :: "eal \<Rightarrow> nat \<Rightarrow> fw_config \<Rightarrow> bool" where
  "fw_sized eal ports c \<longleftrightarrow> eal_ok eal ports \<and> macs_ok ports (fcfg_device_macs c) \<and> macs_ok ports (fcfg_endpoint_macs c)"

definition policer_sized :: "eal \<Rightarrow> nat \<Rightarrow> policer_full_config \<Rightarrow> bool" where
  "policer_sized eal ports c \<longleftrightarrow> eal_ok eal ports \<and> macs_ok ports (pcfg_device_macs c) \<and> macs_ok ports (pcfg_endpoint_macs c)"

definition bridge_sized :: "bridge_config \<Rightarrow> bool" where
  "bridge_sized c \<longleftrightarrow> length (bcfg_static_config_fname c) < CONFIG_FNAME_LEN"

interpretation nat_opt: option_switch "nat_option eal" "nat_sized eal ports" for eal ports
proof
  fix c opt optarg and c' :: nat_full_config
  assume "nat_sized eal ports c"
  then have s: "eal_ok eal ports" "macs_ok ports (ncfg_device_macs c)" "macs_ok ports (ncfg_endpoint_macs c)"
    by (simp_all add: nat_sized_def)
  show "nat_option eal c opt optarg \<noteq> None"
    using eth_dest_ok(1) [OF s(1,3), of optarg] by (auto simp: nat_option_def with_int_def Let_def split: option.split sum.split)
  assume "nat_option eal c opt optarg = Some (Inr c')"
  then show "nat_sized eal ports c'" using s eth_dest_ok(2) [OF s(1,3), of optarg]
    by (auto simp: nat_option_def nat_sized_def with_int_def Let_def split: option.splits sum.splits if_split_asm)
qed

interpretation fw_opt: option_switch "fw_option eal" "fw_sized eal ports" for eal ports
proof
  fix c opt optarg and c' :: fw_config
  assume "fw_sized eal ports c"
  then have s: "eal_ok eal ports" "macs_ok ports (fcfg_device_macs c)" "macs_ok ports (fcfg_endpoint_macs c)"
    by (simp_all add: fw_sized_def)
  show "fw_option eal c opt optarg \<noteq> None"
    using eth_dest_ok(1) [OF s(1,3), of optarg] by (auto simp: fw_option_def with_int_def Let_def split: option.split sum.split)
  assume "fw_option eal c opt optarg = Some (Inr c')"
  then show "fw_sized eal ports c'" using s eth_dest_ok(2) [OF s(1,3), of optarg]
    by (auto simp: fw_option_def fw_sized_def with_int_def Let_def split: option.splits sum.splits if_split_asm)
qed

interpretation policer_opt: option_switch "policer_option eal" "policer_sized eal ports" for eal ports
proof
  fix c opt optarg and c' :: policer_full_config
  assume "policer_sized eal ports c"
  then have s: "eal_ok eal ports" "macs_ok ports (pcfg_device_macs c)" "macs_ok ports (pcfg_endpoint_macs c)"
    by (simp_all add: policer_sized_def)
  show "policer_option eal c opt optarg \<noteq> None"
    using eth_dest_ok(1) [OF s(1,3), of optarg] by (auto simp: policer_option_def with_int_def Let_def split: option.split sum.split)
  assume "policer_option eal c opt optarg = Some (Inr c')"
  then show "policer_sized eal ports c'" using s eth_dest_ok(2) [OF s(1,3), of optarg]
    by (auto simp: policer_option_def policer_sized_def with_int_def Let_def split: option.splits sum.splits if_split_asm)
qed

interpretation bridge_opt: option_switch bridge_option bridge_sized
  by unfold_locales
    (auto simp: bridge_option_def bridge_sized_def CONFIG_FNAME_LEN_def with_int_def Let_def split: option.splits if_split_asm)

interpretation lb_opt: option_switch lb_option "\<lambda>_. True"
  by unfold_locales (auto simp: lb_option_def with_int_def Let_def split: option.splits if_split_asm)

section \<open>Properties\<close>

lemma fw_config_init_inside:
  assumes "fw_sized eal ports config"
  shows "fw_config_init eal config options \<noteq> None"
    "fw_config_init eal config options = Some (Inr config') \<Longrightarrow> fw_sized eal ports config'"
proof -
  obtain macs where m: "read_macs eal (fcfg_device_macs config) 0 = Some macs" "macs_ok ports macs"
    using read_macs_ok [of eal ports "fcfg_device_macs config"] assms by (auto simp: fw_sized_def)
  then have s: "fw_sized eal ports (config\<lparr>fcfg_device_macs := macs\<rparr>)" using assms by (simp add: fw_sized_def)
  show "fw_config_init eal config options \<noteq> None" using fw_opt.all_inside [OF s] by (simp add: fw_config_init_def m)
  show "fw_sized eal ports config'" if "fw_config_init eal config options = Some (Inr config')"
    using that fw_opt.all_keep_size [OF _ s] by (simp add: fw_config_init_def m)
qed

lemma fw_option_checked:
  assumes "fw_config_init eal config options = Some (Inr config')"
  shows "CHR ''l'' \<in> fst ` set options \<Longrightarrow> fcfg_lan_device config' < nb_devices eal"
    "CHR ''w'' \<in> fst ` set options \<Longrightarrow> fcfg_wan_device config' < nb_devices eal"
    "CHR ''c'' \<in> fst ` set options \<Longrightarrow> fcfg_capacity config' \<noteq> 0"
    "CHR ''t'' \<in> fst ` set options \<Longrightarrow> fcfg_expiration_time config' \<noteq> 0"
proof -
  obtain c where c: "options_all (fw_option eal) c options = Some (Inr config')"
    using assms by (auto simp: fw_config_init_def split: bind_splits)
  note switch = fw_option_def with_int_def Let_def
  show "CHR ''l'' \<in> fst ` set options \<Longrightarrow> fcfg_lan_device config' < nb_devices eal"
    by (rule fw_opt.all_establish [where ?o0.0 = "CHR ''l''" and P = "\<lambda>c. fcfg_lan_device c < nb_devices eal", OF _ _ c])
      (auto simp: switch split: option.splits sum.splits if_split_asm)
  show "CHR ''w'' \<in> fst ` set options \<Longrightarrow> fcfg_wan_device config' < nb_devices eal"
    by (rule fw_opt.all_establish [where ?o0.0 = "CHR ''w''" and P = "\<lambda>c. fcfg_wan_device c < nb_devices eal", OF _ _ c])
      (auto simp: switch split: option.splits sum.splits if_split_asm)
  show "CHR ''c'' \<in> fst ` set options \<Longrightarrow> fcfg_capacity config' \<noteq> 0"
    by (rule fw_opt.all_establish [where ?o0.0 = "CHR ''c''" and P = "\<lambda>c. fcfg_capacity c \<noteq> 0", OF _ _ c])
      (auto simp: switch split: option.splits sum.splits if_split_asm)
  show "CHR ''t'' \<in> fst ` set options \<Longrightarrow> fcfg_expiration_time config' \<noteq> 0"
    by (rule fw_opt.all_establish [where ?o0.0 = "CHR ''t''" and P = "\<lambda>c. fcfg_expiration_time c \<noteq> 0", OF _ _ c])
      (auto simp: switch split: option.splits sum.splits if_split_asm)
qed

lemma fw_sized_config_ok:
  assumes "fw_sized eal ports config" "fcfg_lan_device config < nb_devices eal" "fcfg_wan_device config < nb_devices eal"
  shows "fw_config_ok config"
proof -
  have "unat (fcfg_lan_device config) < ports" "unat (fcfg_wan_device config) < ports"
    using assms by (auto simp: fw_sized_def eal_ok_def word_less_nat_alt)
  then show ?thesis using assms(1) by (auto simp: fw_config_ok_def fw_sized_def macs_ok_def)
qed

lemma nat_read_devices_correct:
  assumes "unat (nb_devices eal) \<le> length (ncfg_device_macs config)" "\<And>d. rte_ethtool_get_drvinfo eal d \<noteq> None"
  shows "\<exists>ty. nat_read_devices eal config k = Some (Inr (config\<lparr>ncfg_driver_type := ty,
    ncfg_device_macs := map (\<lambda>d. if k \<le> d \<and> d < unat (nb_devices eal) then rte_eth_macaddr_get eal d else ncfg_device_macs config ! d)
      [0..<length (ncfg_device_macs config)]\<rparr>))"
  using assms
proof (induction eal config k rule: nat_read_devices.induct)
  case (1 eal config k)
  show ?case
  proof (cases "k < unat (nb_devices eal)")
    case True
    then obtain macs where macs: "wr (ncfg_device_macs config) (int k) (rte_eth_macaddr_get eal k) = Some macs"
      "macs = (ncfg_device_macs config)[k := rte_eth_macaddr_get eal k]" using 1(2) by simp
    obtain ty where ty: "rte_ethtool_get_drv_type eal k = Some ty"
      using 1(3) [of k] by (auto simp: rte_ethtool_get_drv_type_def)
    let ?c = "config\<lparr>ncfg_device_macs := macs, ncfg_driver_type := ty\<rparr>"
    have again: "nat_read_devices eal config k = nat_read_devices eal ?c (k + 1)"
      using True macs(1) ty by (subst nat_read_devices.simps) simp
    have "map (\<lambda>d. if k + 1 \<le> d \<and> d < unat (nb_devices eal) then rte_eth_macaddr_get eal d else macs ! d) [0..<length macs] =
      map (\<lambda>d. if k \<le> d \<and> d < unat (nb_devices eal) then rte_eth_macaddr_get eal d else ncfg_device_macs config ! d)
        [0..<length (ncfg_device_macs config)]"
      using True by (auto simp: macs(2) nth_list_update not_less_eq_eq dest: le_antisym)
    moreover have "\<exists>ty'. nat_read_devices eal ?c (k + 1) = Some (Inr (?c\<lparr>ncfg_driver_type := ty',
      ncfg_device_macs := map (\<lambda>d. if k + 1 \<le> d \<and> d < unat (nb_devices eal) then rte_eth_macaddr_get eal d else macs ! d)
        [0..<length macs]\<rparr>))"
      using 1(1) [OF True macs(1) ty] 1(2,3) macs(2) by (simp cong: if_cong)
    ultimately show ?thesis unfolding again by simp
  next
    case False
    have "map (\<lambda>d. if k \<le> d \<and> d < unat (nb_devices eal) then rte_eth_macaddr_get eal d else ncfg_device_macs config ! d)
      [0..<length (ncfg_device_macs config)] = ncfg_device_macs config" using False by (auto intro!: nth_equalityI)
    then show ?thesis using False
      by (subst nat_read_devices.simps) (auto intro!: exI [of _ "ncfg_driver_type config"])
  qed
qed

lemma word_dec: "with_int (dec (unat (w :: 'a :: len word))) (CHR 0x00) k = k (ucast w)" if "LENGTH('a) < 64"
proof -
  have "unat w < 2 ^ LENGTH('a)" by (rule unsigned_less)
  also have "(2 :: nat) ^ LENGTH('a) \<le> 2 ^ 63" using that by (intro power_increasing) auto
  finally show ?thesis using with_int_dec [of "unat w" k] by simp
qed

lemma field_of_word [simp]: "ucast (ucast (w :: 'a :: len word) :: u64) = w" if "LENGTH('a) \<le> 64"
  using that by (intro bit_word_eqI) (simp add: bit_simps)

subsection \<open>An example\<close>

definition example_eal :: eal where
  "example_eal = \<lparr>nb_devices = 2, rte_eth_macaddr_get = (\<lambda>d. replicate 6 (of_nat d + 1)), rte_ethtool_get_drvinfo = (\<lambda>d. Some ''net_mlx5''),
     cmdline_parse_etheraddr = (\<lambda>s. if s = ''03:03:03:03:03:03'' then Some (replicate 6 3)
       else if s = ''04:04:04:04:04:04'' then Some (replicate 6 4) else None),
     cmdline_parse_ipaddr = (\<lambda>s. if s = ''10.0.0.1'' then Some 0x0100000A else None)\<rparr>"

definition example_blank_config :: fw_config where
  "example_blank_config = \<lparr>fcfg_lan_device = 0, fcfg_wan_device = 0, fcfg_capacity = 0, fcfg_expiration_time = 0,
     fcfg_device_macs = replicate 2 (replicate 6 0), fcfg_endpoint_macs = replicate 2 (replicate 6 0)\<rparr>"

definition example_fw_options :: "(char \<times> string) list" where
  "example_fw_options = [(CHR ''c'', ''2''), (CHR ''l'', ''0''), (CHR ''w'', ''1''), (CHR ''t'', ''100''),
     (CHR ''m'', ''0,03:03:03:03:03:03''), (CHR ''m'', ''1,04:04:04:04:04:04'')]"

definition example_nat_blank :: nat_full_config where
  "example_nat_blank = \<lparr>ncfg_lan_main_device = 0, ncfg_wan_device = 0, ncfg_external_addr = 0,
     ncfg_device_macs = replicate 2 (replicate 6 0), ncfg_endpoint_macs = replicate 2 (replicate 6 0), ncfg_start_port = 0,
     ncfg_expiration_time = 0, ncfg_max_flows = 0, ncfg_driver_type = 0\<rparr>"

definition example_lb_blank :: lb_config where
  "example_lb_blank = \<lparr>lbc_backend_count = 0, lbc_device_macs = [], lbc_flow_capacity = 0, lbc_flow_expiration_time = 0,
     lbc_backend_capacity = 0, lbc_cht_height = 0, lbc_backend_expiration_time = 0\<rparr>"

definition example_large_eal :: eal where
  "example_large_eal = example_eal\<lparr>nb_devices := 16\<rparr>"

lemma example_eal_ok: "eal_ok example_eal 2"
  by (simp add: eal_ok_def example_eal_def)

lemma example_fw_sized: "fw_sized example_eal 2 example_blank_config"
  by (simp add: fw_sized_def example_eal_ok macs_ok_def example_blank_config_def)

lemma example_fw_config_init:
  "fw_config_init example_eal example_blank_config example_fw_options =
     Some (Inr example_fw_config)"
  by code_simp



text \<open>
  C28. A number written in decimal notation reaches the configuration unchanged if it fits its field. From the options of a NAT
  that name two existing devices and positive sizes, \<open>nat_config_init\<close> makes the configuration with exactly these values, the addresses
  of the devices, and the type of some driver; all other fields are as before.
\<close>

theorem nat_config_roundtrip:
  assumes "nat_sized eal ports config" "\<And>d. rte_ethtool_get_drvinfo eal d \<noteq> None"
    and "lan < nb_devices eal" "wan < nb_devices eal" "0 < flows" "0 < time" "cmdline_parse_ipaddr eal ip = Some addr"
  shows "\<exists>ty. nat_config_init eal config
      [(CHR ''l'', dec (unat lan)), (CHR ''w'', dec (unat wan)), (CHR ''i'', ip), (CHR ''f'', dec (unat flows)),
       (CHR ''s'', dec (unat port)), (CHR ''t'', dec (unat time))] =
    Some (Inr (config\<lparr>ncfg_lan_main_device := lan, ncfg_wan_device := wan, ncfg_external_addr := addr,
      ncfg_max_flows := flows, ncfg_start_port := port, ncfg_expiration_time := time, ncfg_driver_type := ty,
      ncfg_device_macs := map (\<lambda>d. if d < unat (nb_devices eal) then rte_eth_macaddr_get eal d else ncfg_device_macs config ! d) [0..<ports]\<rparr>))"
proof -
  have "unat (nb_devices eal) \<le> length (ncfg_device_macs config)" "length (ncfg_device_macs config) = ports"
    using assms(1) by (simp_all add: nat_sized_def eal_ok_def macs_ok_def)
  then obtain ty where d: "nat_read_devices eal config 0 = Some (Inr (config\<lparr>ncfg_driver_type := ty, ncfg_device_macs :=
      map (\<lambda>d. if d < unat (nb_devices eal) then rte_eth_macaddr_get eal d else ncfg_device_macs config ! d) [0..<ports]\<rparr>))"
    using nat_read_devices_correct [of eal config 0] assms(2) by auto
  have "nat_option eal c (CHR ''l'') (dec (unat lan)) = Some (Inr (c\<lparr>ncfg_lan_main_device := lan\<rparr>))"
    "nat_option eal c (CHR ''w'') (dec (unat wan)) = Some (Inr (c\<lparr>ncfg_wan_device := wan\<rparr>))"
    "nat_option eal c (CHR ''i'') ip = Some (Inr (c\<lparr>ncfg_external_addr := addr\<rparr>))"
    "nat_option eal c (CHR ''f'') (dec (unat flows)) = Some (Inr (c\<lparr>ncfg_max_flows := flows\<rparr>))"
    "nat_option eal c (CHR ''s'') (dec (unat port)) = Some (Inr (c\<lparr>ncfg_start_port := port\<rparr>))"
    "nat_option eal c (CHR ''t'') (dec (unat time)) = Some (Inr (c\<lparr>ncfg_expiration_time := time\<rparr>))" for c
    using assms(3-7) by (simp_all add: nat_option_def word_dec Let_def not_le word_gt_0)
  then show ?thesis by (intro exI [of _ ty]) (simp add: nat_config_init_def d)
qed

theorem nat_config_roundtrip_witness:
  "\<exists>ty. nat_config_init example_eal example_nat_blank
      [(CHR ''l'', dec (unat (0 :: u16))), (CHR ''w'', dec (unat (1 :: u16))), (CHR ''i'', ''10.0.0.1''), (CHR ''f'', dec (unat (8 :: u32))),
       (CHR ''s'', dec (unat (1024 :: u16))), (CHR ''t'', dec (unat (30 :: u32)))] =
    Some (Inr (example_nat_blank\<lparr>ncfg_lan_main_device := 0, ncfg_wan_device := 1, ncfg_external_addr := 0x0100000A,
      ncfg_max_flows := 8, ncfg_start_port := 1024, ncfg_expiration_time := 30, ncfg_driver_type := ty,
      ncfg_device_macs := map (\<lambda>d. if d < unat (nb_devices example_eal) then rte_eth_macaddr_get example_eal d
        else ncfg_device_macs example_nat_blank ! d) [0..<2]\<rparr>))"
proof (rule nat_config_roundtrip)
  show "nat_sized example_eal 2 example_nat_blank"
    by (simp add: nat_sized_def example_eal_ok macs_ok_def example_nat_blank_def)
qed (simp_all add: example_eal_def)

text \<open>
  C35. The load balancer accepts a backend capacity, a table height and a backend expiration time of zero: the three cases check
  fields that other options set. The configuration has the zeros.
\<close>

theorem lb_config_accepts_zero:
  assumes "0 < flows" "0 < time"
  shows "\<exists>config'. lb_config_init eal (Some f) config
      [(CHR ''f'', dec (unat (flows :: u32))), (CHR ''x'', dec (unat (time :: u32))), (CHR ''s'', ''0''), (CHR ''h'', ''0''), (CHR ''t'', ''0'')]
      = Some (Inr config') \<and>
    lbc_flow_capacity config' = flows \<and> lbc_flow_expiration_time config' = ucast time \<and>
    lbc_backend_capacity config' = 0 \<and> lbc_cht_height config' = 0 \<and> lbc_backend_expiration_time config' = 0 \<and>
    lbc_device_macs config' = map (rte_eth_macaddr_get eal) [0..<unat (nb_devices eal)]"
proof -
  let ?c = "config\<lparr>lbc_flow_capacity := flows, lbc_flow_expiration_time := ucast time, lbc_backend_capacity := 0, lbc_cht_height := 0,
    lbc_backend_expiration_time := 0\<rparr>"
  have zero: "with_int ''0'' (CHR 0x00) k = k 0" for k :: "u64 \<Rightarrow> 'c configured"
  proof -
    have "nf_util_parse_int ''0'' (CHR 0x00) = Some 0" by code_simp
    then show ?thesis by (simp add: with_int_def)
  qed
  have "uint (ucast time :: u64) = uint time" by (rule uint_up_ucast) (simp add: is_up)
  then have "(ucast time :: u64) \<noteq> 0" using assms(2) by (metis uint_0_eq unsigned_eq_0_iff word_gt_0)
  then have "options_all lb_option config
      [(CHR ''f'', dec (unat flows)), (CHR ''x'', dec (unat time)), (CHR ''s'', ''0''), (CHR ''h'', ''0''), (CHR ''t'', ''0'')] = Some (Inr ?c)"
    using assms(1) by (simp add: lb_option_def word_dec zero Let_def not_le word_gt_0)
  moreover have "read_macs eal (map f [0..<unat (nb_devices eal)]) 0 = Some (map (rte_eth_macaddr_get eal) [0..<unat (nb_devices eal)])"
    using read_macs_correct [of eal "map f [0..<unat (nb_devices eal)]" 0] by simp
  ultimately show ?thesis by (simp add: lb_config_init_def)
qed

theorem lb_config_accepts_zero_witness:
  "\<exists>config'. lb_config_init example_eal (Some (\<lambda>_. [])) example_lb_blank
      [(CHR ''f'', dec (unat (16 :: u32))), (CHR ''x'', dec (unat (30 :: u32))), (CHR ''s'', ''0''), (CHR ''h'', ''0''), (CHR ''t'', ''0'')]
      = Some (Inr config') \<and> lbc_flow_capacity config' = 16 \<and> lbc_backend_capacity config' = 0 \<and> lbc_cht_height config' = 0"
  using lb_config_accepts_zero [of 16 30 example_eal "\<lambda>_. []" example_lb_blank] by auto

text \<open>
  The option \<open>--eth-dest\<close> skips two characters for the number of the device and the comma. It sets the endpoint of a device with one digit,
  and refuses every device with two digits, given a parser of addresses that refuses a comma at the start.
\<close>

lemma eth_dest_needs_one_digit:
  assumes "n < 100" "n < unat (nb_devices eal)" "unat (nb_devices eal) \<le> length macs" "cmdline_parse_etheraddr eal s = Some mac"
    and "\<And>s. cmdline_parse_etheraddr eal (CHR '','' # s) = None"
  shows "eth_dest eal (dec n @ CHR '','' # s) macs =
    Some (if n < 10 then Inr (macs[n := mac]) else Inl ''Invalid MAC address'')"
proof -
  have digits: "length (dec n) = (if n < 10 then 1 else 2)" using assms(1) by (auto simp: dec.simps [of n] dec.simps [of "n div 10"])
  have parse: "nf_util_parse_int (dec n @ CHR '','' # s) (CHR '','') = Some (word_of_int (int n))"
    using assms(1) by (intro nf_util_parse_int_dec) (simp_all add: isdigit_def char_at_def)
  have n: "uint (ucast (word_of_int (int n) :: u64) :: u32) = int n"
    using assms(1) by (simp add: unsigned_ucast_eq unsigned_of_nat take_bit_nat_eq_self)
  have "uint (ucast (nb_devices eal) :: u32) = uint (nb_devices eal)" by (rule uint_up_ucast) (simp add: is_up)
  then have "\<not> (ucast (nb_devices eal) :: u32) \<le> ucast (word_of_int (int n) :: u64)"
    using assms(2) n by (simp only: word_le_def not_le uint_nat of_nat_less_iff)
  then show ?thesis
    using assms parse n digits by (auto simp: eth_dest_def with_int_def Let_def)
qed

end
