(* ===== verification/Spec2Isabelle.thy ===== *)
theory Spec2Isabelle
  imports Vignat Vigpol NfMain Vigbalancer Lpm XdpCrab BpfStub DoubleMap Config
begin

text \<open>
  Verification of the network functions of PIX, of the containers they are built from, and of two of its eBPF programs. File names are
  relative to \<open>src/\<close>; where no directory is given, to \<open>src/dpdk-nfs/nf/\<close>.

  \<^bold>\<open>The program.\<close> A network function is a pair \<open>nf_core_init\<close>, \<open>nf_core_process\<close> linked with \<open>nf_main.c\<close>, which reads the command line,
  initialises the DPDK devices and polls them for ever: every packet is given to \<open>nf_core_process\<close> with the current time, and is then
  dropped, flooded or sent to the device that the function names. The functions keep their flows in a hash map from keys to indexes, a
  vector with one key per index, and an allocator of indexes that remembers when each was last used; before each packet the expirator
  removes the indexes that are too old from all three. The eBPF programs are handlers of single packets that the kernel calls, with
  tables that the kernel keeps.

  \<^bold>\<open>The model.\<close> A computation that accesses memory outside its arrays, fails an \<open>assert\<close> or overflows a signed integer has the value
  \<^term>\<open>None\<close>; a theorem that a result is \<^term>\<open>Some\<close> thus says that none of this happens and that all loops end. State is passed
  explicitly, as records with the fields of the C structures. Unsigned integers are words of their width, C \<open>int\<close> is \<^typ>\<open>int\<close> with its
  range checked where the code could leave it. Allocation is a function on a heap that may refuse any request and that knows the live
  blocks, so that leaks are visible. Loops are \<open>function\<close>s with a measure, or \<open>partial_function\<close>s in the option monad where they may run
  for ever; in that case the theorems either prove that they return (the expiry loops) or that they do not (\<open>Router\<close>, \<open>Lpm\<close>). There is no fuel,
  except for the number of turns of the main loop, over which the theorems quantify.

  \<^item> \<open>Prelude\<close>: arrays (\<open>rd\<close>, \<open>wr\<close>), C integers, heap, generic lemmas. \<open>Scan\<close>: decimal numbers in text.
  \<^item> \<open>MapImpl\<close>, \<open>HashMap\<close> (\<open>lib/containers/map-impl.c\<close>, \<open>map.c\<close>): the open-addressing table with its chain counters, function by function. The
    invariant says that the counters are right; get, put and erase refine the operations of a finite map. The locale \<open>pointer_map\<close> is
    the contract of \<open>map.h\<close>, interpreted as \<open>hm\<close>.
  \<^item> \<open>DchainImpl\<close>, \<open>DoubleChain\<close> (\<open>double-chain-impl.c\<close>, \<open>double-chain.c\<close>): the two linked lists in one array of cells, and the time stamps. Every
    operation refines one on the list of allocated indexes in order of their times. Locale \<open>expiring_index\<close>, interpreted as \<open>dc\<close>.
  \<^item> \<open>Vector\<close> (\<open>vector.c\<close>): borrowing and returning elements at addresses in a block.
  \<^item> \<open>Expirator\<close>, \<open>FlowTable\<close> (\<open>lib/expirator.c\<close>): map, vector and allocator together represent a flow table, a list of flows with times; locale
    \<open>flow_table\<close>, interpreted as \<open>ft\<close>. Lookup, insertion and expiry refine the operations on that list.
  \<^item> \<open>DoubleMap\<close> (\<open>double-map.c\<close>, \<open>expire_items\<close> of \<open>lib/expirator.c\<close>): two hash maps over one array of values, as a finite function from indexes to
    values; it rests on the facts of \<open>hm\<close> and \<open>dc\<close>.
  \<^item> \<open>NfUtil\<close>, \<open>NfTime\<close> (\<open>lib/nf_util.c\<close>, \<open>lib/nf_time.c\<close>, headers of \<open>lib/stubs/dpdk\<close>): packets as lists of bytes, header accessors, checksum update,
    the clock with its rounding.
  \<^item> \<open>Runs\<close>: sequences of packets; locale \<open>refined_by_table\<close>, interpreted for firewall and bridge.
  \<^item> \<open>Vignat\<close> (\<open>vignat\<close>): the NAT; round trip of a flow, invariant of all reachable states. \<open>Vigfw\<close> (\<open>vigfw\<close>): the firewall; who may enter, and that
    answers do. \<open>Vigpol\<close> (\<open>vigpol\<close>): the policer; the rate limit. \<open>Bridge\<close> (\<open>bridge\<close>): the learning bridge; where frames go and why.
  \<^item> \<open>LbCht\<close>, \<open>Vigbalancer\<close> (\<open>vigbalancer\<close>): the consistent hashing table, whose rows are permutations of the backends for a prime height, and
    the load balancer; flows stick to their backend.
  \<^item> \<open>Router\<close>, \<open>Lpm\<close> (\<open>router\<close>, \<open>lpm\<close>): the timestamp option of IP, the routing table read from its file and the longest prefix.
  \<^item> \<open>NfMain\<close> (\<open>nf_main.c\<close>): devices, flooding and the main loop, with DPDK as a record of functions on a state of the world. Every buffer
    is sent or freed exactly once; locale \<open>polled_nf\<close> for a handler in the loop, interpreted for bridge and firewall.
  \<^item> \<open>Config\<close> (the files \<open>*_config.c\<close>, \<open>nf_util_parse_int\<close>, \<open>lib/ethtool.c\<close>): the options of five functions; locale \<open>option_switch\<close> for the \<open>switch\<close>
    over an option, interpreted for each of them.
  \<^item> \<open>XdpFw\<close>, \<open>XdpCrab\<close>, \<open>BpfStub\<close> (\<open>ebpf-nfs/fw\<close>, \<open>ebpf-nfs/crab\<close>, \<open>ebpf-nfs/common/parsing_helpers.h\<close>, \<open>ebpf-nfs/libbpf-stubbed\<close>): the firewall and the
    load balancer for XDP, and the maps that replace those of the kernel outside of it.
  \<^item> This theory: the firewall from its command line to its packets.

  \<^bold>\<open>Bounds.\<close> Capacities are powers of two below \<open>2^30\<close> (\<open>capacity_ok\<close>): for other values the mask in \<open>loop\<close> is not the modulo, and the contract of
  the code limits the capacity to half the range of \<open>int\<close>. Times are below \<open>2^63\<close> nanoseconds, about 292 years after the start of the
  clock, and do not decrease, which \<open>NfTime\<close> proves of \<open>current_time\<close> for a monotonic clock. Block sizes below \<open>2^32\<close> exclude the overflow of the
  product in \<open>vector_allocate\<close>.

  \<^bold>\<open>Code outside of the repository.\<close> Parameters of the definitions are: DPDK and the system clock (\<open>dpdk\<close>, with the laws \<open>dpdk_env\<close>; \<open>eal\<close>, with
  \<open>eal_ok\<close>), the checksum functions and the LPM library of DPDK, what \<open>getopt_long\<close> and the address parsers deliver, the maps and
  helpers of the kernel (\<open>bpf_hash_map\<close>, \<open>crab_library\<close>), the outcome of allocations and the contents of fresh memory. Each law is shown to hold of
  an example.

  \<^bold>\<open>Not modelled.\<close> Logging, usage messages and printing of the configuration (output only); the latency measurement compiled in by
  \<open>DUMP_LATENCY\<close>; the static table of the bridge, which \<open>NO_STATIC_MAPPING\<close> compiles out; the drivers for symbolic execution and the contracts for
  VeriFast, which are annotations; the containers \<open>alternate-double-chain.c\<close>, \<open>rehashing-map.c\<close> and \<open>batcher.c\<close>, which no modelled function uses; the
  random choice of targets in crab, the parsers it does not call, and the stub of maps of maps; katran; the performance contracts, which
  would need a cost semantics; scripts and benchmarks.
\<close>



end
